(* ===== verification/RR_Prelude.thy ===== *)
theory RR_Prelude
  imports Main "HOL-Library.Word" "HOL-Library.Monad_Syntax"
begin

text \<open>
  Shared vocabulary of the development: the machine integer types of \<^verbatim>\<open>reqrep.h\<close>, the
  generic facts on words (masks, alignment, ring indices), on byte buffers (\<^verbatim>\<open>memcpy\<close>) and
  on lists, and the collections of rewrite rules the component theories extend.

  A function whose C body may touch memory outside its object returns an option: \<^term>\<open>None\<close>
  is the undefined behaviour of the access, so that a theorem stating \<^term>\<open>Some\<close> states
  memory safety.
\<close>

unbundle bit_operations_syntax

type_synonym u8 = "8 word"
type_synonym u32 = "32 word"
type_synonym u64 = "64 word"
type_synonym bytes = "u8 list"

named_theorems reqrep_consts \<open>values of the preprocessor constants\<close>
named_theorems word_nat \<open>rules moving word expressions to natural numbers\<close>

section \<open>Words as natural numbers\<close>

lemma unat_lt_pow: "unat (x :: 'a::len word) < 2 ^ LENGTH('a)"
  by (rule unsigned_less)

lemma unat_lt_32: "unat (x :: u32) < 4294967296"
  using unat_lt_pow [of x] by simp

lemma unat_lt_64: "unat (x :: u64) < 18446744073709551616"
  using unat_lt_pow [of x] by simp

lemma unat_mask: "k < LENGTH('a::len) \<Longrightarrow> unat (mask k :: 'a word) = 2 ^ k - 1"
proof -
  assume "k < LENGTH('a)"
  then have "uint (mask k :: 'a word) = mask k"
    by (simp add: uint_mask_eq min_def)
  then have "int (unat (mask k :: 'a word)) = int (2 ^ k - 1)"
    by (simp add: mask_eq_exp_minus_1 of_nat_diff)
  then show ?thesis by (simp only: of_nat_eq_iff)
qed

lemma unat_ucast_32_64 [word_nat]: "unat (ucast (x :: u32) :: u64) = unat x"
  by (simp add: unsigned_ucast_eq take_bit_nat_eq_self unat_lt_32 less_trans [OF unat_lt_32])

lemma unat_ucast_64_32 [word_nat]: "unat (ucast (x :: u64) :: u32) = unat x mod 4294967296"
  by (simp add: unsigned_ucast_eq take_bit_eq_mod)

lemma unat_and_mask [word_nat]:
  "unat ((x :: 'a::len word) AND mask k) = unat x mod 2 ^ k"
proof -
  have "unat (take_bit k x) = take_bit k (unat x)"
    by (rule unsigned_take_bit_eq)
  then show ?thesis
    by (simp only: take_bit_nat_def flip: take_bit_eq_mask)
qed

lemma and_not_mask_minus:
  "(x :: 'a::len word) AND NOT (mask k) = x - (x AND mask k)"
proof -
  have disj: "(x AND mask k) AND (x AND NOT (mask k)) = 0"
    by (rule bit_word_eqI) (auto simp: bit_simps)
  have "x = (x AND mask k) OR (x AND NOT (mask k))"
    by (rule bit_word_eqI) (auto simp: bit_simps)
  also have "\<dots> = (x AND mask k) + (x AND NOT (mask k))"
    using disj by (rule disjunctive_add_eq_or [symmetric])
  finally show ?thesis by (metis add_diff_cancel_left')
qed

lemma unat_and_not_mask [word_nat]:
  "unat ((x :: 'a::len word) AND NOT (mask k)) = unat x - unat x mod 2 ^ k"
proof -
  have "x AND mask k \<le> x"
    by (simp add: word_and_le2)
  then show ?thesis
    by (simp add: and_not_mask_minus unat_sub unat_and_mask)
qed

lemma unat_add_ucast [word_nat]:
  "unat ((ucast (a :: u32) :: u64) + ucast (b :: u32)) = unat a + unat b"
proof -
  have "unat (ucast a :: u64) + unat (ucast b :: u64) < 2 ^ LENGTH(64)"
    using unat_lt_32 [of a] unat_lt_32 [of b] by (simp add: unat_ucast_32_64)
  then show ?thesis by (subst (asm) unat_add_lem) (simp add: unat_ucast_32_64)
qed

lemma unat_add_ucast3 [word_nat]:
  "unat ((ucast (a :: u32) :: u64) + (ucast (b :: u32) + ucast (c :: u32))) = unat a + unat b + unat c"
proof -
  have "unat (ucast a :: u64) + unat ((ucast b :: u64) + ucast c) < 2 ^ LENGTH(64)"
    using unat_lt_32 [of a] unat_lt_32 [of b] unat_lt_32 [of c]
    by (simp add: unat_ucast_32_64 unat_add_ucast)
  then show ?thesis by (subst (asm) unat_add_lem) (simp add: unat_ucast_32_64 unat_add_ucast)
qed

text \<open>Rounding up to a multiple of \<open>2 ^ k\<close>, as every \<^verbatim>\<open>(x + m) & ~m\<close> of the source.\<close>

definition round_up :: "nat \<Rightarrow> nat \<Rightarrow> nat" where
  "round_up m n = (n + (m - 1)) div m * m"

lemma round_up_ge: "0 < m \<Longrightarrow> n \<le> round_up m n"
proof -
  assume m: "0 < m"
  have "n + (m - 1) = (n + (m - 1)) div m * m + (n + (m - 1)) mod m"
    by simp
  moreover have "(n + (m - 1)) mod m \<le> m - 1"
    using m mod_less_divisor [of m "n + (m - 1)"] by linarith
  ultimately show ?thesis
    unfolding round_up_def by linarith
qed

lemma round_up_lt: "0 < m \<Longrightarrow> round_up m n < n + m"
proof -
  assume m: "0 < m"
  have "round_up m n \<le> n + (m - 1)"
    unfolding round_up_def by (simp add: div_times_less_eq_dividend)
  with m show ?thesis by linarith
qed

lemma round_up_dvd [simp]: "m dvd round_up m n"
  by (simp add: round_up_def)

lemma round_up_mono: "n \<le> n' \<Longrightarrow> round_up m n \<le> round_up m n'"
  by (simp add: round_up_def div_le_mono)

lemma unat_align_up:
  fixes x :: "'a::len word"
  assumes "unat x + (2 ^ k - 1) < 2 ^ LENGTH('a)" and "k < LENGTH('a)"
  shows "unat ((x + mask k) AND NOT (mask k)) = round_up (2 ^ k) (unat x)"
proof -
  have mk: "unat (mask k :: 'a word) = 2 ^ k - 1"
    using assms(2) by (rule unat_mask)
  have "unat (x + mask k) = unat x + (2 ^ k - 1)"
    using assms(1) mk by (metis unat_add_lem)
  then show ?thesis
    by (simp add: unat_and_not_mask round_up_def minus_mod_eq_div_mult)
qed

section \<open>Computations that return\<close>

text \<open>\<open>returns m P\<close>: the computation \<open>m\<close> returns (it meets no undefined behaviour and does
  not wait for ever), and its result satisfies \<open>P\<close>. The rules follow the monad, so a proof
  follows the code.\<close>

definition returns :: "'a option \<Rightarrow> ('a \<Rightarrow> bool) \<Rightarrow> bool" where
  "returns m P \<longleftrightarrow> (\<exists>x. m = Some x \<and> P x)"

lemma returns_Some [simp]: "returns (Some x) P \<longleftrightarrow> P x"
  by (simp add: returns_def)

lemma returns_None [simp]: "\<not> returns None P"
  by (simp add: returns_def)

lemma returnsE: "returns m P \<Longrightarrow> (\<And>x. m = Some x \<Longrightarrow> P x \<Longrightarrow> Q) \<Longrightarrow> Q"
  by (auto simp: returns_def)

lemma returns_bind: "returns m P \<Longrightarrow> (\<And>x. P x \<Longrightarrow> returns (f x) Q) \<Longrightarrow> returns (m \<bind> f) Q"
  by (auto simp: returns_def)

lemma returns_mono: "returns m P \<Longrightarrow> (\<And>x. P x \<Longrightarrow> Q x) \<Longrightarrow> returns m Q"
  by (auto simp: returns_def)

lemma returns_if:
  "(c \<Longrightarrow> returns m P) \<Longrightarrow> (\<not> c \<Longrightarrow> returns m' P) \<Longrightarrow> returns (if c then m else m') P"
  by simp

section \<open>Byte buffers\<close>

text \<open>
  \<^verbatim>\<open>memcpy(dst + d, src + s, n)\<close>: undefined when a byte outside either buffer is touched.
\<close>

definition memcpy :: "bytes \<Rightarrow> nat \<Rightarrow> bytes \<Rightarrow> nat \<Rightarrow> nat \<Rightarrow> bytes option" where
  "memcpy dst d src s n =
     (if d + n \<le> length dst \<and> s + n \<le> length src
      then Some (take d dst @ take n (drop s src) @ drop (d + n) dst) else None)"

abbreviation bslice :: "'a list \<Rightarrow> nat \<Rightarrow> nat \<Rightarrow> 'a list" where
  "bslice xs off n \<equiv> take n (drop off xs)"

lemma memcpy_Some_iff:
  "(\<exists>b. memcpy dst d src s n = Some b) \<longleftrightarrow> d + n \<le> length dst \<and> s + n \<le> length src"
  by (simp add: memcpy_def)

lemma memcpy_length: "memcpy dst d src s n = Some b \<Longrightarrow> length b = length dst"
  by (auto simp: memcpy_def split: if_splits)

lemma memcpy_nth:
  assumes "memcpy dst d src s n = Some b" and "i < length dst"
  shows "b ! i = (if d \<le> i \<and> i < d + n then src ! (s + (i - d)) else dst ! i)"
proof -
  from assms(1) have b: "b = take d dst @ take n (drop s src) @ drop (d + n) dst"
    and bounds: "d + n \<le> length dst" "s + n \<le> length src"
    by (simp_all add: memcpy_def split: if_splits)
  from bounds have len: "length (take d dst) = d" "length (take n (drop s src)) = n"
    by simp_all
  consider "i < d" | "d \<le> i" "i - d < n" | "d + n \<le> i" by linarith
  then show ?thesis
  proof cases
    case 1
    with len show ?thesis by (simp only: b nth_append) simp
  next
    case 2
    with len bounds show ?thesis by (simp only: b nth_append) auto
  next
    case 3
    then have "\<not> i - d < n" by linarith
    with 3 len bounds assms(2) show ?thesis by (simp only: b nth_append) simp
  qed
qed

lemma memcpy_slice_same:
  assumes "memcpy dst d src s n = Some b"
  shows "bslice b d n = bslice src s n"
proof -
  from assms have "b = take d dst @ take n (drop s src) @ drop (d + n) dst"
    and "d + n \<le> length dst" "s + n \<le> length src"
    by (simp_all add: memcpy_def split: if_splits)
  then show ?thesis by simp
qed

lemma memcpy_slice_other:
  assumes "memcpy dst d src s n = Some b" and "o' + m \<le> d \<or> d + n \<le> o'"
  shows "bslice b o' m = bslice dst o' m"
proof (rule nth_equalityI)
  show "length (bslice b o' m) = length (bslice dst o' m)"
    using assms(1) by (simp add: memcpy_length [OF assms(1)])
next
  fix i assume i: "i < length (bslice b o' m)"
  have len: "length b = length dst" by (rule memcpy_length [OF assms(1)])
  from i len have bound: "o' + i < length dst" "i < m" by auto
  have "b ! (o' + i) = dst ! (o' + i)"
    using memcpy_nth [OF assms(1), of "o' + i"] assms(2) bound by auto
  with i len bound show "bslice b o' m ! i = bslice dst o' m ! i" by simp
qed

end
