(* ===== verification/RR_Layout.thy ===== *)
theory RR_Layout
  imports RR_Prelude "HOL-Library.Multiset"
begin

text \<open>
  The constants and structures of \<^verbatim>\<open>gen/reqrep.h\<close> (lines 35 to 167) and the layout the C ABI
  gives them.  Each structure appears twice: as a record, which the operations of the other
  theories read and write, and as a list of typed fields, from which \<^verbatim>\<open>offsetof\<close> and
  \<^verbatim>\<open>sizeof\<close> are computed.  The latter gives the output of \<^verbatim>\<open>gen/gen_layout.c\<close>, which is
  compared with the constants the Go side was generated from
  (\<^verbatim>\<open>reqrep_layout_gen.go\<close>): the two sides agree on every byte offset they share.

  Padding members (\<^verbatim>\<open>_pad0\<close>, \<^verbatim>\<open>_rpad\<close>, \dots) occupy space in the field lists and have no
  counterpart in the records, since no operation reads or writes them.
\<close>

section \<open>Constants\<close>

definition REQREP_MAGIC :: u32 where [reqrep_consts]: "REQREP_MAGIC = 0x52525331"
definition REQREP_VERSION :: u32 where [reqrep_consts]: "REQREP_VERSION = 1"
definition REQREP_SPIN_LIMIT :: nat where [reqrep_consts]: "REQREP_SPIN_LIMIT = 32"
definition REQREP_LOCK_TIMEOUT_SEC :: nat where [reqrep_consts]: "REQREP_LOCK_TIMEOUT_SEC = 2"
definition REQREP_UTF8_FLAG :: u32 where [reqrep_consts]: "REQREP_UTF8_FLAG = 0x80000000"
definition REQREP_STR_LEN_MASK :: u32 where [reqrep_consts]: "REQREP_STR_LEN_MASK = 0x7FFFFFFF"
definition RESP_FREE :: u32 where [reqrep_consts]: "RESP_FREE = 0"
definition RESP_ACQUIRED :: u32 where [reqrep_consts]: "RESP_ACQUIRED = 1"
definition RESP_READY :: u32 where [reqrep_consts]: "RESP_READY = 2"
definition REQREP_MODE_STR :: u32 where [reqrep_consts]: "REQREP_MODE_STR = 0"
definition REQREP_MODE_INT :: u32 where [reqrep_consts]: "REQREP_MODE_INT = 1"
definition REQREP_MUTEX_WRITER_BIT :: u32 where
  [reqrep_consts]: "REQREP_MUTEX_WRITER_BIT = 0x80000000"
definition REQREP_MUTEX_PID_MASK :: u32 where
  [reqrep_consts]: "REQREP_MUTEX_PID_MASK = 0x7FFFFFFF"

lemma resp_states_distinct [simp]:
  "RESP_FREE \<noteq> RESP_ACQUIRED" "RESP_FREE \<noteq> RESP_READY" "RESP_ACQUIRED \<noteq> RESP_READY"
  "RESP_ACQUIRED \<noteq> RESP_FREE" "RESP_READY \<noteq> RESP_FREE" "RESP_READY \<noteq> RESP_ACQUIRED"
  by (simp_all add: reqrep_consts)

section \<open>Structures as records\<close>

record ReqRepHeader =
  h_magic :: u32
  h_version :: u32
  h_mode :: u32
  h_req_cap :: u32
  h_total_size :: u64
  h_req_slots_off :: u32
  h_req_arena_off :: u32
  h_req_arena_cap :: u32
  h_resp_slots :: u32
  h_resp_data_max :: u32
  h_resp_off :: u32
  h_resp_stride :: u32
  h_req_head :: u64
  h_recv_waiters :: u32
  h_recv_futex :: u32
  h_req_tail :: u64
  h_send_waiters :: u32
  h_send_futex :: u32
  h_mutex :: u32
  h_mutex_waiters :: u32
  h_arena_wpos :: u32
  h_arena_used :: u32
  h_resp_hint :: u32
  h_stat_recoveries :: u32
  h_slot_futex :: u32
  h_slot_waiters :: u32
  h_stat_requests :: u64
  h_stat_replies :: u64
  h_stat_send_full :: u64
  h_stat_recv_empty :: u32

record ReqSlot =
  rq_arena_off :: u32
  rq_packed_len :: u32
  rq_arena_skip :: u32
  rq_resp_slot :: u32
  rq_resp_gen :: u32

record ReqIntSlot =
  ri_sequence :: u64
  ri_value :: u64
  ri_resp_slot :: u32
  ri_resp_gen :: u32

text \<open>
  A response slot is its 32-byte header followed by \<open>resp_stride - 32\<close> data bytes; the data
  bytes are the list \<open>rs_data\<close>.
\<close>

record RespSlot =
  rs_state :: u32
  rs_waiters :: u32
  rs_owner_pid :: u32
  rs_resp_len :: u32
  rs_resp_flags :: u32
  rs_generation :: u32
  rs_data :: bytes

text \<open>
  The process-local handle. The three pointers into the mapping are kept as byte offsets from
  its base; \<open>hn_copy_buf\<close> is the malloc'ed buffer, its length being \<open>hn_copy_buf_cap\<close>.
\<close>

record ReqRepHandle =
  hn_req_slots :: u64
  hn_req_arena :: u64
  hn_resp_area :: u64
  hn_mmap_size :: u64
  hn_req_cap :: u32
  hn_req_cap_mask :: u32
  hn_req_arena_cap :: u32
  hn_resp_slots :: u32
  hn_resp_data_max :: u32
  hn_resp_stride :: u32
  hn_copy_buf :: bytes
  hn_copy_buf_cap :: u32
  hn_path :: "string option"
  hn_notify_fd :: int
  hn_reply_fd :: int
  hn_backing_fd :: int

section \<open>Structure layout\<close>

datatype ctype = UInt8 | UInt32 | UInt64 | Int64 | CArray ctype nat

fun csize :: "ctype \<Rightarrow> nat" where
  "csize UInt8 = 1"
| "csize UInt32 = 4"
| "csize UInt64 = 8"
| "csize Int64 = 8"
| "csize (CArray t n) = n * csize t"

fun calign :: "ctype \<Rightarrow> nat" where
  "calign (CArray t n) = calign t"
| "calign t = csize t"

type_synonym cstruct = "(string \<times> ctype) list"

text \<open>Each member starts at the next multiple of its alignment; the size is rounded up to the
  strictest alignment of a member.\<close>

fun place :: "nat \<Rightarrow> cstruct \<Rightarrow> (string \<times> nat) list" where
  "place off [] = []"
| "place off ((f, t) # fs) =
     (f, round_up (calign t) off) # place (round_up (calign t) off + csize t) fs"

fun struct_end :: "nat \<Rightarrow> cstruct \<Rightarrow> nat" where
  "struct_end off [] = off"
| "struct_end off ((f, t) # fs) = struct_end (round_up (calign t) off + csize t) fs"

definition struct_align :: "cstruct \<Rightarrow> nat" where
  "struct_align st = foldr (\<lambda>(f, t) a. max (calign t) a) st 1"

definition offsetof :: "cstruct \<Rightarrow> string \<Rightarrow> nat option" where
  "offsetof st f = map_of (place 0 st) f"

definition sizeof :: "cstruct \<Rightarrow> nat" where
  "sizeof st = round_up (struct_align st) (struct_end 0 st)"

definition ReqRepHeader_struct :: cstruct where
  "ReqRepHeader_struct =
     [(''magic'', UInt32), (''version'', UInt32), (''mode'', UInt32), (''req_cap'', UInt32),
      (''total_size'', UInt64), (''req_slots_off'', UInt32), (''req_arena_off'', UInt32),
      (''req_arena_cap'', UInt32), (''resp_slots'', UInt32), (''resp_data_max'', UInt32),
      (''resp_off'', UInt32), (''resp_stride'', UInt32), (''_pad0'', CArray UInt8 12),
      (''req_head'', UInt64), (''recv_waiters'', UInt32), (''recv_futex'', UInt32),
      (''_pad1'', CArray UInt8 48),
      (''req_tail'', UInt64), (''send_waiters'', UInt32), (''send_futex'', UInt32),
      (''_pad2'', CArray UInt8 48),
      (''mutex'', UInt32), (''mutex_waiters'', UInt32), (''arena_wpos'', UInt32),
      (''arena_used'', UInt32), (''resp_hint'', UInt32), (''stat_recoveries'', UInt32),
      (''slot_futex'', UInt32), (''slot_waiters'', UInt32), (''stat_requests'', UInt64),
      (''stat_replies'', UInt64), (''stat_send_full'', UInt64), (''stat_recv_empty'', UInt32),
      (''_pad3'', UInt32)]"

definition ReqSlot_struct :: cstruct where
  "ReqSlot_struct =
     [(''arena_off'', UInt32), (''packed_len'', UInt32), (''arena_skip'', UInt32),
      (''resp_slot'', UInt32), (''resp_gen'', UInt32), (''_rpad'', UInt32)]"

definition ReqIntSlot_struct :: cstruct where
  "ReqIntSlot_struct =
     [(''sequence'', UInt64), (''value'', Int64), (''resp_slot'', UInt32),
      (''resp_gen'', UInt32)]"

definition RespSlotHeader_struct :: cstruct where
  "RespSlotHeader_struct =
     [(''state'', UInt32), (''waiters'', UInt32), (''owner_pid'', UInt32),
      (''resp_len'', UInt32), (''resp_flags'', UInt32), (''generation'', UInt32),
      (''_rpad'', CArray UInt32 2)]"

section \<open>The layout generator and the generated Go constants\<close>

text \<open>
  The lines \<^verbatim>\<open>main\<close> of \<^verbatim>\<open>gen_layout.c\<close> prints, as name and number; \<^term>\<open>None\<close> would be an
  \<^verbatim>\<open>offsetof\<close> of a member that does not exist, which does not compile.
\<close>

definition gen_layout :: "(string \<times> nat option) list" where
  "gen_layout =
    [(''Magic'', Some (unat REQREP_MAGIC)),
     (''Version'', Some (unat REQREP_VERSION)),
     (''ModeStr'', Some (unat REQREP_MODE_STR)),
     (''ModeInt'', Some (unat REQREP_MODE_INT)),
     (''RespFree'', Some (unat RESP_FREE)),
     (''RespAcquired'', Some (unat RESP_ACQUIRED)),
     (''RespReady'', Some (unat RESP_READY)),
     (''Utf8Flag'', Some (unat REQREP_UTF8_FLAG)),
     (''StrLenMask'', Some (unat REQREP_STR_LEN_MASK)),
     (''MutexWriterBit'', Some (unat REQREP_MUTEX_WRITER_BIT)),
     (''MutexPidMask'', Some (unat REQREP_MUTEX_PID_MASK)),
     (''SpinLimit'', Some REQREP_SPIN_LIMIT),
     (''LockTimeoutSec'', Some REQREP_LOCK_TIMEOUT_SEC),
     (''SizeofHeader'', Some (sizeof ReqRepHeader_struct)),
     (''SizeofReqSlot'', Some (sizeof ReqSlot_struct)),
     (''SizeofRespSlot'', Some (sizeof RespSlotHeader_struct)),
     (''HdrMagic'', offsetof ReqRepHeader_struct ''magic''),
     (''HdrVersion'', offsetof ReqRepHeader_struct ''version''),
     (''HdrMode'', offsetof ReqRepHeader_struct ''mode''),
     (''HdrReqCap'', offsetof ReqRepHeader_struct ''req_cap''),
     (''HdrTotalSize'', offsetof ReqRepHeader_struct ''total_size''),
     (''HdrReqSlotsOff'', offsetof ReqRepHeader_struct ''req_slots_off''),
     (''HdrReqArenaOff'', offsetof ReqRepHeader_struct ''req_arena_off''),
     (''HdrReqArenaCap'', offsetof ReqRepHeader_struct ''req_arena_cap''),
     (''HdrRespSlots'', offsetof ReqRepHeader_struct ''resp_slots''),
     (''HdrRespDataMax'', offsetof ReqRepHeader_struct ''resp_data_max''),
     (''HdrRespOff'', offsetof ReqRepHeader_struct ''resp_off''),
     (''HdrRespStride'', offsetof ReqRepHeader_struct ''resp_stride''),
     (''HdrReqHead'', offsetof ReqRepHeader_struct ''req_head''),
     (''HdrRecvWaiters'', offsetof ReqRepHeader_struct ''recv_waiters''),
     (''HdrRecvFutex'', offsetof ReqRepHeader_struct ''recv_futex''),
     (''HdrReqTail'', offsetof ReqRepHeader_struct ''req_tail''),
     (''HdrSendWaiters'', offsetof ReqRepHeader_struct ''send_waiters''),
     (''HdrSendFutex'', offsetof ReqRepHeader_struct ''send_futex''),
     (''HdrMutex'', offsetof ReqRepHeader_struct ''mutex''),
     (''HdrMutexWaiters'', offsetof ReqRepHeader_struct ''mutex_waiters''),
     (''HdrArenaWpos'', offsetof ReqRepHeader_struct ''arena_wpos''),
     (''HdrArenaUsed'', offsetof ReqRepHeader_struct ''arena_used''),
     (''HdrRespHint'', offsetof ReqRepHeader_struct ''resp_hint''),
     (''HdrStatRecoveries'', offsetof ReqRepHeader_struct ''stat_recoveries''),
     (''HdrSlotFutex'', offsetof ReqRepHeader_struct ''slot_futex''),
     (''HdrSlotWaiters'', offsetof ReqRepHeader_struct ''slot_waiters''),
     (''HdrStatRequests'', offsetof ReqRepHeader_struct ''stat_requests''),
     (''HdrStatReplies'', offsetof ReqRepHeader_struct ''stat_replies''),
     (''HdrStatSendFull'', offsetof ReqRepHeader_struct ''stat_send_full''),
     (''HdrStatRecvEmpty'', offsetof ReqRepHeader_struct ''stat_recv_empty''),
     (''ReqArenaOff'', offsetof ReqSlot_struct ''arena_off''),
     (''ReqPackedLen'', offsetof ReqSlot_struct ''packed_len''),
     (''ReqArenaSkip'', offsetof ReqSlot_struct ''arena_skip''),
     (''ReqRespSlot'', offsetof ReqSlot_struct ''resp_slot''),
     (''ReqRespGen'', offsetof ReqSlot_struct ''resp_gen''),
     (''RespState'', offsetof RespSlotHeader_struct ''state''),
     (''RespWaiters'', offsetof RespSlotHeader_struct ''waiters''),
     (''RespOwnerPid'', offsetof RespSlotHeader_struct ''owner_pid''),
     (''RespLen'', offsetof RespSlotHeader_struct ''resp_len''),
     (''RespFlags'', offsetof RespSlotHeader_struct ''resp_flags''),
     (''RespGeneration'', offsetof RespSlotHeader_struct ''generation''),
     (''RespDataStart'', Some (sizeof RespSlotHeader_struct))]"

text \<open>The constants of \<^verbatim>\<open>reqrep_layout_gen.go\<close>, in the file's (alphabetical) order.\<close>

definition go_layout :: "(string \<times> nat) list" where
  "go_layout =
    [(''layoutHdrArenaUsed'', 204),
     (''layoutHdrArenaWpos'', 200),
     (''layoutHdrMagic'', 0),
     (''layoutHdrMode'', 8),
     (''layoutHdrMutex'', 192),
     (''layoutHdrMutexWaiters'', 196),
     (''layoutHdrRecvFutex'', 76),
     (''layoutHdrRecvWaiters'', 72),
     (''layoutHdrReqArenaCap'', 32),
     (''layoutHdrReqArenaOff'', 28),
     (''layoutHdrReqCap'', 12),
     (''layoutHdrReqHead'', 64),
     (''layoutHdrReqSlotsOff'', 24),
     (''layoutHdrReqTail'', 128),
     (''layoutHdrRespDataMax'', 40),
     (''layoutHdrRespHint'', 208),
     (''layoutHdrRespOff'', 44),
     (''layoutHdrRespSlots'', 36),
     (''layoutHdrRespStride'', 48),
     (''layoutHdrSendFutex'', 140),
     (''layoutHdrSendWaiters'', 136),
     (''layoutHdrSlotFutex'', 216),
     (''layoutHdrSlotWaiters'', 220),
     (''layoutHdrStatRecoveries'', 212),
     (''layoutHdrStatRecvEmpty'', 248),
     (''layoutHdrStatReplies'', 232),
     (''layoutHdrStatRequests'', 224),
     (''layoutHdrStatSendFull'', 240),
     (''layoutHdrTotalSize'', 16),
     (''layoutHdrVersion'', 4),
     (''layoutLockTimeoutSec'', 2),
     (''layoutMagic'', 0x52525331),
     (''layoutModeInt'', 1),
     (''layoutModeStr'', 0),
     (''layoutMutexPidMask'', 0x7FFFFFFF),
     (''layoutMutexWriterBit'', 0x80000000),
     (''layoutReqArenaOff'', 0),
     (''layoutReqArenaSkip'', 8),
     (''layoutReqPackedLen'', 4),
     (''layoutReqRespGen'', 16),
     (''layoutReqRespSlot'', 12),
     (''layoutRespAcquired'', 1),
     (''layoutRespDataStart'', 32),
     (''layoutRespFlags'', 16),
     (''layoutRespFree'', 0),
     (''layoutRespGeneration'', 20),
     (''layoutRespLen'', 12),
     (''layoutRespOwnerPid'', 8),
     (''layoutRespReady'', 2),
     (''layoutRespState'', 0),
     (''layoutRespWaiters'', 4),
     (''layoutSizeofHeader'', 256),
     (''layoutSizeofReqSlot'', 24),
     (''layoutSizeofRespSlot'', 32),
     (''layoutSpinLimit'', 32),
     (''layoutStrLenMask'', 0x7FFFFFFF),
     (''layoutUtf8Flag'', 0x80000000),
     (''layoutVersion'', 1)]"

section \<open>Evaluation\<close>

lemmas struct_eval = round_up_def
  ReqRepHeader_struct_def ReqSlot_struct_def ReqIntSlot_struct_def RespSlotHeader_struct_def

lemma sizeof_structs:
  "sizeof ReqRepHeader_struct = 256" "sizeof ReqSlot_struct = 24"
  "sizeof ReqIntSlot_struct = 24" "sizeof RespSlotHeader_struct = 32"
  by (simp_all add: sizeof_def struct_align_def struct_eval)

text \<open>The offsets written as comments in \<^verbatim>\<open>reqrep.h\<close>, as the ABI computes them.\<close>

lemma place_structs:
  "place 0 ReqRepHeader_struct =
     [(''magic'', 0), (''version'', 4), (''mode'', 8), (''req_cap'', 12),
      (''total_size'', 16), (''req_slots_off'', 24), (''req_arena_off'', 28),
      (''req_arena_cap'', 32), (''resp_slots'', 36), (''resp_data_max'', 40),
      (''resp_off'', 44), (''resp_stride'', 48), (''_pad0'', 52), (''req_head'', 64),
      (''recv_waiters'', 72), (''recv_futex'', 76), (''_pad1'', 80),
      (''req_tail'', 128), (''send_waiters'', 136), (''send_futex'', 140),
      (''_pad2'', 144), (''mutex'', 192), (''mutex_waiters'', 196),
      (''arena_wpos'', 200), (''arena_used'', 204), (''resp_hint'', 208),
      (''stat_recoveries'', 212), (''slot_futex'', 216), (''slot_waiters'', 220),
      (''stat_requests'', 224), (''stat_replies'', 232), (''stat_send_full'', 240),
      (''stat_recv_empty'', 248), (''_pad3'', 252)]"
  "place 0 ReqSlot_struct =
     [(''arena_off'', 0), (''packed_len'', 4), (''arena_skip'', 8),
      (''resp_slot'', 12), (''resp_gen'', 16), (''_rpad'', 20)]"
  "place 0 ReqIntSlot_struct = [(''sequence'', 0), (''value'', 8), (''resp_slot'', 16), (''resp_gen'', 20)]"
  "place 0 RespSlotHeader_struct =
     [(''state'', 0), (''waiters'', 4), (''owner_pid'', 8), (''resp_len'', 12),
      (''resp_flags'', 16), (''generation'', 20), (''_rpad'', 24)]"
  by (simp_all add: struct_eval)

lemma gen_layout_values:
  "gen_layout =
     [(''Magic'', Some 1381126961), (''Version'', Some 1), (''ModeStr'', Some 0),
      (''ModeInt'', Some 1), (''RespFree'', Some 0), (''RespAcquired'', Some 1),
      (''RespReady'', Some 2), (''Utf8Flag'', Some 2147483648),
      (''StrLenMask'', Some 2147483647), (''MutexWriterBit'', Some 2147483648),
      (''MutexPidMask'', Some 2147483647), (''SpinLimit'', Some 32),
      (''LockTimeoutSec'', Some 2), (''SizeofHeader'', Some 256),
      (''SizeofReqSlot'', Some 24), (''SizeofRespSlot'', Some 32), (''HdrMagic'', Some 0),
      (''HdrVersion'', Some 4), (''HdrMode'', Some 8), (''HdrReqCap'', Some 12),
      (''HdrTotalSize'', Some 16), (''HdrReqSlotsOff'', Some 24),
      (''HdrReqArenaOff'', Some 28), (''HdrReqArenaCap'', Some 32),
      (''HdrRespSlots'', Some 36), (''HdrRespDataMax'', Some 40),
      (''HdrRespOff'', Some 44), (''HdrRespStride'', Some 48), (''HdrReqHead'', Some 64),
      (''HdrRecvWaiters'', Some 72), (''HdrRecvFutex'', Some 76),
      (''HdrReqTail'', Some 128), (''HdrSendWaiters'', Some 136),
      (''HdrSendFutex'', Some 140), (''HdrMutex'', Some 192),
      (''HdrMutexWaiters'', Some 196), (''HdrArenaWpos'', Some 200),
      (''HdrArenaUsed'', Some 204), (''HdrRespHint'', Some 208),
      (''HdrStatRecoveries'', Some 212), (''HdrSlotFutex'', Some 216),
      (''HdrSlotWaiters'', Some 220), (''HdrStatRequests'', Some 224),
      (''HdrStatReplies'', Some 232), (''HdrStatSendFull'', Some 240),
      (''HdrStatRecvEmpty'', Some 248), (''ReqArenaOff'', Some 0),
      (''ReqPackedLen'', Some 4), (''ReqArenaSkip'', Some 8), (''ReqRespSlot'', Some 12),
      (''ReqRespGen'', Some 16), (''RespState'', Some 0), (''RespWaiters'', Some 4),
      (''RespOwnerPid'', Some 8), (''RespLen'', Some 12), (''RespFlags'', Some 16),
      (''RespGeneration'', Some 20), (''RespDataStart'', Some 32)]"
  by (simp add: gen_layout_def offsetof_def place_structs sizeof_structs reqrep_consts)

section \<open>Properties\<close>

text \<open>
  The constants compiled into the Go side are exactly the lines the layout
  generator prints for the structures of \<^verbatim>\<open>reqrep.h\<close> under the C ABI: same names, same
  values, none missing and none extra.
\<close>

theorem go_layout_matches_c:
  "mset (map (\<lambda>(k, v). (''layout'' @ k, v)) gen_layout) =
   mset (map (\<lambda>(k, v). (k, Some v)) go_layout)"
  unfolding gen_layout_values go_layout_def
  by (simp only: list.map prod.case append.simps mset.simps add_mset_commute)

text \<open>
  Members never overlap: in any structure, a member listed before another ends at or before the
  offset of the other, and every member is aligned.
\<close>

lemma place_lower: "(f, a) \<in> set (place off st) \<Longrightarrow> (\<forall>(g, t) \<in> set st. 0 < calign t) \<Longrightarrow> off \<le> a"
proof (induction st arbitrary: off)
  case (Cons x st)
  obtain g t where x: "x = (g, t)" by force
  with Cons.prems have al: "0 < calign t" by simp
  show ?case
  proof (cases "(f, a) = (g, round_up (calign t) off)")
    case True
    with round_up_ge [OF al] show ?thesis by simp
  next
    case False
    with Cons.prems x have "round_up (calign t) off + csize t \<le> a"
      by (intro Cons.IH) auto
    with round_up_ge [OF al, of off] show ?thesis by linarith
  qed
qed simp

lemma calign_pos [simp]: "0 < calign t"
  by (induction t) auto

text \<open>
  In any structure laid out by the ABI rule, the members occupy disjoint byte
  ranges in declaration order: a member placed before another ends at or before the start of
  the other.
\<close>

theorem place_disjoint:
  "i < j \<Longrightarrow> j < length st \<Longrightarrow>
     snd (place off st ! i) + csize (snd (st ! i)) \<le> snd (place off st ! j)"
proof (induction st arbitrary: i j off)
  case (Cons x st)
  obtain g t where x: "x = (g, t)" by force
  let ?off = "round_up (calign t) off + csize t"
  have len: "length (place o' st') = length st'" for o' st'
    by (induction o' st' rule: place.induct) auto
  obtain j' where j: "j = Suc j'" using Cons.prems(1) by (cases j) auto
  show ?case
  proof (cases i)
    case 0
    have "place ?off st ! j' \<in> set (place ?off st)"
      using Cons.prems(2) j by (simp add: len)
    then have "?off \<le> snd (place ?off st ! j')"
      using place_lower [of "fst (place ?off st ! j')" "snd (place ?off st ! j')"] by auto
    with 0 j x show ?thesis by simp
  next
    case (Suc i')
    with Cons j x show ?thesis by simp
  qed
qed simp

text \<open>The rule applied at a concrete structure.\<close>

theorem place_disjoint_witness:
  "snd (place 0 RespSlotHeader_struct ! 0) + csize (snd (RespSlotHeader_struct ! 0))
     \<le> snd (place 0 RespSlotHeader_struct ! 5)"
  by (rule place_disjoint) (simp_all add: RespSlotHeader_struct_def)

text \<open>
  The contended fields sit in separate cache lines, as the comments of the header
  say: what servers write (\<^verbatim>\<open>req_head\<close>) in line 1, what clients write (\<^verbatim>\<open>req_tail\<close>) in line
  2, the mutex and the arena state in line 3, and the header is exactly four lines long.
\<close>

theorem header_cache_lines:
  "map_option (\<lambda>o'. o' div 64) (offsetof ReqRepHeader_struct ''req_head'') = Some 1 \<and>
   map_option (\<lambda>o'. o' div 64) (offsetof ReqRepHeader_struct ''recv_futex'') = Some 1 \<and>
   map_option (\<lambda>o'. o' div 64) (offsetof ReqRepHeader_struct ''req_tail'') = Some 2 \<and>
   map_option (\<lambda>o'. o' div 64) (offsetof ReqRepHeader_struct ''send_futex'') = Some 2 \<and>
   map_option (\<lambda>o'. o' div 64) (offsetof ReqRepHeader_struct ''mutex'') = Some 3 \<and>
   map_option (\<lambda>o'. o' div 64) (offsetof ReqRepHeader_struct ''arena_used'') = Some 3 \<and>
   sizeof ReqRepHeader_struct = 4 * 64"
  by (simp add: offsetof_def place_structs sizeof_structs)

end
