(* ===== verification/RR_Util.thy ===== *)
theory RR_Util
  imports RR_Layout Complex_Main
begin

text \<open>
  The pure helpers of \<^verbatim>\<open>gen/reqrep.h\<close>: request identifiers (lines 54 to 56), the
  power-of-two rounding (173), the mutex word (210 to 212) and the deadline arithmetic (290 to
  311), with the facts the other theories use of them.
\<close>

section \<open>Request identifiers\<close>

definition REQREP_MAKE_ID :: "u32 \<Rightarrow> u32 \<Rightarrow> u64" where
  "REQREP_MAKE_ID slot gen = push_bit 32 (ucast gen) OR ucast slot"

definition REQREP_ID_SLOT :: "u64 \<Rightarrow> u32" where
  "REQREP_ID_SLOT id' = ucast (id' AND 0xFFFFFFFF)"

definition REQREP_ID_GEN :: "u64 \<Rightarrow> u32" where
  "REQREP_ID_GEN id' = ucast (drop_bit 32 id')"

lemma mask_32: "(0xFFFFFFFF :: u64) = mask 32"
  by (simp add: mask_eq_exp_minus_1)

lemma id_slot_make [simp]: "REQREP_ID_SLOT (REQREP_MAKE_ID slot gen) = slot"
  unfolding REQREP_ID_SLOT_def REQREP_MAKE_ID_def mask_32
  by (rule bit_word_eqI) (auto simp: bit_simps)

lemma id_gen_make [simp]: "REQREP_ID_GEN (REQREP_MAKE_ID slot gen) = gen"
  unfolding REQREP_ID_GEN_def REQREP_MAKE_ID_def
  by (rule bit_word_eqI) (auto simp: bit_simps dest: bit_imp_le_length)

lemma make_id_parts: "REQREP_MAKE_ID (REQREP_ID_SLOT id') (REQREP_ID_GEN id') = id'"
  unfolding REQREP_ID_SLOT_def REQREP_ID_GEN_def REQREP_MAKE_ID_def mask_32
  by (rule bit_word_eqI) (auto simp: bit_simps)

text \<open>
  A request identifier is a faithful pair of slot index and generation: packing
  then unpacking gives both back, unpacking then packing gives the identifier back, so two
  identifiers are equal exactly when slot and generation are.
\<close>

theorem request_id_roundtrip:
  "REQREP_ID_SLOT (REQREP_MAKE_ID slot gen) = slot \<and>
   REQREP_ID_GEN (REQREP_MAKE_ID slot gen) = gen \<and>
   REQREP_MAKE_ID (REQREP_ID_SLOT id') (REQREP_ID_GEN id') = id' \<and>
   (REQREP_MAKE_ID slot gen = REQREP_MAKE_ID slot' gen' \<longleftrightarrow> slot = slot' \<and> gen = gen')"
  by (metis id_slot_make id_gen_make make_id_parts)

section \<open>Rounding to a power of two\<close>

definition reqrep_next_pow2 :: "u32 \<Rightarrow> u32" where
  "reqrep_next_pow2 v =
     (if v < 2 then 2
      else if v > 0x80000000 then 0
      else let v = v - 1;
               v = v OR drop_bit 1 v;
               v = v OR drop_bit 2 v;
               v = v OR drop_bit 4 v;
               v = v OR drop_bit 8 v;
               v = v OR drop_bit 16 v
           in v + 1)"

text \<open>One smearing step doubles the number of positions each bit has been copied down.\<close>

definition smeared :: "nat \<Rightarrow> 'a::len word \<Rightarrow> 'a word \<Rightarrow> bool" where
  "smeared m v w \<longleftrightarrow> (\<forall>i. bit w i \<longleftrightarrow> (\<exists>d<m. bit v (i + d)))"

lemma smeared_start: "smeared 1 v v"
  by (simp add: smeared_def)

lemma smeared_double:
  assumes "smeared m v w"
  shows "smeared (2 * m) v (w OR drop_bit m w)"
  unfolding smeared_def
proof
  fix i
  have "bit (w OR drop_bit m w) i \<longleftrightarrow> (\<exists>d<m. bit v (i + d)) \<or> (\<exists>d<m. bit v (m + i + d))"
    using assms by (simp add: smeared_def bit_or_iff bit_drop_bit_eq)
  also have "\<dots> \<longleftrightarrow> (\<exists>d<2 * m. bit v (i + d))" (is "?l \<longleftrightarrow> ?r")
  proof
    assume ?l
    then show ?r
    proof (elim disjE)
      assume "\<exists>d<m. bit v (m + i + d)"
      then obtain d where "d < m" "bit v (i + (m + d))" by (auto simp: ac_simps)
      then show ?r by (intro exI [of _ "m + d"]) auto
    next
      assume "\<exists>d<m. bit v (i + d)"
      then obtain d where "d < m" "bit v (i + d)" by blast
      then show ?r by (intro exI [of _ d]) auto
    qed
  next
    assume ?r
    then obtain d where d: "d < 2 * m" "bit v (i + d)" by blast
    show ?l
    proof (cases "d < m")
      case False
      then have "bit v (m + i + (d - m))" "d - m < m" using d by (auto simp: ac_simps)
      then show ?thesis by blast
    qed (use d in blast)
  qed
  finally show "bit (w OR drop_bit m w) i \<longleftrightarrow> (\<exists>d<2 * m. bit v (i + d))" .
qed

text \<open>A word whose highest set bit is \<open>k\<close>, smeared over the whole width, is \<open>2 ^ (k+1) - 1\<close>.\<close>

lemma smeared_full:
  assumes "smeared LENGTH('a) v (w :: 'a::len word)"
    and "bit v k" and top: "\<And>j. bit v j \<Longrightarrow> j \<le> k"
  shows "w = mask (Suc k)"
proof (rule bit_word_eqI)
  fix i assume i: "i < LENGTH('a)"
  have k: "k < LENGTH('a)" using assms(2) by (rule bit_imp_le_length)
  have "bit w i \<longleftrightarrow> (\<exists>d<LENGTH('a). bit v (i + d))"
    using assms(1) by (simp add: smeared_def)
  also have "\<dots> \<longleftrightarrow> i \<le> k"
  proof
    assume "\<exists>d<LENGTH('a). bit v (i + d)"
    then obtain d where "bit v (i + d)" by blast
    from top [OF this] show "i \<le> k" by simp
  next
    assume "i \<le> k"
    then show "\<exists>d<LENGTH('a). bit v (i + d)"
      using assms(2) k by (intro exI [of _ "k - i"]) auto
  qed
  finally show "bit w i \<longleftrightarrow> bit (mask (Suc k) :: 'a word) i"
    using i by (auto simp: bit_mask_iff)
qed

lemma top_bit:
  assumes "(v :: 'a::len word) \<noteq> 0"
  obtains k where "k < LENGTH('a)" "bit v k" "\<And>j. bit v j \<Longrightarrow> j \<le> k"
    "2 ^ k \<le> unat v" "unat v < 2 ^ Suc k"
proof -
  have ex: "\<exists>k. bit v k"
    using assms by (auto simp: bit_eq_iff)
  have bound: "\<And>j. bit v j \<Longrightarrow> j < LENGTH('a)"
    by (rule bit_imp_le_length)
  define k where "k = Max {j. bit v j}"
  have fin: "finite {j. bit v j}"
    by (rule finite_subset [of _ "{..<LENGTH('a)}"]) (auto dest: bound)
  have k: "bit v k" unfolding k_def using Max_in [OF fin] ex by auto
  have top: "\<And>j. bit v j \<Longrightarrow> j \<le> k" unfolding k_def using fin by simp
  have lo: "2 ^ k \<le> unat v"
  proof (rule ccontr)
    assume "\<not> 2 ^ k \<le> unat v"
    then have "\<not> bit (unat v) k" by (simp add: bit_iff_odd)
    with k show False by (simp add: bit_unsigned_iff)
  qed
  have "take_bit (Suc k) v = v"
  proof (rule bit_word_eqI)
    fix n show "bit (take_bit (Suc k) v) n \<longleftrightarrow> bit v n"
      using top [of n] by (auto simp: bit_take_bit_iff)
  qed
  then have "unat v = take_bit (Suc k) (unat v)"
    by (metis unsigned_take_bit_eq)
  also have "\<dots> < 2 ^ Suc k" by (rule take_bit_nat_less_exp)
  finally show ?thesis using that [OF bound [OF k] k top lo] by simp
qed

lemma next_pow2_big: "0x80000000 < v \<Longrightarrow> reqrep_next_pow2 v = 0"
  by (auto simp: reqrep_next_pow2_def Let_def word_less_nat_alt)

lemma next_pow2_mid:
  assumes "2 \<le> v" "v \<le> 0x80000000"
  obtains k where "1 \<le> k" "k \<le> 31" "unat (reqrep_next_pow2 v) = 2 ^ k"
    "unat v \<le> 2 ^ k" "2 ^ (k - 1) < unat v"
proof -
  let ?v = "v - 1"
  let ?a = "?v OR drop_bit 1 ?v"
  let ?b = "?a OR drop_bit 2 ?a"
  let ?c = "?b OR drop_bit 4 ?b"
  let ?d = "?c OR drop_bit 8 ?c"
  let ?e = "?d OR drop_bit 16 ?d"
  have unat_v: "unat ?v = unat v - 1"
    using assms(1) by (intro unat_minus_one) auto
  then have "?v \<noteq> 0" using assms(1) by (auto simp: word_le_nat_alt)
  then obtain k where k: "k < 32" "bit ?v k" "\<And>j. bit ?v j \<Longrightarrow> j \<le> k"
    "2 ^ k \<le> unat ?v" "unat ?v < 2 ^ Suc k"
    using top_bit [of ?v] by auto
  have "smeared 32 ?v ?e"
    using smeared_double [OF smeared_double [OF smeared_double [OF smeared_double
          [OF smeared_double [OF smeared_start [of ?v]]]]]] by simp
  then have e: "?e = mask (Suc k)"
    using k(2,3) by (intro smeared_full) simp_all
  have vb: "2 \<le> unat v" "unat v \<le> 2147483648"
    using assms by (simp_all add: word_le_nat_alt)
  have k30: "k \<le> 30"
  proof (rule ccontr)
    assume "\<not> k \<le> 30"
    then have "(2::nat) ^ 31 \<le> 2 ^ k" by (intro power_increasing) auto
    with k(4) unat_v vb show False by simp
  qed
  have eq: "reqrep_next_pow2 v = ?e + 1"
  proof -
    have "\<not> v < 2" "\<not> v > 0x80000000" using assms by (simp_all only: not_less)
    then show ?thesis by (simp only: reqrep_next_pow2_def Let_def if_False)
  qed
  have "unat ?e = 2 ^ Suc k - 1" unfolding e using k30 by (intro unat_mask) simp
  moreover have "(2::nat) ^ Suc k \<le> 2 ^ 31" using k30 by (intro power_increasing) auto
  ultimately have "unat (?e + 1) = 2 ^ Suc k"
    by (subst unat_add_lem [THEN iffD1]) auto
  then show ?thesis
    using that [of "Suc k"] k30 k(4,5) unat_v vb by (auto simp: eq)
qed

text \<open>
  \<^verbatim>\<open>reqrep_next_pow2\<close> returns the least power of two that is at least 2 and at
  least its argument, for every argument up to \<open>2 ^ 31\<close>, and 0 (the error value its callers
  test) for every larger one.
\<close>

theorem next_pow2_least:
  "(0x80000000 < v \<longrightarrow> reqrep_next_pow2 v = 0) \<and>
   (v \<le> 0x80000000 \<longrightarrow>
      (\<exists>k. 1 \<le> k \<and> k \<le> 31 \<and> unat (reqrep_next_pow2 v) = 2 ^ k \<and> unat v \<le> 2 ^ k \<and>
           (\<forall>j\<ge>1. unat v \<le> 2 ^ j \<longrightarrow> k \<le> j)))"
proof (intro conjI impI)
  assume "0x80000000 < v"
  then show "reqrep_next_pow2 v = 0" by (rule next_pow2_big)
next
  assume le: "v \<le> 0x80000000"
  show "\<exists>k. 1 \<le> k \<and> k \<le> 31 \<and> unat (reqrep_next_pow2 v) = 2 ^ k \<and> unat v \<le> 2 ^ k \<and>
          (\<forall>j\<ge>1. unat v \<le> 2 ^ j \<longrightarrow> k \<le> j)"
  proof (cases "2 \<le> v")
    case True
    from next_pow2_mid [OF this le] obtain k where k: "1 \<le> k" "k \<le> 31"
      "unat (reqrep_next_pow2 v) = 2 ^ k" "unat v \<le> 2 ^ k" "2 ^ (k - 1) < unat v" .
    have "k \<le> j" if "unat v \<le> 2 ^ j" for j
    proof -
      from k(5) that have "(2::nat) ^ (k - 1) < 2 ^ j" by linarith
      then have "k - 1 < j" by simp
      with k(1) show ?thesis by linarith
    qed
    with k show ?thesis by blast
  next
    case False
    then have "reqrep_next_pow2 v = 2" and "unat v < 2"
      by (simp_all add: reqrep_next_pow2_def not_le word_less_nat_alt)
    then show ?thesis by (intro exI [of _ 1]) auto
  qed
qed

theorem next_pow2_least_witness:
  "reqrep_next_pow2 0x80000001 = 0 \<and>
   (\<exists>k. 1 \<le> k \<and> k \<le> 31 \<and> unat (reqrep_next_pow2 100) = 2 ^ k \<and> unat (100 :: u32) \<le> 2 ^ k)"
  using next_pow2_least [of "0x80000001"] next_pow2_least [of 100] by auto

lemma next_pow2_small: "v < 2 \<Longrightarrow> reqrep_next_pow2 v = 2"
  by (simp add: reqrep_next_pow2_def)

lemma next_pow2_pow2:
  assumes "reqrep_next_pow2 v = c" "c \<noteq> 0"
  obtains k where "1 \<le> k" "k \<le> 31" "unat c = 2 ^ k"
proof (cases "2 \<le> v")
  case True
  have "v \<le> 0x80000000" using assms next_pow2_big [of v] by (metis not_less)
  from next_pow2_mid [OF True this] that assms(1) show ?thesis by metis
next
  case False
  then have "c = 2" using assms(1) next_pow2_small [of v] by (simp add: not_le)
  then show ?thesis using that [of 1] by simp
qed

section \<open>The mutex word\<close>

definition REQREP_MUTEX_VAL :: "u32 \<Rightarrow> u32" where
  "REQREP_MUTEX_VAL pid = REQREP_MUTEX_WRITER_BIT OR (pid AND REQREP_MUTEX_PID_MASK)"

lemma pid_mask: "REQREP_MUTEX_PID_MASK = mask 31"
  by (simp add: reqrep_consts mask_eq_exp_minus_1)

lemma bit_writer: "bit REQREP_MUTEX_WRITER_BIT n \<longleftrightarrow> n = 31"
proof -
  have eq: "REQREP_MUTEX_WRITER_BIT = 2 ^ 31" by (simp add: reqrep_consts)
  have "bit (2 ^ 31 :: u32) n \<longleftrightarrow> n = 31" by (subst bit_exp_iff) auto
  then show ?thesis by (simp only: eq)
qed

lemma bit_mutex_val: "bit (REQREP_MUTEX_VAL pid) n \<longleftrightarrow> n = 31 \<or> n < 31 \<and> bit pid n"
  by (auto simp: REQREP_MUTEX_VAL_def pid_mask bit_writer bit_simps)

lemma mutex_val_pid: "REQREP_MUTEX_VAL pid AND REQREP_MUTEX_PID_MASK = pid AND REQREP_MUTEX_PID_MASK"
  by (rule bit_word_eqI) (auto simp: bit_mutex_val pid_mask bit_simps)

lemma mutex_val_ge: "REQREP_MUTEX_WRITER_BIT \<le> REQREP_MUTEX_VAL pid"
proof -
  have "REQREP_MUTEX_VAL pid = REQREP_MUTEX_WRITER_BIT + (pid AND REQREP_MUTEX_PID_MASK)"
    unfolding REQREP_MUTEX_VAL_def
    by (rule disjunctive_add_eq_or [symmetric], rule bit_word_eqI)
      (auto simp: pid_mask bit_writer bit_simps)
  moreover have "unat (pid AND REQREP_MUTEX_PID_MASK) < 2 ^ 31"
    by (simp add: pid_mask unat_and_mask)
  ultimately show ?thesis
    by (simp add: word_le_nat_alt reqrep_consts unat_word_ariths)
qed

lemma mutex_val_nonzero [simp]: "REQREP_MUTEX_VAL pid \<noteq> 0" "0 \<noteq> REQREP_MUTEX_VAL pid"
  using bit_mutex_val [of pid 31] by auto

lemma pid_masked_id: "pid < REQREP_MUTEX_WRITER_BIT \<Longrightarrow> pid AND REQREP_MUTEX_PID_MASK = pid"
proof -
  assume "pid < REQREP_MUTEX_WRITER_BIT"
  then have "unat pid < 2 ^ 31" by (simp add: word_less_nat_alt reqrep_consts)
  then have "unat (pid AND REQREP_MUTEX_PID_MASK) = unat pid"
    by (simp add: pid_mask unat_and_mask)
  then show ?thesis by (rule word_unat_eq_iff [THEN iffD2])
qed

text \<open>
  The mutex word of a holder is never 0 (the unlocked value), always passes the
  \<^verbatim>\<open>val >= REQREP_MUTEX_WRITER_BIT\<close> test of the recovery path, and gives back the holder's
  pid under the pid mask; distinct pids below \<open>2 ^ 31\<close> have distinct words.
\<close>

theorem mutex_word_faithful:
  "REQREP_MUTEX_VAL pid \<noteq> 0 \<and>
   REQREP_MUTEX_WRITER_BIT \<le> REQREP_MUTEX_VAL pid \<and>
   (pid < REQREP_MUTEX_WRITER_BIT \<longrightarrow> REQREP_MUTEX_VAL pid AND REQREP_MUTEX_PID_MASK = pid) \<and>
   (pid < REQREP_MUTEX_WRITER_BIT \<and> pid' < REQREP_MUTEX_WRITER_BIT \<longrightarrow>
      (REQREP_MUTEX_VAL pid = REQREP_MUTEX_VAL pid' \<longleftrightarrow> pid = pid'))"
  by (metis mutex_val_nonzero(1) mutex_val_ge mutex_val_pid pid_masked_id)

theorem mutex_word_faithful_witness:
  "REQREP_MUTEX_VAL 4711 AND REQREP_MUTEX_PID_MASK = 4711 \<and>
   REQREP_MUTEX_VAL 4711 \<noteq> REQREP_MUTEX_VAL 4712"
  using mutex_word_faithful [of 4711 4712] by (auto simp: reqrep_consts)

section \<open>Doubles\<close>

text \<open>
  The timeouts are C doubles. A finite double is modelled as the real number it stands for, and
  every conversion to double and every operation on doubles rounds its exact result with
  \<open>rnd64\<close>: to the nearest multiple of the unit in the last place, ties to even, subnormal results
  included. A real \<open>x\<close> is (the value of) a double when \<open>rnd64 x = x\<close>. Infinities and NaN are not
  modelled: no operation of the code makes one from a finite timeout.
\<close>

definition round_even :: "real \<Rightarrow> int" where
  "round_even y =
     (let n = \<lfloor>y\<rfloor>; r = y - of_int n
      in if r < 1 / 2 \<or> r = 1 / 2 \<and> even n then n else n + 1)"

text \<open>The exponent of the last place of the 53-bit significand of a double near \<open>x\<close>.\<close>

definition expo64 :: "real \<Rightarrow> int" where
  "expo64 x = max \<lfloor>log 2 \<bar>x\<bar>\<rfloor> (- 1022) - 52"

definition rnd64 :: "real \<Rightarrow> real" where
  "rnd64 x = (let q = 2 powr of_int (expo64 x) in of_int (round_even (x / q)) * q)"

text \<open>
  Rounding errs by half a unit in the last place at most, and leaves alone every number that is a
  multiple of that unit: the doubles, the integers below \<open>2 ^ 53\<close>, and the whole and the
  fractional part of a double.
\<close>

lemma round_even_int [simp]: "round_even (of_int n) = n"
  by (simp add: round_even_def)

lemma round_even_err: "\<bar>of_int (round_even y) - y\<bar> \<le> 1 / 2"
  unfolding round_even_def Let_def by (auto split: if_splits; linarith)

lemma round_even_nonneg: "0 \<le> y \<Longrightarrow> 0 \<le> round_even y"
  by (auto simp: round_even_def Let_def)

lemma rnd64_0 [simp]: "rnd64 0 = 0"
  using round_even_int [of 0] by (simp add: rnd64_def)

lemma rnd64_err: "\<bar>rnd64 x - x\<bar> \<le> 2 powr of_int (expo64 x) / 2"
proof -
  let ?q = "2 powr real_of_int (expo64 x)"
  have "rnd64 x - x = (of_int (round_even (x / ?q)) - x / ?q) * ?q"
    by (simp add: rnd64_def Let_def left_diff_distrib)
  then have "\<bar>rnd64 x - x\<bar> = \<bar>of_int (round_even (x / ?q)) - x / ?q\<bar> * ?q"
    by (simp add: abs_mult)
  also have "\<dots> \<le> 1 / 2 * ?q"
    by (intro mult_right_mono round_even_err) simp
  finally show ?thesis by simp
qed

lemma rnd64_nonneg: "0 \<le> x \<Longrightarrow> 0 \<le> rnd64 x"
  by (simp add: rnd64_def Let_def round_even_nonneg)

lemma rnd64_parts: "rnd64 x = x \<Longrightarrow> \<exists>m. x = of_int m * 2 powr of_int (expo64 x)"
  by (auto simp: rnd64_def Let_def) metis

lemma powr_int_diff: "j \<le> k \<Longrightarrow> 2 powr real_of_int k = of_int (2 ^ nat (k - j)) * 2 powr real_of_int j"
proof -
  assume le: "j \<le> k"
  have "real_of_int k = of_int (int (nat (k - j))) + of_int j" using le by simp
  then have "2 powr real_of_int k = 2 powr real (nat (k - j)) * 2 powr real_of_int j"
    by (simp only: powr_add of_int_of_nat_eq)
  then show ?thesis by (simp add: powr_realpow)
qed

lemma rnd64_fixed:
  assumes "x = of_int m * 2 powr of_int k" "expo64 x \<le> k"
  shows "rnd64 x = x"
proof -
  let ?q = "2 powr real_of_int (expo64 x)"
  have "x = of_int (m * 2 ^ nat (k - expo64 x)) * ?q"
    using assms(1) powr_int_diff [OF assms(2)] by simp
  then have "x / ?q = of_int (m * 2 ^ nat (k - expo64 x))"
    by (simp add: field_simps)
  then show ?thesis
    by (metis (no_types) round_even_int rnd64_def nonzero_eq_divide_eq powr_eq_0_iff zero_neq_numeral)
qed

lemma expo64_mono: "0 < x \<Longrightarrow> x \<le> y \<Longrightarrow> expo64 x \<le> expo64 y"
  unfolding expo64_def by (intro diff_right_mono max.mono floor_mono) auto

lemma expo64_below:
  assumes "x \<noteq> 0" "\<bar>x\<bar> < 2 ^ n" "m = int n - 53" "-1074 \<le> m"
  shows "expo64 x \<le> m"
proof -
  have "log 2 \<bar>x\<bar> < log 2 (2 ^ n)" using assms by (subst log_less_cancel_iff) auto
  then have "log 2 \<bar>x\<bar> < real n" by (simp add: log_nat_power)
  then have "\<lfloor>log 2 \<bar>x\<bar>\<rfloor> < int n" by (simp add: floor_less_iff)
  then show ?thesis using assms by (simp add: expo64_def)
qed

lemma rnd64_int: "\<bar>n\<bar> < 2 ^ 53 \<Longrightarrow> rnd64 (of_int n) = of_int n"
proof (cases "n = 0")
  case False
  assume "\<bar>n\<bar> < 2 ^ 53"
  then have "\<bar>real_of_int n\<bar> < of_int (2 ^ 53)" by (simp only: of_int_abs [symmetric] of_int_less_iff)
  then have "expo64 (of_int n) \<le> 0" using False by (intro expo64_below [of _ 53]) simp_all
  then show ?thesis by (intro rnd64_fixed [of _ n 0]) simp_all
qed simp

lemma rnd64_at:
  assumes "2 ^ n \<le> x" "x < 2 ^ Suc n"
  shows "rnd64 x = of_int (round_even (x * 2 ^ 52 / 2 ^ n)) * (2 ^ n / 2 ^ 52)"
proof -
  have pos: "0 < x" using assms(1) by (rule less_le_trans [rotated]) simp
  have "\<lfloor>log 2 x\<rfloor> = int n"
    using assms pos by (simp add: floor_log_eq_powr_iff powr_realpow powr_add)
  then have "expo64 x = int n - 52" using pos by (simp add: expo64_def)
  then have q: "2 powr real_of_int (expo64 x) = 2 ^ n / 2 ^ 52"
    by (simp add: powr_diff powr_realpow)
  show ?thesis unfolding rnd64_def Let_def q by simp
qed

lemma rnd64_split:
  assumes "rnd64 t = t" "0 \<le> t"
  shows "rnd64 (of_int \<lfloor>t\<rfloor>) = of_int \<lfloor>t\<rfloor>" "rnd64 (t - of_int \<lfloor>t\<rfloor>) = t - of_int \<lfloor>t\<rfloor>"
proof -
  let ?k = "expo64 t"
  obtain m where m: "t = of_int m * 2 powr of_int ?k" using rnd64_parts [OF assms(1)] by blast
  have "rnd64 (of_int \<lfloor>t\<rfloor>) = of_int \<lfloor>t\<rfloor> \<and> rnd64 (t - of_int \<lfloor>t\<rfloor>) = t - of_int \<lfloor>t\<rfloor>"
  proof (cases "0 \<le> ?k")
    case True
    then have "t = of_int (m * 2 ^ nat ?k)" using m powr_int_diff [OF True] by simp
    then have "of_int \<lfloor>t\<rfloor> = t" by (metis floor_of_int)
    then show ?thesis using assms(1) by (metis diff_self rnd64_0)
  next
    case False
    define p :: int where "p = 2 ^ nat (- ?k)"
    have one: "(1::real) = of_int p * 2 powr of_int ?k"
      using powr_int_diff [of ?k 0] False by (simp add: p_def)
    then have whole: "real_of_int \<lfloor>t\<rfloor> = of_int (\<lfloor>t\<rfloor> * p) * 2 powr of_int ?k" by simp
    have frac: "t - of_int \<lfloor>t\<rfloor> = of_int (m - \<lfloor>t\<rfloor> * p) * 2 powr of_int ?k"
      using m whole by (simp add: left_diff_distrib)
    have kept: "rnd64 x = x" if "x = of_int i * 2 powr of_int ?k" "0 \<le> x" "x \<le> t" for x i
    proof (cases "x = 0")
      case False
      with that(2) have "0 < x" by linarith
      then have "expo64 x \<le> ?k" using that(3) by (rule expo64_mono)
      then show ?thesis using that(1) by (rule rnd64_fixed [rotated])
    qed simp
    show ?thesis
      using kept [OF whole] kept [OF frac] assms(2) by (simp add: le_floor_iff)
  qed
  then show "rnd64 (of_int \<lfloor>t\<rfloor>) = of_int \<lfloor>t\<rfloor>" "rnd64 (t - of_int \<lfloor>t\<rfloor>) = t - of_int \<lfloor>t\<rfloor>"
    by blast+
qed


section \<open>Deadlines\<close>

text \<open>
  A \<^verbatim>\<open>struct timespec\<close>, with its 64-bit signed fields as integers: signed overflow is undefined in
  C, and the property at the end of this section shows that no sum leaves the 64-bit range.
\<close>

record timespec =
  tv_sec :: int
  tv_nsec :: int

definition reqrep_remaining_time :: "timespec \<Rightarrow> timespec \<Rightarrow> bool \<times> timespec" where
  "reqrep_remaining_time now deadline =
     (let s = tv_sec deadline - tv_sec now;
          n = tv_nsec deadline - tv_nsec now;
          r = (if n < 0 then \<lparr>tv_sec = s - 1, tv_nsec = n + 1000000000\<rparr>
               else \<lparr>tv_sec = s, tv_nsec = n\<rparr>)
      in (0 \<le> tv_sec r, r))"

text \<open>The C conversion of a double to an integer type truncates towards zero.\<close>

definition trunc64 :: "real \<Rightarrow> int" where
  "trunc64 x = (if 0 \<le> x then \<lfloor>x\<rfloor> else \<lceil>x\<rceil>)"

definition reqrep_make_deadline :: "timespec \<Rightarrow> real \<Rightarrow> timespec" where
  "reqrep_make_deadline now timeout =
     (let whole = trunc64 timeout;
          s = tv_sec now + whole;
          n = tv_nsec now + trunc64 (rnd64 (rnd64 (timeout - rnd64 (of_int whole)) * 1000000000))
      in if n \<ge> 1000000000 then \<lparr>tv_sec = s + 1, tv_nsec = n - 1000000000\<rparr>
         else \<lparr>tv_sec = s, tv_nsec = n\<rparr>)"

definition valid_timespec :: "timespec \<Rightarrow> bool" where
  "valid_timespec t \<longleftrightarrow> 0 \<le> tv_nsec t \<and> tv_nsec t < 1000000000"

definition nanos :: "timespec \<Rightarrow> int" where
  "nanos t = tv_sec t * 1000000000 + tv_nsec t"

lemma remaining_time_valid:
  "valid_timespec now \<Longrightarrow> valid_timespec deadline \<Longrightarrow>
   valid_timespec (snd (reqrep_remaining_time now deadline))"
  by (auto simp: reqrep_remaining_time_def valid_timespec_def Let_def)

lemma remaining_time_nanos:
  "nanos (snd (reqrep_remaining_time now deadline)) = nanos deadline - nanos now"
  by (simp add: reqrep_remaining_time_def nanos_def Let_def)

lemma remaining_time_expired:
  assumes "valid_timespec now" "valid_timespec deadline"
  shows "fst (reqrep_remaining_time now deadline) \<longleftrightarrow> nanos now \<le> nanos deadline"
proof -
  let ?r = "snd (reqrep_remaining_time now deadline)"
  have v: "valid_timespec ?r" using assms by (rule remaining_time_valid)
  have "fst (reqrep_remaining_time now deadline) \<longleftrightarrow> 0 \<le> tv_sec ?r"
    by (simp add: reqrep_remaining_time_def Let_def)
  also have "\<dots> \<longleftrightarrow> 0 \<le> nanos ?r"
    using v by (auto simp: nanos_def valid_timespec_def)
  finally show ?thesis by (simp add: remaining_time_nanos)
qed

text \<open>
  For a timeout that is a double, the conversion of the whole seconds and the subtraction are exact;
  only the product is rounded.
\<close>

definition frac_nanos :: "real \<Rightarrow> int" where
  "frac_nanos t = \<lfloor>rnd64 ((t - of_int \<lfloor>t\<rfloor>) * 1000000000)\<rfloor>"

lemma make_deadline_split:
  assumes "rnd64 t = t" "0 \<le> t"
  shows "reqrep_make_deadline now t =
    (let s = tv_sec now + \<lfloor>t\<rfloor>; n = tv_nsec now + frac_nanos t
     in if n \<ge> 1000000000 then \<lparr>tv_sec = s + 1, tv_nsec = n - 1000000000\<rparr>
        else \<lparr>tv_sec = s, tv_nsec = n\<rparr>)"
proof -
  have "0 \<le> rnd64 ((t - of_int \<lfloor>t\<rfloor>) * 1000000000)" by (intro rnd64_nonneg) simp
  then show ?thesis
    using assms by (simp add: reqrep_make_deadline_def trunc64_def rnd64_split frac_nanos_def Let_def)
qed

lemma rnd64_nanos_err:
  assumes "0 \<le> f" "f < 1"
  shows "\<bar>rnd64 (f * 1000000000) - f * 1000000000\<bar> \<le> 1 / 2 ^ 24"
proof (cases "f = 0")
  case False
  let ?x = "f * 1000000000"
  have "?x \<noteq> 0" "\<bar>?x\<bar> < 2 ^ 30" using assms False by simp_all
  then have "expo64 ?x \<le> -23" by (intro expo64_below [of _ 30]) simp_all
  then have "2 powr real_of_int (expo64 ?x) \<le> 2 powr real_of_int (- 23)"
    by (intro powr_mono) simp_all
  also have "\<dots> = 1 / 2 ^ 23" by (simp add: powr_minus_divide)
  finally show ?thesis using rnd64_err [of ?x] by simp
qed simp

lemma frac_nanos_bounds:
  "0 \<le> frac_nanos t" "frac_nanos t \<le> 1000000000"
  "(t - of_int \<lfloor>t\<rfloor>) * 1000000000 - 1 / 2 ^ 24 < of_int (frac_nanos t) + 1"
  "of_int (frac_nanos t) \<le> (t - of_int \<lfloor>t\<rfloor>) * 1000000000 + 1 / 2 ^ 24"
proof -
  define f where "f = t - of_int \<lfloor>t\<rfloor>"
  have f: "0 \<le> f" "f < 1" unfolding f_def by linarith+
  have g: "frac_nanos t = \<lfloor>rnd64 (f * 1000000000)\<rfloor>" by (simp only: frac_nanos_def f_def)
  note err = rnd64_nanos_err [OF f]
  have "0 \<le> rnd64 (f * 1000000000)" using f(1) by (intro rnd64_nonneg) simp
  then show "0 \<le> frac_nanos t" by (simp add: g)
  have "rnd64 (f * 1000000000) < 1000000001"
  proof -
    have "(1 / 2 ^ 24 :: real) \<le> 1" by simp
    with err f(2) show ?thesis by argo
  qed
  then show "frac_nanos t \<le> 1000000000" by (simp add: g floor_le_iff)
  show "(t - of_int \<lfloor>t\<rfloor>) * 1000000000 - 1 / 2 ^ 24 < of_int (frac_nanos t) + 1"
    "of_int (frac_nanos t) \<le> (t - of_int \<lfloor>t\<rfloor>) * 1000000000 + 1 / 2 ^ 24"
    using err unfolding g f_def [symmetric] by linarith+
qed

text \<open>
  Property C39. The deadline arithmetic, double rounding included, is right to the nanosecond and
  stays inside the 64-bit range: for a positive double of less than \<open>2 ^ 62\<close> seconds and clock
  readings of less than \<open>2 ^ 61\<close> seconds, the deadline is a valid timespec that lies less than
  \<open>1 + 2 ^ -24\<close> nanoseconds before and at most \<open>2 ^ -24\<close> nanoseconds after the exact sum, and the
  remaining time computed later is the difference of the two times, a valid timespec for
  \<^verbatim>\<open>FUTEX_WAIT\<close>, refused exactly when the deadline has passed.
\<close>

theorem deadline_arithmetic:
  assumes "valid_timespec now" "valid_timespec later" "rnd64 timeout = timeout" "0 < timeout"
    and range: "timeout < 2 ^ 62" "0 \<le> tv_sec now" "tv_sec now < 2 ^ 61"
      "0 \<le> tv_sec later" "tv_sec later < 2 ^ 61"
  defines "dl \<equiv> reqrep_make_deadline now timeout"
  shows "valid_timespec dl \<and> 0 \<le> tv_sec dl \<and> tv_sec dl < 2 ^ 63 \<and>
         timeout * 1000000000 - (1 + 1 / 2 ^ 24) < of_int (nanos dl - nanos now) \<and>
         of_int (nanos dl - nanos now) \<le> timeout * 1000000000 + 1 / 2 ^ 24 \<and>
         (case reqrep_remaining_time later dl of (ok, r) \<Rightarrow>
            valid_timespec r \<and> \<bar>tv_sec r\<bar> < 2 ^ 63 \<and> nanos r = nanos dl - nanos later \<and>
            (ok \<longleftrightarrow> nanos later \<le> nanos dl))"
proof -
  note dl = make_deadline_split [OF assms(3) less_imp_le [OF assms(4)], of now, folded dl_def]
  note f = frac_nanos_bounds [of timeout]
  have valid: "valid_timespec dl"
    using assms(1) f(1,2) by (auto simp: dl Let_def valid_timespec_def)
  have whole: "0 \<le> \<lfloor>timeout\<rfloor>" "\<lfloor>timeout\<rfloor> < 2 ^ 62"
    using assms(4) range(1) by (simp_all add: floor_less_iff)
  have sec: "0 \<le> tv_sec dl" "tv_sec dl < 2 ^ 63 - 1"
    using whole range(2,3) unfolding dl Let_def by (simp_all del: floor_less_iff less_floor_iff, linarith)
  have "nanos dl - nanos now = \<lfloor>timeout\<rfloor> * 1000000000 + frac_nanos timeout"
    by (simp add: dl Let_def nanos_def algebra_simps)
  then have "real_of_int (nanos dl - nanos now) =
      timeout * 1000000000 + (of_int (frac_nanos timeout) - (timeout - of_int \<lfloor>timeout\<rfloor>) * 1000000000)"
    by (simp add: algebra_simps)
  then have near: "timeout * 1000000000 - (1 + 1 / 2 ^ 24) < of_int (nanos dl - nanos now)"
    "of_int (nanos dl - nanos now) \<le> timeout * 1000000000 + 1 / 2 ^ 24"
    using f(3,4) by linarith+
  have "\<bar>tv_sec (snd (reqrep_remaining_time later dl))\<bar> < 2 ^ 63"
    using sec range(4,5) by (auto simp: reqrep_remaining_time_def Let_def)
  then have "case reqrep_remaining_time later dl of (ok, r) \<Rightarrow>
            valid_timespec r \<and> \<bar>tv_sec r\<bar> < 2 ^ 63 \<and> nanos r = nanos dl - nanos later \<and>
            (ok \<longleftrightarrow> nanos later \<le> nanos dl)"
    using remaining_time_valid [OF assms(2) valid] remaining_time_nanos [of later dl]
      remaining_time_expired [OF assms(2) valid]
    by (simp add: case_prod_beta)
  then show ?thesis using valid near sec by simp
qed

text \<open>The double nearest to 0.3, whose exact value is below 0.3.\<close>

definition double_03 :: real where
  "double_03 = 5404319552844595 / 2 ^ 54"

lemma double_03: "rnd64 double_03 = double_03"
  unfolding double_03_def
proof (rule rnd64_fixed [of _ 5404319552844595 "- 54"])
  show "(5404319552844595 / 2 ^ 54 :: real) = of_int 5404319552844595 * 2 powr of_int (- 54)"
    by (simp add: powr_minus_divide)
  show "expo64 (5404319552844595 / 2 ^ 54) \<le> - 54"
  proof -
    have "\<lfloor>log 2 (5404319552844595 / 2 ^ 54)\<rfloor> = - 2"
      by (subst floor_log_eq_powr_iff) (simp_all add: powr_minus_divide)
    then show ?thesis by (simp add: expo64_def)
  qed
qed

lemma frac_nanos_03: "frac_nanos double_03 = 300000000"
proof -
  have z: "\<lfloor>double_03\<rfloor> = 0" by (rule floor_unique) (simp_all add: double_03_def)
  have fl: "\<lfloor>double_03 * 1000000000 * 2 ^ 52 / 2 ^ 28\<rfloor> = 300000000 * 2 ^ 24 - 1"
    by (rule floor_unique) (simp_all add: double_03_def)
  have r: "round_even (double_03 * 1000000000 * 2 ^ 52 / 2 ^ 28) = 300000000 * 2 ^ 24"
    unfolding round_even_def Let_def fl by (simp add: double_03_def)
  have at: "2 ^ 28 \<le> double_03 * 1000000000" "double_03 * 1000000000 < 2 ^ Suc 28"
    by (simp_all add: double_03_def)
  have "rnd64 (double_03 * 1000000000) = 300000000"
    unfolding rnd64_at [OF at] r by simp
  then show ?thesis by (simp add: frac_nanos_def z)
qed

theorem deadline_arithmetic_witness:
  "reqrep_make_deadline \<lparr>tv_sec = 10, tv_nsec = 900000000\<rparr> double_03 =
     \<lparr>tv_sec = 11, tv_nsec = 200000000\<rparr> \<and>
   valid_timespec (reqrep_make_deadline \<lparr>tv_sec = 10, tv_nsec = 900000000\<rparr> double_03)"
proof (rule conjI)
  have pos: "0 < double_03" "double_03 < 2 ^ 62" by (simp_all add: double_03_def)
  have z: "\<lfloor>double_03\<rfloor> = 0" by (rule floor_unique) (simp_all add: double_03_def)
  show "reqrep_make_deadline \<lparr>tv_sec = 10, tv_nsec = 900000000\<rparr> double_03 =
     \<lparr>tv_sec = 11, tv_nsec = 200000000\<rparr>"
    using pos(1) by (simp add: make_deadline_split [OF double_03] z frac_nanos_03)
  show "valid_timespec (reqrep_make_deadline \<lparr>tv_sec = 10, tv_nsec = 900000000\<rparr> double_03)"
    using deadline_arithmetic [of "\<lparr>tv_sec = 10, tv_nsec = 900000000\<rparr>"
        "\<lparr>tv_sec = 11, tv_nsec = 0\<rparr>" double_03] pos double_03
    by (simp add: valid_timespec_def)
qed

end
