(* ===== verification/RR_Shm.thy ===== *)
theory RR_Shm
  imports RR_Util
begin

text \<open>
  The state the operations work on. \<^verbatim>\<open>shm\<close> is the shared mapping seen through the structures
  of \<^verbatim>\<open>reqrep.h\<close> (header, request slots of either mode, request arena, response slots) together
  with the log of the kernel calls made so far; that the typed parts do not overlap in the
  mapping is shown in \<^verbatim>\<open>RR_Lifecycle\<close> from the layout code.

  \<^verbatim>\<open>os\<close> is everything a call meets that is not its own code: the answers of the kernel and of
  the allocator, and, for every atomic access of the call, what the other processes do to the
  mapping just before it. The accesses of a call are numbered; \<open>os_run os [k]\<close> is the
  interference before access \<open>k\<close>, and the \<open>k\<close>-th inner call of a function receives
  \<open>sub os k\<close>, so that every access of a whole call tree has its own path. A call that runs
  alone is a call under a \<open>quiet\<close> environment.
\<close>

section \<open>The mapping\<close>

datatype futex_word = Fmutex | Frecv | Fsend | Fslot | Fresp u32

datatype kcall = FUTEX_WAKE futex_word nat

definition INT_MAX :: nat where [reqrep_consts]: "INT_MAX = 2147483647"

record shm =
  hdr :: ReqRepHeader
  req_slots :: "ReqSlot list"
  int_slots :: "ReqIntSlot list"
  req_arena :: bytes
  resp_area :: "RespSlot list"
  kcalls :: "kcall list"

definition kcall :: "kcall \<Rightarrow> shm \<Rightarrow> shm" where
  "kcall c w = w\<lparr>kcalls := kcalls w @ [c]\<rparr>"

text \<open>\<^verbatim>\<open>reqrep_resp_slot\<close> is pointer arithmetic; dereferencing its result outside the response
  area is undefined.\<close>

definition reqrep_resp_slot :: "shm \<Rightarrow> u32 \<Rightarrow> RespSlot option" where
  "reqrep_resp_slot w idx =
     (if unat idx < length (resp_area w) then Some (resp_area w ! unat idx) else None)"

definition set_resp_slot :: "u32 \<Rightarrow> RespSlot \<Rightarrow> shm \<Rightarrow> shm" where
  "set_resp_slot idx s w = w\<lparr>resp_area := (resp_area w)[unat idx := s]\<rparr>"

section \<open>The environment of a call\<close>

datatype errno = ESRCH | EPERM | ETIMEDOUT | EAGAIN | EINTR | EOTHER

type_synonym path = "nat list"

record os =
  os_pid :: u32
  os_run :: "path \<Rightarrow> shm \<Rightarrow> shm"
  os_kill :: "path \<Rightarrow> u32 \<Rightarrow> errno option"
  os_realloc :: "path \<Rightarrow> u32 \<Rightarrow> bool"
  os_futex :: "path \<Rightarrow> errno option"
  os_spurious :: "path \<Rightarrow> bool"
  os_clock :: "path \<Rightarrow> timespec"
  os_fuel :: "path \<Rightarrow> nat"

text \<open>
  \<open>os_kill\<close>: the error of \<^verbatim>\<open>kill(pid, 0)\<close>, if any; \<open>os_realloc\<close>: whether a size is
  granted; \<open>os_futex\<close>: the error a \<^verbatim>\<open>FUTEX_WAIT\<close> returns with; \<open>os_spurious\<close>: whether a
  weak compare-and-exchange fails although the values agree; \<open>os_clock\<close>: \<^verbatim>\<open>CLOCK_MONOTONIC\<close>;
  \<open>os_fuel\<close>: for how many rounds a loop that may wait for ever is followed.
\<close>

definition sub :: "os \<Rightarrow> nat \<Rightarrow> os" where
  "sub os k = os\<lparr>os_run := \<lambda>p. os_run os (k # p), os_kill := \<lambda>p. os_kill os (k # p),
     os_realloc := \<lambda>p. os_realloc os (k # p), os_futex := \<lambda>p. os_futex os (k # p),
     os_spurious := \<lambda>p. os_spurious os (k # p), os_clock := \<lambda>p. os_clock os (k # p),
     os_fuel := \<lambda>p. os_fuel os (k # p)\<rparr>"

abbreviation others :: "os \<Rightarrow> nat \<Rightarrow> shm \<Rightarrow> shm" where
  "others os k \<equiv> os_run os [k]"

definition quiet :: "os \<Rightarrow> bool" where
  "quiet os \<longleftrightarrow> (\<forall>p w. os_run os p w = w) \<and> (\<forall>p. \<not> os_spurious os p) \<and> (\<forall>p. 0 < os_fuel os p)"

lemma sub_simps [simp]:
  "os_pid (sub os k) = os_pid os"
  "os_run (sub os k) p = os_run os (k # p)"
  "os_kill (sub os k) p = os_kill os (k # p)"
  "os_realloc (sub os k) p = os_realloc os (k # p)"
  "os_futex (sub os k) p = os_futex os (k # p)"
  "os_spurious (sub os k) p = os_spurious os (k # p)"
  "os_clock (sub os k) p = os_clock os (k # p)"
  "os_fuel (sub os k) p = os_fuel os (k # p)"
  by (simp_all add: sub_def)

lemma quiet_sub [simp, intro]: "quiet os \<Longrightarrow> quiet (sub os k)"
  by (simp add: quiet_def)

lemma quiet_run [simp]: "quiet os \<Longrightarrow> os_run os p w = w"
  unfolding quiet_def by blast

lemma quiet_spurious [simp]: "quiet os \<Longrightarrow> os_spurious os p = False"
  unfolding quiet_def by blast

lemma quiet_fuel: "quiet os \<Longrightarrow> \<exists>n. os_fuel os p = Suc n"
  unfolding quiet_def using gr0_implies_Suc by blast

text \<open>A concrete quiet environment, for evaluating calls: process 7, every other pid alive,
  every allocation granted, every wait timing out, the clock at zero.\<close>

definition quiet_os :: os where
  "quiet_os = \<lparr>os_pid = 7, os_run = \<lambda>_ w. w, os_kill = \<lambda>_ _. None, os_realloc = \<lambda>_ _. True,
     os_futex = \<lambda>_. Some ETIMEDOUT, os_spurious = \<lambda>_. False,
     os_clock = \<lambda>_. \<lparr>tv_sec = 0, tv_nsec = 0\<rparr>, os_fuel = \<lambda>_. 1\<rparr>"

lemma quiet_quiet_os [simp]: "quiet quiet_os"
  by (simp add: quiet_def quiet_os_def)

definition reqrep_pid_alive :: "os \<Rightarrow> u32 \<Rightarrow> bool" where
  "reqrep_pid_alive os pid = (if pid = 0 then True else \<not> os_kill os [] pid = Some ESRCH)"

section \<open>Waking waiters\<close>

definition reqrep_wake_consumers :: "shm \<Rightarrow> shm" where
  "reqrep_wake_consumers w =
     (if h_recv_waiters (hdr w) > 0
      then kcall (FUTEX_WAKE Frecv 1) (hdr_update (\<lambda>h. h\<lparr>h_recv_futex := h_recv_futex h + 1\<rparr>) w)
      else w)"

definition reqrep_wake_producers :: "shm \<Rightarrow> shm" where
  "reqrep_wake_producers w =
     (if h_send_waiters (hdr w) > 0
      then kcall (FUTEX_WAKE Fsend 1) (hdr_update (\<lambda>h. h\<lparr>h_send_futex := h_send_futex h + 1\<rparr>) w)
      else w)"

definition reqrep_wake_slot_waiters :: "shm \<Rightarrow> shm" where
  "reqrep_wake_slot_waiters w =
     (if h_slot_waiters (hdr w) > 0
      then kcall (FUTEX_WAKE Fslot 1) (hdr_update (\<lambda>h. h\<lparr>h_slot_futex := h_slot_futex h + 1\<rparr>) w)
      else w)"

lemmas wake_defs = reqrep_wake_consumers_def reqrep_wake_producers_def reqrep_wake_slot_waiters_def

lemma kcall_simps [simp]:
  "hdr (kcall c w) = hdr w" "req_slots (kcall c w) = req_slots w"
  "int_slots (kcall c w) = int_slots w" "req_arena (kcall c w) = req_arena w"
  "resp_area (kcall c w) = resp_area w" "kcalls (kcall c w) = kcalls w @ [c]"
  by (simp_all add: kcall_def)

lemma set_resp_slot_simps [simp]:
  "hdr (set_resp_slot i s w) = hdr w" "req_slots (set_resp_slot i s w) = req_slots w"
  "int_slots (set_resp_slot i s w) = int_slots w" "req_arena (set_resp_slot i s w) = req_arena w"
  "resp_area (set_resp_slot i s w) = (resp_area w)[unat i := s]"
  "kcalls (set_resp_slot i s w) = kcalls w"
  by (simp_all add: set_resp_slot_def)

text \<open>The wake operations touch the futex word and the log only.\<close>

lemma wake_frame [simp]:
  "req_slots (reqrep_wake_consumers w) = req_slots w" "int_slots (reqrep_wake_consumers w) = int_slots w"
  "req_arena (reqrep_wake_consumers w) = req_arena w" "resp_area (reqrep_wake_consumers w) = resp_area w"
  "req_slots (reqrep_wake_producers w) = req_slots w" "int_slots (reqrep_wake_producers w) = int_slots w"
  "req_arena (reqrep_wake_producers w) = req_arena w" "resp_area (reqrep_wake_producers w) = resp_area w"
  "req_slots (reqrep_wake_slot_waiters w) = req_slots w" "int_slots (reqrep_wake_slot_waiters w) = int_slots w"
  "req_arena (reqrep_wake_slot_waiters w) = req_arena w" "resp_area (reqrep_wake_slot_waiters w) = resp_area w"
  by (simp_all add: wake_defs)

section \<open>The copy buffer\<close>

text \<open>
  The doubling loop of \<^verbatim>\<open>reqrep_ensure_copy_buf\<close>: when doubling wraps around (or the size is 0)
  the loop settles for the size asked for.
\<close>

function grow_copy_buf :: "u32 \<Rightarrow> u32 \<Rightarrow> u32" where
  "grow_copy_buf ns needed =
     (if ns < needed then (let n2 = ns * 2 in if n2 \<le> ns then needed else grow_copy_buf n2 needed)
      else ns)"
  by pat_completeness auto
termination
  by (relation "measure (\<lambda>(ns, needed). 2 ^ 32 - unat ns)")
    (auto simp: not_le word_less_nat_alt intro!: diff_less_mono2 order.strict_trans2 [OF unat_lt_pow])

declare grow_copy_buf.simps [simp del]

text \<open>\<^verbatim>\<open>realloc\<close> keeps the old prefix; the fresh bytes are unspecified in C and never read
  before they are written, so the model fills them with 0.\<close>

definition reqrep_ensure_copy_buf :: "os \<Rightarrow> ReqRepHandle \<Rightarrow> u32 \<Rightarrow> bool \<times> ReqRepHandle" where
  "reqrep_ensure_copy_buf os h needed =
     (if needed \<le> hn_copy_buf_cap h then (True, h)
      else let ns = grow_copy_buf (if hn_copy_buf_cap h \<noteq> 0 then hn_copy_buf_cap h else 64) needed
           in if os_realloc os [] ns
              then (True, h\<lparr>hn_copy_buf := take (unat ns) (hn_copy_buf h)
                                @ replicate (unat ns - length (hn_copy_buf h)) 0,
                            hn_copy_buf_cap := ns\<rparr>)
              else (False, h))"

definition copy_buf_ok :: "ReqRepHandle \<Rightarrow> bool" where
  "copy_buf_ok h \<longleftrightarrow> length (hn_copy_buf h) = unat (hn_copy_buf_cap h)"

lemma grow_copy_buf_ge: "needed \<le> grow_copy_buf ns needed"
proof (induction ns needed rule: grow_copy_buf.induct)
  case (1 ns needed)
  then show ?case
    by (subst grow_copy_buf.simps) (auto simp: Let_def not_less)
qed

lemma unat_double: "\<not> ns * 2 \<le> (ns :: u32) \<Longrightarrow> unat (ns * 2) = 2 * unat ns"
proof -
  assume a: "\<not> ns * 2 \<le> ns"
  have "unat (ns * 2) = unat ns * 2 mod 2 ^ 32"
    by (simp add: unat_word_ariths)
  moreover have "unat ns * 2 < 2 ^ 32"
  proof (rule ccontr)
    assume b: "\<not> unat ns * 2 < 2 ^ 32"
    then have "unat ns * 2 mod 2 ^ 32 = unat ns * 2 - 2 ^ 32"
      using unat_lt_32 [of ns] by (subst mod_if) (simp add: mod_if)
    with calculation a b unat_lt_32 [of ns] show False
      by (simp add: word_le_nat_alt)
  qed
  ultimately show ?thesis by simp
qed

lemma grow_copy_buf_lt:
  "ns < needed \<Longrightarrow> unat (grow_copy_buf ns needed) < 2 * unat needed"
proof (induction ns needed rule: grow_copy_buf.induct)
  case (1 ns needed)
  show ?case
  proof (cases "ns * 2 \<le> ns")
    case True
    with "1.prems" show ?thesis
      by (subst grow_copy_buf.simps) (auto simp: Let_def word_less_nat_alt)
  next
    case False
    note dbl = unat_double [OF False]
    show ?thesis
    proof (cases "ns * 2 < needed")
      case True
      with "1.IH" [OF "1.prems" refl False] "1.prems" False show ?thesis
        by (simp add: grow_copy_buf.simps [of ns])
    next
      case ge: False
      then have "grow_copy_buf ns needed = ns * 2"
        using "1.prems" False by (simp add: grow_copy_buf.simps [of ns] grow_copy_buf.simps [of "ns * 2"])
      with dbl "1.prems" show ?thesis by (simp add: word_less_nat_alt)
    qed
  qed
qed

text \<open>
  The loop finds the least multiple of its start by a power of two that holds the size asked for;
  when no such multiple fits 32 bits it settles for the size asked for.
\<close>

lemma grow_copy_buf_least:
  "0 < ns \<Longrightarrow>
   (if \<exists>k. unat needed \<le> unat ns * 2 ^ k \<and> unat ns * 2 ^ k < 2 ^ 32
    then \<exists>k. unat (grow_copy_buf ns needed) = unat ns * 2 ^ k \<and> unat needed \<le> unat ns * 2 ^ k \<and>
             (\<forall>j<k. unat ns * 2 ^ j < unat needed)
    else grow_copy_buf ns needed = needed)"
proof (induction ns needed rule: grow_copy_buf.induct)
  case (1 ns needed)
  have pos: "0 < unat ns" using "1.prems" by (simp add: word_less_nat_alt)
  let ?fit = "\<lambda>n k. unat needed \<le> unat n * 2 ^ k \<and> unat n * 2 ^ k < 2 ^ 32"
  show ?case
  proof (cases "ns < needed")
    case False
    then have "grow_copy_buf ns needed = ns" "?fit ns 0"
      using unat_lt_32 [of ns] by (simp_all add: grow_copy_buf.simps [of ns] word_less_nat_alt)
    moreover from this(2) have "\<exists>k. ?fit ns k" by blast
    ultimately show ?thesis by (simp only: if_True) (auto intro: exI [of _ 0])
  next
    case less: True
    then have lt: "unat ns < unat needed" by (simp add: word_less_nat_alt)
    have later: "\<exists>j. k = Suc j" if "unat needed \<le> unat ns * 2 ^ k" for k
      using that lt by (cases k) auto
    show ?thesis
    proof (cases "ns * 2 \<le> ns")
      case True
      have wrap: "2 ^ 32 \<le> 2 * unat ns"
      proof (rule ccontr)
        assume "\<not> 2 ^ 32 \<le> 2 * unat ns"
        then have "unat (ns * 2) = 2 * unat ns" by (simp add: unat_word_ariths)
        with True pos show False by (simp add: word_le_nat_alt)
      qed
      have none: "\<not> ?fit ns k" for k
      proof
        assume fit: "?fit ns k"
        with later obtain j where "k = Suc j" by blast
        then have "2 * unat ns \<le> unat ns * 2 ^ k" by simp
        with wrap fit show False by linarith
      qed
      have "grow_copy_buf ns needed = needed"
        using less True by (simp add: grow_copy_buf.simps [of ns])
      then show ?thesis using none by auto
    next
      case False
      note dbl = unat_double [OF False]
      have eq: "grow_copy_buf ns needed = grow_copy_buf (ns * 2) needed"
        using less False by (simp add: grow_copy_buf.simps [of ns])
      have p2: "0 < ns * 2" using dbl pos by (simp add: word_less_nat_alt)
      note IH = "1.IH" [OF less refl False p2]
      have sh: "?fit (ns * 2) k \<longleftrightarrow> ?fit ns (Suc k)" for k by (simp add: dbl ac_simps)
      show ?thesis
      proof (cases "\<exists>k. ?fit ns k")
        case True
        then have "\<exists>k. ?fit (ns * 2) k" using later unfolding sh by blast
        then obtain k where k: "unat (grow_copy_buf (ns * 2) needed) = unat (ns * 2) * 2 ^ k"
          "unat needed \<le> unat (ns * 2) * 2 ^ k" "\<And>j. j < k \<Longrightarrow> unat (ns * 2) * 2 ^ j < unat needed"
          using IH by auto
        have "unat ns * 2 ^ j < unat needed" if "j < Suc k" for j
          using that lt k(3) by (cases j) (auto simp: dbl ac_simps)
        with k True show ?thesis
          by (auto simp: eq dbl ac_simps intro!: exI [of _ "Suc k"])
      next
        case none: False
        then have "\<not> (\<exists>k. ?fit (ns * 2) k)" unfolding sh by blast
        with IH none eq show ?thesis by (simp only: if_False)
      qed
    qed
  qed
qed

lemma ensure_copy_buf_True:
  assumes "reqrep_ensure_copy_buf os h needed = (True, h')" and "copy_buf_ok h"
  shows "copy_buf_ok h'" and "needed \<le> hn_copy_buf_cap h'"
    and "\<exists>b c. h' = h\<lparr>hn_copy_buf := b, hn_copy_buf_cap := c\<rparr>"
proof -
  show "copy_buf_ok h'"
    using assms by (auto simp: reqrep_ensure_copy_buf_def copy_buf_ok_def Let_def split: if_splits)
  show "needed \<le> hn_copy_buf_cap h'"
    using assms(1) grow_copy_buf_ge
    by (auto simp: reqrep_ensure_copy_buf_def Let_def split: if_splits)
  show "\<exists>b c. h' = h\<lparr>hn_copy_buf := b, hn_copy_buf_cap := c\<rparr>"
  proof (cases "needed \<le> hn_copy_buf_cap h")
    case True
    with assms(1) have "h' = h" by (simp add: reqrep_ensure_copy_buf_def)
    then show ?thesis
      by (intro exI [of _ "hn_copy_buf h"] exI [of _ "hn_copy_buf_cap h"]) simp
  next
    case False
    with assms(1) show ?thesis
      by (auto simp: reqrep_ensure_copy_buf_def Let_def split: if_splits)
  qed
qed

lemma ensure_copy_buf_False:
  assumes "reqrep_ensure_copy_buf os h needed = (False, h')"
  shows "h' = h" and "\<exists>n. \<not> os_realloc os [] n"
  using assms by (auto simp: reqrep_ensure_copy_buf_def Let_def split: if_splits)

lemma ensure_copy_buf_keeps:
  assumes "reqrep_ensure_copy_buf os h needed = (True, h')" and "copy_buf_ok h"
  shows "take (length (hn_copy_buf h)) (hn_copy_buf h') = hn_copy_buf h"
proof (cases "needed \<le> hn_copy_buf_cap h")
  case False
  let ?n = "grow_copy_buf (if hn_copy_buf_cap h \<noteq> 0 then hn_copy_buf_cap h else 64) needed"
  have "hn_copy_buf_cap h \<le> ?n"
    using grow_copy_buf_ge [of needed] False by (meson le_cases order.trans)
  then have "length (hn_copy_buf h) \<le> unat ?n"
    using assms(2) by (simp add: copy_buf_ok_def word_le_nat_alt)
  with assms(1) False show ?thesis
    by (auto simp: reqrep_ensure_copy_buf_def Let_def split: if_splits)
qed (use assms in \<open>simp add: reqrep_ensure_copy_buf_def\<close>)

lemma ensure_copy_buf_grown:
  assumes "copy_buf_ok h" "reqrep_ensure_copy_buf os h needed = (True, h')" "hn_copy_buf_cap h < needed"
  defines "s \<equiv> if hn_copy_buf_cap h = 0 then 64 else unat (hn_copy_buf_cap h)"
  shows "length (hn_copy_buf h') < max 128 (2 * unat needed)"
    and "if \<exists>k. unat needed \<le> s * 2 ^ k \<and> s * 2 ^ k < 2 ^ 32
         then \<exists>k. length (hn_copy_buf h') = s * 2 ^ k \<and> unat needed \<le> s * 2 ^ k \<and>
                  (\<forall>j<k. s * 2 ^ j < unat needed)
         else length (hn_copy_buf h') = unat needed"
proof -
  let ?s = "if hn_copy_buf_cap h \<noteq> 0 then hn_copy_buf_cap h else 64"
  have s: "s = unat ?s" "0 < ?s" by (simp_all add: s_def word_gt_0)
  from assms have len: "length (hn_copy_buf h') = unat (grow_copy_buf ?s needed)"
    by (auto simp: reqrep_ensure_copy_buf_def copy_buf_ok_def Let_def not_le split: if_splits)
  show "length (hn_copy_buf h') < max 128 (2 * unat needed)"
  proof (cases "?s < needed")
    case True
    from grow_copy_buf_lt [OF this] len show ?thesis by simp
  next
    case False
    then have "grow_copy_buf ?s needed = ?s" by (simp add: grow_copy_buf.simps)
    moreover from False assms(3) have "?s = 64" by (auto split: if_splits)
    ultimately show ?thesis using len by simp
  qed
  show "if \<exists>k. unat needed \<le> s * 2 ^ k \<and> s * 2 ^ k < 2 ^ 32
         then \<exists>k. length (hn_copy_buf h') = s * 2 ^ k \<and> unat needed \<le> s * 2 ^ k \<and>
                  (\<forall>j<k. s * 2 ^ j < unat needed)
         else length (hn_copy_buf h') = unat needed"
    using grow_copy_buf_least [OF s(2), of needed] unfolding len s(1) by (simp only: split: if_splits) auto
qed

text \<open>
  Property C35. Growing the copy buffer always ends. When it reports success the buffer holds at
  least the bytes asked for, its recorded capacity is its real length and the bytes it held are
  kept; a buffer that had to grow has the least size that is its old size (64 for a new buffer)
  times a power of two and holds the request, so repeated requests grow it geometrically, and
  exactly the size asked for when no such size fits 32 bits. When it reports failure the handle is
  unchanged and the allocator refused.
\<close>

theorem ensure_copy_buf_correct:
  assumes "copy_buf_ok h" and "reqrep_ensure_copy_buf os h needed = (ok, h')"
  defines "s \<equiv> if hn_copy_buf_cap h = 0 then 64 else unat (hn_copy_buf_cap h)"
  shows "(ok \<longrightarrow> copy_buf_ok h' \<and> unat needed \<le> length (hn_copy_buf h') \<and>
            take (length (hn_copy_buf h)) (hn_copy_buf h') = hn_copy_buf h) \<and>
         (\<not> ok \<longrightarrow> h' = h \<and> (\<exists>n. \<not> os_realloc os [] n)) \<and>
         (ok \<and> hn_copy_buf_cap h < needed \<longrightarrow>
            length (hn_copy_buf h') < max 128 (2 * unat needed) \<and>
            (if \<exists>k. unat needed \<le> s * 2 ^ k \<and> s * 2 ^ k < 2 ^ 32
             then \<exists>k. length (hn_copy_buf h') = s * 2 ^ k \<and> unat needed \<le> s * 2 ^ k \<and>
                      (\<forall>j<k. s * 2 ^ j < unat needed)
             else length (hn_copy_buf h') = unat needed)) \<and>
         (ok \<and> needed \<le> hn_copy_buf_cap h \<longrightarrow> h' = h)"
proof (intro conjI impI)
  assume ok
  with ensure_copy_buf_True [of os h needed h'] assms
  have "copy_buf_ok h'" "needed \<le> hn_copy_buf_cap h'" by auto
  then show "copy_buf_ok h'" "unat needed \<le> length (hn_copy_buf h')"
    by (simp_all add: copy_buf_ok_def word_le_nat_alt)
next
  assume ok
  then show "take (length (hn_copy_buf h)) (hn_copy_buf h') = hn_copy_buf h"
    using ensure_copy_buf_keeps [of os h needed h'] assms by simp
next
  assume "\<not> ok"
  with ensure_copy_buf_False [of os h needed h'] assms
  show "h' = h" "\<exists>n. \<not> os_realloc os [] n" by auto
next
  assume a: "ok \<and> hn_copy_buf_cap h < needed"
  with ensure_copy_buf_grown [of h os needed h'] assms
  show "length (hn_copy_buf h') < max 128 (2 * unat needed)"
    "if \<exists>k. unat needed \<le> s * 2 ^ k \<and> s * 2 ^ k < 2 ^ 32
     then \<exists>k. length (hn_copy_buf h') = s * 2 ^ k \<and> unat needed \<le> s * 2 ^ k \<and>
              (\<forall>j<k. s * 2 ^ j < unat needed)
     else length (hn_copy_buf h') = unat needed"
    by auto
next
  assume "ok \<and> needed \<le> hn_copy_buf_cap h"
  with assms(2) show "h' = h" by (simp add: reqrep_ensure_copy_buf_def)
qed

theorem ensure_copy_buf_correct_witness:
  "\<exists>(h :: ReqRepHandle) h'. hn_copy_buf_cap h = 0 \<and>
     reqrep_ensure_copy_buf quiet_os h 100 = (True, h') \<and> length (hn_copy_buf h') = 128"
proof -
  define h :: ReqRepHandle where
    "h = \<lparr>hn_req_slots = 256, hn_req_arena = 304, hn_resp_area = 4416, hn_mmap_size = 4480,
          hn_req_cap = 2, hn_req_cap_mask = 1, hn_req_arena_cap = 4096, hn_resp_slots = 1,
          hn_resp_data_max = 16, hn_resp_stride = 64, hn_copy_buf = [], hn_copy_buf_cap = 0,
          hn_path = None, hn_notify_fd = -1, hn_reply_fd = -1, hn_backing_fd = -1\<rparr>"
  have ok: "copy_buf_ok h" "hn_copy_buf_cap h = 0" by (simp_all add: copy_buf_ok_def h_def)
  obtain b h' where r: "reqrep_ensure_copy_buf quiet_os h 100 = (b, h')" by force
  from r ok(2) have b by (auto simp: reqrep_ensure_copy_buf_def quiet_os_def Let_def split: if_splits)
  have fit: "\<exists>k. (100::nat) \<le> 64 * 2 ^ k \<and> 64 * 2 ^ k < (2::nat) ^ 32"
    by (intro exI [of _ 1]) simp
  obtain k where k: "length (hn_copy_buf h') = 64 * 2 ^ k" "100 \<le> (64 * 2 ^ k :: nat)"
    "\<forall>j<k. (64 * 2 ^ j :: nat) < 100"
    using ensure_copy_buf_correct [OF ok(1) r] \<open>b\<close> ok(2) fit by auto
  have "k = 1"
  proof (rule ccontr)
    assume "k \<noteq> 1"
    then have "k = 0 \<or> 1 < k" by linarith
    with k(2,3) show False by auto
  qed
  with k(1) r ok(2) \<open>b\<close> show ?thesis by auto
qed

end
