(* ===== verification/RR_Lifecycle.thy ===== *)
theory RR_Lifecycle
  imports RR_Shm
begin

text \<open>
  Creating, opening and destroying a mapping (\<^verbatim>\<open>gen/reqrep.h\<close>, lines 374 to 713 for string mode
  and 1212 to 1342 for integer mode): the computation of the layout, the initial header, the
  validation of a header found in a file, and the order in which the file descriptor, the file
  lock and the mapping are acquired and given back on every path.

  The kernel's answers are the fields of a \<^verbatim>\<open>kern\<close>; each call the code makes on a resource is
  an entry of a log. The content of a new mapping is zero; the content of an existing file is
  the field \<open>k_file\<close>, seen through the structures like every mapping here.
\<close>

section \<open>Layout\<close>

record str_layout =
  sl_req_slots_off :: u32
  sl_req_arena_off :: u32
  sl_req_arena_cap :: u32
  sl_resp_off :: u32
  sl_resp_stride :: u32
  sl_total_size :: u64

definition UINT32_MAX :: u64 where [reqrep_consts]: "UINT32_MAX = 0xFFFFFFFF"

text \<open>\<^verbatim>\<open>sizeof\<close> of the four structures, as \<^verbatim>\<open>RR_Layout\<close> computes them (256, 24, 24 and 32).\<close>

definition sizeof_hdr :: u32 where [reqrep_consts]: "sizeof_hdr = 256"
definition sizeof_ReqSlot :: u64 where [reqrep_consts]: "sizeof_ReqSlot = 24"
definition sizeof_ReqIntSlot :: u64 where [reqrep_consts]: "sizeof_ReqIntSlot = 24"
definition sizeof_RespSlotHeader :: u32 where [reqrep_consts]: "sizeof_RespSlotHeader = 32"

lemma sizeof_constants:
  "unat sizeof_hdr = sizeof ReqRepHeader_struct" "unat sizeof_ReqSlot = sizeof ReqSlot_struct"
  "unat sizeof_ReqIntSlot = sizeof ReqIntSlot_struct"
  "unat sizeof_RespSlotHeader = sizeof RespSlotHeader_struct"
  by (simp_all add: reqrep_consts sizeof_structs)

text \<open>The stride is computed in 64 bits (\<^verbatim>\<open>sizeof\<close> has type \<^verbatim>\<open>size_t\<close>) except for the mask
  \<^verbatim>\<open>~63u\<close>, which zero-extends and so clears the upper half, and it is then stored in 32.\<close>

definition reqrep_compute_layout :: "u32 \<Rightarrow> u32 \<Rightarrow> u32 \<Rightarrow> u64 \<Rightarrow> str_layout option" where
  "reqrep_compute_layout req_cap resp_slots_n resp_data_max arena_hint =
     (let req_slots_off = sizeof_hdr;
          slots_end = (ucast req_slots_off :: u64) + ucast req_cap * sizeof_ReqSlot;
          req_arena_off_64 = (slots_end + 7) AND NOT 7
      in if req_arena_off_64 > UINT32_MAX then None
         else if arena_hint > UINT32_MAX then None
         else
           let req_arena_off = (ucast req_arena_off_64 :: u32);
               req_arena_cap = (let c = (ucast arena_hint :: u32) in if c < 4096 then 4096 else c);
               resp_stride = (ucast (((ucast sizeof_RespSlotHeader + ucast resp_data_max + 63) :: u64)
                                AND ucast (NOT 63 :: u32)) :: u32);
               resp_off_64 = ((ucast req_arena_off :: u64) + ucast req_arena_cap + 63) AND NOT 63
           in if resp_off_64 > UINT32_MAX then None
              else Some \<lparr>sl_req_slots_off = req_slots_off, sl_req_arena_off = req_arena_off,
                         sl_req_arena_cap = req_arena_cap, sl_resp_off = ucast resp_off_64,
                         sl_resp_stride = resp_stride,
                         sl_total_size = resp_off_64 + ucast resp_slots_n * ucast resp_stride\<rparr>)"

record int_layout =
  il_req_slots_off :: u32
  il_resp_off :: u32
  il_resp_stride :: u32
  il_total_size :: u64

definition reqrep_int_compute_layout :: "u32 \<Rightarrow> u32 \<Rightarrow> int_layout option" where
  "reqrep_int_compute_layout req_cap resp_slots_n =
     (let req_slots_off = sizeof_hdr;
          slots_end = (ucast req_slots_off :: u64) + ucast req_cap * sizeof_ReqIntSlot;
          resp_stride = (ucast (((ucast sizeof_RespSlotHeader + 8 + 63) :: u64)
                           AND ucast (NOT 63 :: u32)) :: u32);
          resp_off = (slots_end + 63) AND NOT 63
      in if resp_off > UINT32_MAX then None
         else Some \<lparr>il_req_slots_off = req_slots_off, il_resp_off = ucast resp_off,
                    il_resp_stride = resp_stride,
                    il_total_size = resp_off + ucast resp_slots_n * ucast resp_stride\<rparr>)"

section \<open>Initial content\<close>

definition zero_header :: ReqRepHeader where
  "zero_header = \<lparr>h_magic = 0, h_version = 0, h_mode = 0, h_req_cap = 0, h_total_size = 0,
     h_req_slots_off = 0, h_req_arena_off = 0, h_req_arena_cap = 0, h_resp_slots = 0,
     h_resp_data_max = 0, h_resp_off = 0, h_resp_stride = 0, h_req_head = 0, h_recv_waiters = 0,
     h_recv_futex = 0, h_req_tail = 0, h_send_waiters = 0, h_send_futex = 0, h_mutex = 0,
     h_mutex_waiters = 0, h_arena_wpos = 0, h_arena_used = 0, h_resp_hint = 0,
     h_stat_recoveries = 0, h_slot_futex = 0, h_slot_waiters = 0, h_stat_requests = 0,
     h_stat_replies = 0, h_stat_send_full = 0, h_stat_recv_empty = 0\<rparr>"

text \<open>\<^verbatim>\<open>memset(rs, 0, sizeof(RespSlotHeader))\<close> leaves the data bytes alone.\<close>

definition clear_resp_header :: "RespSlot \<Rightarrow> RespSlot" where
  "clear_resp_header s = s\<lparr>rs_state := 0, rs_waiters := 0, rs_owner_pid := 0, rs_resp_len := 0,
     rs_resp_flags := 0, rs_generation := 0\<rparr>"

definition reqrep_init_header ::
  "u32 \<Rightarrow> u32 \<Rightarrow> u32 \<Rightarrow> u64 \<Rightarrow> u32 \<Rightarrow> u32 \<Rightarrow> u32 \<Rightarrow> u32 \<Rightarrow> u32 \<Rightarrow> shm \<Rightarrow> shm" where
  "reqrep_init_header req_cap resp_slots_n resp_data_max total_size req_slots_off req_arena_off
      req_arena_cap resp_off resp_stride base =
     base\<lparr>hdr := zero_header\<lparr>h_magic := REQREP_MAGIC, h_version := REQREP_VERSION,
            h_mode := REQREP_MODE_STR, h_req_cap := req_cap, h_total_size := total_size,
            h_req_slots_off := req_slots_off, h_req_arena_off := req_arena_off,
            h_req_arena_cap := req_arena_cap, h_resp_slots := resp_slots_n,
            h_resp_data_max := resp_data_max, h_resp_off := resp_off,
            h_resp_stride := resp_stride\<rparr>,
          resp_area := map clear_resp_header (take (unat resp_slots_n) (resp_area base)) @
                       drop (unat resp_slots_n) (resp_area base)\<rparr>"

definition reqrep_int_init_header ::
  "u32 \<Rightarrow> u32 \<Rightarrow> u64 \<Rightarrow> u32 \<Rightarrow> u32 \<Rightarrow> u32 \<Rightarrow> shm \<Rightarrow> shm" where
  "reqrep_int_init_header req_cap resp_slots_n total_size req_slots_off resp_off resp_stride base =
     base\<lparr>hdr := zero_header\<lparr>h_magic := REQREP_MAGIC, h_version := REQREP_VERSION,
            h_mode := REQREP_MODE_INT, h_req_cap := req_cap, h_total_size := total_size,
            h_req_slots_off := req_slots_off, h_resp_slots := resp_slots_n,
            h_resp_data_max := 8, h_resp_off := resp_off, h_resp_stride := resp_stride\<rparr>,
          int_slots := map (\<lambda>i. (int_slots base ! i)\<lparr>ri_sequence := of_nat i\<rparr>) [0..<unat req_cap] @
                       drop (unat req_cap) (int_slots base),
          resp_area := map clear_resp_header (take (unat resp_slots_n) (resp_area base)) @
                       drop (unat resp_slots_n) (resp_area base)\<rparr>"

text \<open>A new mapping, all zero, seen through the layout that was just computed for it.\<close>

definition zero_resp_slot :: "u32 \<Rightarrow> RespSlot" where
  "zero_resp_slot stride = \<lparr>rs_state = 0, rs_waiters = 0, rs_owner_pid = 0, rs_resp_len = 0,
     rs_resp_flags = 0, rs_generation = 0, rs_data = replicate (unat stride - 32) 0\<rparr>"

definition zero_str_mapping :: "u32 \<Rightarrow> u32 \<Rightarrow> str_layout \<Rightarrow> shm" where
  "zero_str_mapping req_cap resp_slots_n l =
     \<lparr>hdr = zero_header,
      req_slots = replicate (unat req_cap) \<lparr>rq_arena_off = 0, rq_packed_len = 0,
        rq_arena_skip = 0, rq_resp_slot = 0, rq_resp_gen = 0\<rparr>,
      int_slots = [], req_arena = replicate (unat (sl_req_arena_cap l)) 0,
      resp_area = replicate (unat resp_slots_n) (zero_resp_slot (sl_resp_stride l)),
      kcalls = []\<rparr>"

definition zero_int_mapping :: "u32 \<Rightarrow> u32 \<Rightarrow> int_layout \<Rightarrow> shm" where
  "zero_int_mapping req_cap resp_slots_n l =
     \<lparr>hdr = zero_header, req_slots = [],
      int_slots = replicate (unat req_cap) \<lparr>ri_sequence = 0, ri_value = 0, ri_resp_slot = 0,
        ri_resp_gen = 0\<rparr>,
      req_arena = [],
      resp_area = replicate (unat resp_slots_n) (zero_resp_slot (il_resp_stride l)),
      kcalls = []\<rparr>"

section \<open>Validation\<close>

definition reqrep_validate_header :: "ReqRepHeader \<Rightarrow> u64 \<Rightarrow> u32 \<Rightarrow> bool" where
  "reqrep_validate_header h file_size expected_mode =
     (if h_magic h \<noteq> REQREP_MAGIC then False
      else if h_version h \<noteq> REQREP_VERSION then False
      else if h_mode h \<noteq> expected_mode then False
      else if h_req_cap h = 0 \<or> (h_req_cap h AND (h_req_cap h - 1)) \<noteq> 0 then False
      else if h_total_size h \<noteq> file_size then False
      else if h_req_slots_off h \<noteq> sizeof_hdr then False
      else if h_resp_slots h = 0 then False
      else if h_resp_stride h < sizeof_RespSlotHeader then False
      else
        let req_slot_size = (if expected_mode = REQREP_MODE_STR
                             then sizeof_ReqSlot else sizeof_ReqIntSlot);
            req_slots_end = (ucast (h_req_slots_off h) :: u64) + ucast (h_req_cap h) * req_slot_size
        in if req_slots_end > h_total_size h then False
           else if expected_mode = REQREP_MODE_STR \<and> ucast (h_req_arena_off h) < req_slots_end
           then False
           else if expected_mode = REQREP_MODE_STR \<and>
             (ucast (h_req_arena_off h) :: u64) + ucast (h_req_arena_cap h) > h_total_size h
           then False
           else if expected_mode = REQREP_MODE_STR \<and>
             ucast (h_resp_off h) < (ucast (h_req_arena_off h) :: u64) + ucast (h_req_arena_cap h)
           then False
           else if ucast (h_resp_off h) < req_slots_end then False
           else if (ucast (h_resp_off h) :: u64) + ucast (h_resp_slots h) * ucast (h_resp_stride h)
                     > h_total_size h then False
           else True)"

section \<open>Acquiring and releasing\<close>

datatype sysev =
    Open int | LockEx int | Unlock int | Ftruncate int u64 | Mmap u64 | Munmap u64
  | CloseF int | MemfdCreate int | AddSeals int | DupFd int | WriteMapping shm
  | EventfdCreate int | WriteFd int u64 | ReadFd int | Msync u64

datatype create_error =
    InvalidReqCap | NoRespSlots | LayoutOverflow | PathRequired | OpenFailed | FlockFailed
  | FstatFailed | FileTooSmall | FtruncateFailed | MmapFailed | InvalidFile | MemfdFailed
  | DupFailed | OutOfMemory

record kern =
  k_open :: int
  k_memfd :: int
  k_flock :: bool
  k_fstat :: "u64 option"
  k_ftruncate :: bool
  k_mmap :: bool
  k_dupfd :: int
  k_calloc :: bool
  k_strdup :: bool
  k_file :: shm

type_synonym created = "(create_error + ReqRepHandle \<times> shm) \<times> sysev list"

definition reqrep_setup_handle ::
  "kern \<Rightarrow> shm \<Rightarrow> u64 \<Rightarrow> string option \<Rightarrow> int \<Rightarrow> ReqRepHandle option" where
  "reqrep_setup_handle k base map_size path backing_fd =
     (if \<not> k_calloc k then None
      else Some \<lparr>hn_req_slots = ucast (h_req_slots_off (hdr base)),
        hn_req_arena = ucast (h_req_arena_off (hdr base)),
        hn_resp_area = ucast (h_resp_off (hdr base)), hn_mmap_size = map_size,
        hn_req_cap = h_req_cap (hdr base), hn_req_cap_mask = h_req_cap (hdr base) - 1,
        hn_req_arena_cap = h_req_arena_cap (hdr base), hn_resp_slots = h_resp_slots (hdr base),
        hn_resp_data_max = h_resp_data_max (hdr base), hn_resp_stride = h_resp_stride (hdr base),
        hn_copy_buf = [], hn_copy_buf_cap = 0,
        hn_path = (if k_strdup k then path else None),
        hn_notify_fd = -1, hn_reply_fd = -1, hn_backing_fd = backing_fd\<rparr>)"

text \<open>The common last step of the functions: \<open>undo\<close> is what the caller does when there is no
  memory for the handle (the integer-mode functions do nothing).\<close>

definition finish_handle ::
  "kern \<Rightarrow> shm \<Rightarrow> u64 \<Rightarrow> string option \<Rightarrow> int \<Rightarrow> sysev list \<Rightarrow> sysev list \<Rightarrow> created" where
  "finish_handle k base map_size path backing_fd evs undo =
     (case reqrep_setup_handle k base map_size path backing_fd of
        None \<Rightarrow> (Inl OutOfMemory, evs @ undo)
      | Some h \<Rightarrow> (Inr (h, base), evs))"

text \<open>Opening, locking and measuring the file: lines 519 to 531 (string mode) and 1282 to 1286
  (integer mode), and lines 582 to 594 of \<^verbatim>\<open>reqrep_open\<close>. The continuation runs with the
  descriptor locked and receives the size of the file.\<close>

definition with_locked_file :: "kern \<Rightarrow> (int \<Rightarrow> u64 \<Rightarrow> created) \<Rightarrow> created" where
  "with_locked_file k cont =
     (let fd = k_open k in
      if fd < 0 then (Inl OpenFailed, [])
      else if \<not> k_flock k then (Inl FlockFailed, [Open fd, CloseF fd])
      else case k_fstat k of
             None \<Rightarrow> (Inl FstatFailed, [Open fd, LockEx fd, Unlock fd, CloseF fd])
           | Some st_size \<Rightarrow> cont fd st_size)"

text \<open>The file-backed branch both create functions share (lines 533 to 571 and 1287 to 1308):
  \<open>mode\<close>, the total size, the initialised content and the undo list are what they differ in.\<close>

definition create_in_file ::
  "kern \<Rightarrow> string \<Rightarrow> u32 \<Rightarrow> u64 \<Rightarrow> shm \<Rightarrow> (u64 \<Rightarrow> sysev list) \<Rightarrow> created" where
  "create_in_file k path mode total_size fresh undo =
     with_locked_file k (\<lambda>fd st_size.
       let is_new = (st_size = 0) in
       if \<not> is_new \<and> st_size < ucast sizeof_hdr
       then (Inl FileTooSmall, [Open fd, LockEx fd, Unlock fd, CloseF fd])
       else if is_new \<and> \<not> k_ftruncate k
       then (Inl FtruncateFailed, [Open fd, LockEx fd, Unlock fd, CloseF fd])
       else
         let map_size = (if is_new then total_size else st_size);
             evs = [Open fd, LockEx fd] @ (if is_new then [Ftruncate fd total_size] else [])
         in if \<not> k_mmap k then (Inl MmapFailed, evs @ [Unlock fd, CloseF fd])
            else if \<not> is_new
            then if \<not> reqrep_validate_header (hdr (k_file k)) st_size mode
                 then (Inl InvalidFile,
                       evs @ [Mmap map_size, Munmap map_size, Unlock fd, CloseF fd])
                 else finish_handle k (k_file k) map_size (Some path) (-1)
                        (evs @ [Mmap map_size, Unlock fd, CloseF fd]) (undo map_size)
            else finish_handle k fresh map_size (Some path) (-1)
                   (evs @ [Mmap map_size, WriteMapping fresh, Unlock fd, CloseF fd])
                   (undo map_size))"

text \<open>The content of a new string-mode mapping.\<close>

definition fresh_str :: "u32 \<Rightarrow> u32 \<Rightarrow> u32 \<Rightarrow> str_layout \<Rightarrow> shm" where
  "fresh_str req_cap resp_slots_n resp_data_max l =
     reqrep_init_header req_cap resp_slots_n resp_data_max (sl_total_size l) (sl_req_slots_off l)
       (sl_req_arena_off l) (sl_req_arena_cap l) (sl_resp_off l) (sl_resp_stride l)
       (zero_str_mapping req_cap resp_slots_n l)"

definition reqrep_create ::
  "kern \<Rightarrow> string option \<Rightarrow> u32 \<Rightarrow> u32 \<Rightarrow> u32 \<Rightarrow> u64 \<Rightarrow> created" where
  "reqrep_create k path req_cap0 resp_slots_n resp_data_max arena_hint0 =
     (let req_cap = reqrep_next_pow2 req_cap0 in
      if req_cap = 0 then (Inl InvalidReqCap, [])
      else if resp_slots_n = 0 then (Inl NoRespSlots, [])
      else
        let arena_hint = (if arena_hint0 = 0 then ucast req_cap * 256 else arena_hint0) in
        case reqrep_compute_layout req_cap resp_slots_n resp_data_max arena_hint of
          None \<Rightarrow> (Inl LayoutOverflow, [])
        | Some l \<Rightarrow>
            let fresh = fresh_str req_cap resp_slots_n resp_data_max l;
                total_size = sl_total_size l
            in case path of
                 None \<Rightarrow>
                   if \<not> k_mmap k then (Inl MmapFailed, [])
                   else finish_handle k fresh total_size None (-1)
                          [Mmap total_size, WriteMapping fresh] [Munmap total_size]
               | Some p \<Rightarrow>
                   create_in_file k p REQREP_MODE_STR total_size fresh (\<lambda>m. [Munmap m]))"

definition reqrep_open :: "kern \<Rightarrow> string option \<Rightarrow> u32 \<Rightarrow> created" where
  "reqrep_open k path mode =
     (case path of None \<Rightarrow> (Inl PathRequired, [])
      | Some p \<Rightarrow>
          with_locked_file k (\<lambda>fd st_size.
            if st_size < ucast sizeof_hdr
            then (Inl FileTooSmall, [Open fd, LockEx fd, Unlock fd, CloseF fd])
            else if \<not> k_mmap k
            then (Inl MmapFailed, [Open fd, LockEx fd, Unlock fd, CloseF fd])
            else if \<not> reqrep_validate_header (hdr (k_file k)) st_size mode
            then (Inl InvalidFile,
                  [Open fd, LockEx fd, Mmap st_size, Munmap st_size, Unlock fd, CloseF fd])
            else finish_handle k (k_file k) st_size (Some p) (-1)
                   [Open fd, LockEx fd, Mmap st_size, Unlock fd, CloseF fd] [Munmap st_size]))"

definition reqrep_create_memfd ::
  "kern \<Rightarrow> u32 \<Rightarrow> u32 \<Rightarrow> u32 \<Rightarrow> u64 \<Rightarrow> created" where
  "reqrep_create_memfd k req_cap0 resp_slots_n resp_data_max arena_hint0 =
     (let req_cap = reqrep_next_pow2 req_cap0 in
      if req_cap = 0 then (Inl InvalidReqCap, [])
      else if resp_slots_n = 0 then (Inl NoRespSlots, [])
      else
        let arena_hint = (if arena_hint0 = 0 then ucast req_cap * 256 else arena_hint0) in
        case reqrep_compute_layout req_cap resp_slots_n resp_data_max arena_hint of
          None \<Rightarrow> (Inl LayoutOverflow, [])
        | Some l \<Rightarrow>
            let fresh = fresh_str req_cap resp_slots_n resp_data_max l;
                total_size = sl_total_size l; fd = k_memfd k
            in if fd < 0 then (Inl MemfdFailed, [])
               else if \<not> k_ftruncate k then (Inl FtruncateFailed, [MemfdCreate fd, CloseF fd])
               else if \<not> k_mmap k
               then (Inl MmapFailed,
                     [MemfdCreate fd, Ftruncate fd total_size, AddSeals fd, CloseF fd])
               else finish_handle k fresh total_size None fd
                      [MemfdCreate fd, Ftruncate fd total_size, AddSeals fd, Mmap total_size,
                       WriteMapping fresh] [Munmap total_size, CloseF fd])"

definition reqrep_open_fd :: "kern \<Rightarrow> int \<Rightarrow> u32 \<Rightarrow> created" where
  "reqrep_open_fd k fd mode =
     (case k_fstat k of
        None \<Rightarrow> (Inl FstatFailed, [])
      | Some st_size \<Rightarrow>
          if st_size < ucast sizeof_hdr then (Inl FileTooSmall, [])
          else if \<not> k_mmap k then (Inl MmapFailed, [])
          else if \<not> reqrep_validate_header (hdr (k_file k)) st_size mode
          then (Inl InvalidFile, [Mmap st_size, Munmap st_size])
          else let myfd = k_dupfd k in
            if myfd < 0 then (Inl DupFailed, [Mmap st_size, Munmap st_size])
            else finish_handle k (k_file k) st_size None myfd [Mmap st_size, DupFd myfd]
                   [Munmap st_size, CloseF myfd])"

text \<open>The content of a new integer-mode mapping.\<close>

definition fresh_int :: "u32 \<Rightarrow> u32 \<Rightarrow> int_layout \<Rightarrow> shm" where
  "fresh_int req_cap resp_slots_n l =
     reqrep_int_init_header req_cap resp_slots_n (il_total_size l) (il_req_slots_off l)
       (il_resp_off l) (il_resp_stride l) (zero_int_mapping req_cap resp_slots_n l)"

definition reqrep_create_int :: "kern \<Rightarrow> string option \<Rightarrow> u32 \<Rightarrow> u32 \<Rightarrow> created" where
  "reqrep_create_int k path req_cap0 resp_slots_n =
     (let req_cap = reqrep_next_pow2 req_cap0 in
      if req_cap = 0 then (Inl InvalidReqCap, [])
      else if resp_slots_n = 0 then (Inl NoRespSlots, [])
      else case reqrep_int_compute_layout req_cap resp_slots_n of
          None \<Rightarrow> (Inl LayoutOverflow, [])
        | Some l \<Rightarrow>
            let fresh = fresh_int req_cap resp_slots_n l; total_size = il_total_size l
            in case path of
                 None \<Rightarrow>
                   if \<not> k_mmap k then (Inl MmapFailed, [])
                   else finish_handle k fresh total_size None (-1)
                          [Mmap total_size, WriteMapping fresh] []
               | Some p \<Rightarrow> create_in_file k p REQREP_MODE_INT total_size fresh (\<lambda>m. []))"

definition reqrep_create_int_memfd :: "kern \<Rightarrow> u32 \<Rightarrow> u32 \<Rightarrow> created" where
  "reqrep_create_int_memfd k req_cap0 resp_slots_n =
     (let req_cap = reqrep_next_pow2 req_cap0 in
      if req_cap = 0 then (Inl InvalidReqCap, [])
      else if resp_slots_n = 0 then (Inl NoRespSlots, [])
      else case reqrep_int_compute_layout req_cap resp_slots_n of
          None \<Rightarrow> (Inl LayoutOverflow, [])
        | Some l \<Rightarrow>
            let fresh = fresh_int req_cap resp_slots_n l; total_size = il_total_size l;
                fd = k_memfd k
            in if fd < 0 then (Inl MemfdFailed, [])
               else if \<not> k_ftruncate k then (Inl FtruncateFailed, [MemfdCreate fd, CloseF fd])
               else if \<not> k_mmap k
               then (Inl MmapFailed,
                     [MemfdCreate fd, Ftruncate fd total_size, AddSeals fd, CloseF fd])
               else finish_handle k fresh total_size None fd
                      [MemfdCreate fd, Ftruncate fd total_size, AddSeals fd, Mmap total_size,
                       WriteMapping fresh] [])"

definition reqrep_destroy :: "ReqRepHandle option \<Rightarrow> sysev list" where
  "reqrep_destroy ho =
     (case ho of None \<Rightarrow> []
      | Some h \<Rightarrow> (if hn_notify_fd h \<ge> 0 then [CloseF (hn_notify_fd h)] else []) @
          (if hn_reply_fd h \<ge> 0 then [CloseF (hn_reply_fd h)] else []) @
          (if hn_backing_fd h \<ge> 0 then [CloseF (hn_backing_fd h)] else []) @
          [Munmap (hn_mmap_size h)])"

section \<open>What a log leaves held\<close>

text \<open>Descriptors, mappings and file locks held after the calls of a log; \<^term>\<open>None\<close> if one of
  them is given back, read or written without being held. The descriptors are a set, as the
  descriptor table of a process is: a number held twice over is still given back by the first
  \<^verbatim>\<open>close\<close>.\<close>

record held =
  fds :: "int list"
  maps :: "u64 list"
  locks :: "int list"

fun hold :: "sysev \<Rightarrow> held \<Rightarrow> held option" where
  "hold (Open fd) s = Some (s\<lparr>fds := List.insert fd (fds s)\<rparr>)"
| "hold (MemfdCreate fd) s = Some (s\<lparr>fds := List.insert fd (fds s)\<rparr>)"
| "hold (DupFd fd) s = Some (s\<lparr>fds := List.insert fd (fds s)\<rparr>)"
| "hold (EventfdCreate fd) s = Some (s\<lparr>fds := List.insert fd (fds s)\<rparr>)"
| "hold (WriteFd fd v) s = (if fd \<in> set (fds s) then Some s else None)"
| "hold (ReadFd fd) s = (if fd \<in> set (fds s) then Some s else None)"
| "hold (CloseF fd) s =
     (if fd \<in> set (fds s) then Some (s\<lparr>fds := remove1 fd (fds s)\<rparr>) else None)"
| "hold (Mmap n) s = Some (s\<lparr>maps := n # maps s\<rparr>)"
| "hold (Munmap n) s =
     (if n \<in> set (maps s) then Some (s\<lparr>maps := remove1 n (maps s)\<rparr>) else None)"
| "hold (LockEx fd) s = Some (s\<lparr>locks := fd # locks s\<rparr>)"
| "hold (Unlock fd) s =
     (if fd \<in> set (locks s) then Some (s\<lparr>locks := remove1 fd (locks s)\<rparr>) else None)"
| "hold _ s = Some s"

fun hold_all :: "sysev list \<Rightarrow> held \<Rightarrow> held option" where
  "hold_all [] s = Some s"
| "hold_all (e # es) s = (case hold e s of None \<Rightarrow> None | Some t \<Rightarrow> hold_all es t)"

abbreviation nothing_held :: held where
  "nothing_held \<equiv> \<lparr>fds = [], maps = [], locks = []\<rparr>"

text \<open>What a result may hold: nothing for an error, the mapping and the backing descriptor for
  a handle.\<close>

definition owned :: "create_error + ReqRepHandle \<times> shm \<Rightarrow> held" where
  "owned r = (case r of Inl _ \<Rightarrow> nothing_held
     | Inr (h, w) \<Rightarrow> \<lparr>fds = (if hn_backing_fd h \<ge> 0 then [hn_backing_fd h] else []),
                     maps = [hn_mmap_size h], locks = []\<rparr>)"

definition clean :: "created \<Rightarrow> bool" where
  "clean c \<longleftrightarrow> hold_all (snd c) nothing_held = Some (owned (fst c))"

lemma finish_handle_clean:
  assumes "hold_all evs nothing_held =
      Some \<lparr>fds = (if fd \<ge> 0 then [fd] else []), maps = [n], locks = []\<rparr>"
    and "hold_all (evs @ undo) nothing_held = Some nothing_held"
  shows "clean (finish_handle k base n path fd evs undo)"
  using assms by (auto simp: finish_handle_def reqrep_setup_handle_def clean_def owned_def)

lemma clean_create_in_file: "clean (create_in_file k p mode n fresh (\<lambda>m. [Munmap m]))"
  by (auto simp: create_in_file_def with_locked_file_def Let_def clean_def [of "(_, _)"] owned_def
      split: option.splits intro!: finish_handle_clean)

lemma clean_create: "clean (reqrep_create k path req_cap resp_slots_n resp_data_max arena_hint)"
  by (auto simp: reqrep_create_def Let_def clean_def [of "(_, _)"] owned_def
      split: option.splits intro!: finish_handle_clean clean_create_in_file)

lemma clean_open: "clean (reqrep_open k path mode)"
  by (auto simp: reqrep_open_def with_locked_file_def Let_def clean_def [of "(_, _)"] owned_def
      split: option.splits intro!: finish_handle_clean)

lemma clean_create_memfd:
  "clean (reqrep_create_memfd k req_cap resp_slots_n resp_data_max arena_hint)"
  by (auto simp: reqrep_create_memfd_def Let_def clean_def [of "(_, _)"] owned_def
      split: option.splits intro!: finish_handle_clean)

lemma clean_open_fd: "clean (reqrep_open_fd k fd mode)"
  by (auto simp: reqrep_open_fd_def Let_def clean_def [of "(_, _)"] owned_def
      split: option.splits intro!: finish_handle_clean)

text \<open>
  Property C25. Whatever the kernel answers, the functions that create or open a string-mode
  mapping, and those that open either mode, give back every descriptor, file lock and mapping
  they acquired when they fail, and hold exactly the mapping and the backing descriptor of the
  handle when they succeed; the file lock is never kept.
\<close>

theorem lifecycle_no_leak:
  "clean (reqrep_create k path req_cap resp_slots_n resp_data_max arena_hint) \<and>
   clean (reqrep_open k path mode) \<and>
   clean (reqrep_create_memfd k req_cap resp_slots_n resp_data_max arena_hint) \<and>
   clean (reqrep_open_fd k fd mode)"
  using clean_create clean_open clean_create_memfd clean_open_fd by blast

lemma finish_handle_no_undo:
  assumes "hold_all evs nothing_held =
      Some \<lparr>fds = (if fd \<ge> 0 then [fd] else []), maps = [n], locks = []\<rparr>"
  shows "clean (finish_handle k base n path fd evs []) \<longleftrightarrow>
         fst (finish_handle k base n path fd evs []) \<noteq> Inl OutOfMemory"
  using assms by (auto simp: finish_handle_def reqrep_setup_handle_def clean_def owned_def)

lemma clean_int_in_file:
  "clean (create_in_file k p mode n fresh (\<lambda>m. [])) \<longleftrightarrow>
   fst (create_in_file k p mode n fresh (\<lambda>m. [])) \<noteq> Inl OutOfMemory"
  by (auto simp: create_in_file_def with_locked_file_def Let_def finish_handle_no_undo
      clean_def [of "(_, _)"] owned_def split: option.splits)

lemma clean_create_int:
  "clean (reqrep_create_int k path req_cap resp_slots_n) \<longleftrightarrow>
   fst (reqrep_create_int k path req_cap resp_slots_n) \<noteq> Inl OutOfMemory"
  by (auto simp: reqrep_create_int_def Let_def finish_handle_no_undo clean_int_in_file
      clean_def [of "(_, _)"] owned_def split: option.splits)

lemma clean_create_int_memfd:
  "clean (reqrep_create_int_memfd k req_cap resp_slots_n) \<longleftrightarrow>
   fst (reqrep_create_int_memfd k req_cap resp_slots_n) \<noteq> Inl OutOfMemory"
  by (auto simp: reqrep_create_int_memfd_def Let_def finish_handle_no_undo
      clean_def [of "(_, _)"] owned_def split: option.splits)

text \<open>
  Property C36. The two functions that create an integer-mode mapping return the result of
  \<^verbatim>\<open>reqrep_setup_handle\<close> without looking at it: they give everything back on every failure
  but one, and when there is no memory for the handle the mapping (and the memfd) stays behind,
  although the caller receives NULL and can never release it.
\<close>

theorem create_int_leaks_on_oom:
  "(clean (reqrep_create_int k path req_cap resp_slots_n) \<longleftrightarrow>
      fst (reqrep_create_int k path req_cap resp_slots_n) \<noteq> Inl OutOfMemory) \<and>
   (clean (reqrep_create_int_memfd k req_cap resp_slots_n) \<longleftrightarrow>
      fst (reqrep_create_int_memfd k req_cap resp_slots_n) \<noteq> Inl OutOfMemory)"
  using clean_create_int clean_create_int_memfd by blast

text \<open>The six ways to make a handle; a new handle has no event descriptor.\<close>

inductive made :: "created \<Rightarrow> bool" where
  "made (reqrep_create k path c n d hint)"
| "made (reqrep_open k path mode)"
| "made (reqrep_create_memfd k c n d hint)"
| "made (reqrep_open_fd k fd mode)"
| "made (reqrep_create_int k path c n)"
| "made (reqrep_create_int_memfd k c n)"

lemma finish_handle_no_events:
  "finish_handle k base n path fd evs undo = (Inr (h, w), evs') \<Longrightarrow>
   hn_notify_fd h = -1 \<and> hn_reply_fd h = -1"
  by (auto simp: finish_handle_def reqrep_setup_handle_def split: if_splits)

lemma made_clean: "made c \<Longrightarrow> c = (Inr (h, w), evs) \<Longrightarrow> clean c"
  by (induction rule: made.induct)
    (metis clean_create clean_open clean_create_memfd clean_open_fd clean_create_int
      clean_create_int_memfd fst_conv sum.distinct(1))+

lemma made_no_events:
  assumes "made c" "c = (Inr (h, w), evs)"
  shows "hn_notify_fd h = -1 \<and> hn_reply_fd h = -1"
  using assms
  by cases
    (auto simp: reqrep_create_def reqrep_open_def reqrep_create_memfd_def reqrep_open_fd_def
      reqrep_create_int_def reqrep_create_int_memfd_def create_in_file_def with_locked_file_def
      Let_def split: if_splits option.splits dest: finish_handle_no_events)

section \<open>Correctness of the layout\<close>

lemma unat_mult_24:
  "unat ((256 :: u64) + ucast (c :: u32) * 24) = 256 + unat c * 24"
proof -
  have "unat (ucast c * 24 :: u64) = unat c * 24"
    using unat_lt_32 [of c] by (simp add: unat_word_ariths unat_ucast_32_64)
  then show ?thesis using unat_lt_32 [of c] by (simp add: unat_word_ariths)
qed

lemma unat_mult_ucast:
  "unat ((ucast (a :: u32) :: u64) * ucast (b :: u32)) = unat a * unat b"
proof -
  have "unat a * unat b \<le> 4294967295 * 4294967295"
    using unat_lt_32 [of a] unat_lt_32 [of b] by (intro mult_le_mono) simp_all
  then show ?thesis by (simp add: unat_word_ariths unat_ucast_32_64)
qed

lemma unat_add_mult_ucast:
  "unat ((ucast (o' :: u32) :: u64) + ucast (a :: u32) * ucast (b :: u32)) = unat o' + unat a * unat b"
proof -
  have "unat a * unat b \<le> 4294967295 * 4294967295"
    using unat_lt_32 [of a] unat_lt_32 [of b] by (intro mult_le_mono) simp_all
  then have "unat o' + unat a * unat b < 18446744073709551616"
    using unat_lt_32 [of o'] by simp
  then show ?thesis using unat_mult_ucast [of a b]
    by (simp add: unat_word_ariths unat_ucast_32_64)
qed

lemma ucast_u32_of_small: "(x :: u64) \<le> UINT32_MAX \<Longrightarrow> (ucast (ucast x :: u32) :: u64) = x"
proof -
  assume "x \<le> UINT32_MAX"
  then have "unat x < 4294967296" by (simp add: reqrep_consts word_le_nat_alt)
  then show ?thesis by (simp add: word_unat_eq_iff unat_ucast_32_64 unat_ucast_64_32)
qed

text \<open>The stride, over the numbers: 32 bits of the rounded slot size.\<close>

lemma unat_resp_stride:
  "unat (ucast (((ucast sizeof_RespSlotHeader + ucast (d :: u32) + 63) :: u64)
       AND ucast (NOT 63 :: u32)) :: u32) = round_up 64 (32 + unat d) mod 4294967296"
proof -
  let ?x = "ucast sizeof_RespSlotHeader + ucast d + 63 :: u64"
  have m: "(63 :: u64) = mask 6" "(63 :: u32) = mask 6" by (simp_all add: mask_eq_exp_minus_1)
  have "(ucast (?x AND ucast (NOT 63 :: u32)) :: u32) = ucast (?x AND NOT 63)"
    unfolding m by (rule bit_word_eqI) (auto simp: bit_simps)
  moreover have x: "unat (ucast sizeof_RespSlotHeader + ucast d :: u64) = 32 + unat d"
    using unat_add_ucast [of sizeof_RespSlotHeader d] by (simp add: reqrep_consts)
  moreover have "unat (?x AND NOT 63) = round_up 64 (32 + unat d)"
  proof -
    have "unat ((ucast sizeof_RespSlotHeader + ucast d + mask 6 :: u64) AND NOT (mask 6)) =
        round_up (2 ^ 6) (unat (ucast sizeof_RespSlotHeader + ucast d :: u64))"
      using unat_lt_32 [of d] by (intro unat_align_up) (simp_all add: x)
    then show ?thesis by (simp add: x m)
  qed
  ultimately show ?thesis by (simp add: unat_ucast_64_32)
qed

text \<open>A word whose \<^verbatim>\<open>x & (x - 1)\<close> is 0 is a power of two.\<close>

lemma pow2_test:
  assumes "x \<noteq> 0" "x AND (x - 1) = (0 :: u32)"
  shows "\<exists>k\<le>31. unat x = 2 ^ k"
proof -
  obtain k where k: "2 ^ k \<le> unat x" "unat x < 2 ^ Suc k"
    using ex_power_ivl1 [of 2 "unat x"] assms(1) by (auto simp: Suc_le_eq unat_gt_0)
  have k31: "k \<le> 31"
  proof (rule ccontr)
    assume "\<not> k \<le> 31"
    then have "(2::nat) ^ 32 \<le> 2 ^ k" by (intro power_increasing) auto
    with k(1) unat_lt_32 [of x] show False by simp
  qed
  have b: "bit y k" if "2 ^ k \<le> unat y" "unat y < 2 ^ Suc k" for y :: u32
  proof -
    have "unat y div 2 ^ k = 1" using that by (intro div_nat_eqI) auto
    then have "bit (unat y) k" by (simp add: bit_nat_def)
    then show ?thesis by (simp add: bit_unsigned_iff)
  qed
  have "unat x = 2 ^ k"
  proof (rule ccontr)
    assume "unat x \<noteq> 2 ^ k"
    then have "2 ^ k \<le> unat (x - 1)" "unat (x - 1) < 2 ^ Suc k"
      using k assms(1) by (auto simp: unat_minus_one)
    then have "bit (x AND (x - 1)) k" using b k by (simp add: bit_and_iff)
    with assms(2) show False by simp
  qed
  with k31 show ?thesis by blast
qed

text \<open>The regions of a mapping as offset and size, in bytes.\<close>

definition str_regions :: "ReqRepHeader \<Rightarrow> (nat \<times> nat) list" where
  "str_regions h = [(0, 256), (unat (h_req_slots_off h), unat (h_req_cap h) * 24),
     (unat (h_req_arena_off h), unat (h_req_arena_cap h)),
     (unat (h_resp_off h), unat (h_resp_slots h) * unat (h_resp_stride h))]"

definition int_regions :: "ReqRepHeader \<Rightarrow> (nat \<times> nat) list" where
  "int_regions h = [(0, 256), (unat (h_req_slots_off h), unat (h_req_cap h) * 24),
     (unat (h_resp_off h), unat (h_resp_slots h) * unat (h_resp_stride h))]"

text \<open>Regions in ascending order, none overlapping the next, the last within the mapping.\<close>

fun stacked :: "nat \<Rightarrow> (nat \<times> nat) list \<Rightarrow> nat \<Rightarrow> bool" where
  "stacked start [] sz \<longleftrightarrow> start \<le> sz"
| "stacked start ((off, n) # rs) sz \<longleftrightarrow> start \<le> off \<and> stacked (off + n) rs sz"

lemmas layout_nat = word_less_nat_alt word_le_nat_alt unat_mult_24 unat_add_mult_ucast
  unat_add_ucast unat_ucast_32_64

lemma validate_header_facts:
  assumes "reqrep_validate_header h fsize mode"
  shows "h_mode h = mode \<and> (\<exists>k\<le>31. unat (h_req_cap h) = 2 ^ k) \<and> 0 < unat (h_resp_slots h) \<and>
         32 \<le> unat (h_resp_stride h) \<and> h_req_slots_off h = 256 \<and>
         stacked 0 (if mode = REQREP_MODE_STR then str_regions h else int_regions h) (unat fsize)"
proof -
  have *: "h_mode h = mode" "h_req_cap h \<noteq> 0" "h_req_cap h AND (h_req_cap h - 1) = 0"
    "h_total_size h = fsize" "h_req_slots_off h = sizeof_hdr" "h_resp_slots h \<noteq> 0"
    "\<not> h_resp_stride h < sizeof_RespSlotHeader"
    "\<not> fsize < 256 + ucast (h_req_cap h) * 24"
    "mode = REQREP_MODE_STR \<longrightarrow> \<not> ucast (h_req_arena_off h) < (256 :: u64) + ucast (h_req_cap h) * 24"
    "mode = REQREP_MODE_STR \<longrightarrow>
       \<not> ucast (h_resp_off h) < (ucast (h_req_arena_off h) :: u64) + ucast (h_req_arena_cap h)"
    "\<not> ucast (h_resp_off h) < (256 :: u64) + ucast (h_req_cap h) * 24"
    "\<not> fsize < (ucast (h_resp_off h) :: u64) + ucast (h_resp_slots h) * ucast (h_resp_stride h)"
    using assms unfolding reqrep_validate_header_def Let_def
    by (auto simp: sizeof_hdr_def sizeof_ReqSlot_def sizeof_ReqIntSlot_def split: if_splits)
  have "32 \<le> unat (h_resp_stride h)" "h_req_slots_off h = 256" "0 < unat (h_resp_slots h)"
    using *(5-7) by (simp_all add: reqrep_consts word_less_nat_alt unat_gt_0)
  moreover have "stacked 0 (if mode = REQREP_MODE_STR then str_regions h else int_regions h) (unat fsize)"
    using *(8-12) *(5)
    by (simp add: str_regions_def int_regions_def layout_nat not_less sizeof_hdr_def split: if_splits)
  ultimately show ?thesis using *(1) pow2_test [OF *(2,3)] by simp
qed

text \<open>
  Property C12. A header that \<^verbatim>\<open>reqrep_validate_header\<close> accepts describes a mapping the
  operations can work on: the capacity is a power of two, there is a response slot and room for
  its header, and header, request ring, arena and response area follow each other without
  overlap inside the file, with no wrap-around in the arithmetic that says so.
\<close>

theorem validate_header_sound:
  assumes "reqrep_validate_header h fsize mode"
  shows "h_mode h = mode \<and> (\<exists>k\<le>31. unat (h_req_cap h) = 2 ^ k) \<and> 0 < unat (h_resp_slots h) \<and>
         32 \<le> unat (h_resp_stride h) \<and> h_req_slots_off h = 256 \<and>
         stacked 0 (if mode = REQREP_MODE_STR then str_regions h else int_regions h) (unat fsize)"
  using validate_header_facts [OF assms] .

theorem validate_header_sound_witness:
  "\<exists>h :: ReqRepHeader. reqrep_validate_header h 4480 REQREP_MODE_STR \<and>
     stacked 0 (str_regions h) (unat (4480 :: u64))"
proof -
  define h where "h = zero_header\<lparr>h_magic := REQREP_MAGIC, h_version := REQREP_VERSION,
     h_mode := REQREP_MODE_STR, h_req_cap := 2, h_total_size := 4480, h_req_slots_off := 256,
     h_req_arena_off := 304, h_req_arena_cap := 4096, h_resp_slots := 1, h_resp_data_max := 16,
     h_resp_off := 4416, h_resp_stride := 64\<rparr>"
  have v: "reqrep_validate_header h 4480 REQREP_MODE_STR"
    by (simp add: reqrep_validate_header_def h_def reqrep_consts)
  with validate_header_sound [OF v] show ?thesis by auto
qed

lemma round_up_64_mod:
  fixes d :: u32
  defines "s \<equiv> round_up 64 (32 + unat d) mod 4294967296"
  shows "32 + unat d \<le> s \<longleftrightarrow> unat d \<le> 4294967200"
    and "4294967200 < unat d \<Longrightarrow> s = 0 \<or> s = 64" and "64 dvd s"
proof -
  let ?r = "round_up 64 (32 + unat d)"
  have r: "32 + unat d \<le> ?r" "?r < 32 + unat d + 64" "64 dvd ?r"
    using round_up_ge [of 64 "32 + unat d"] round_up_lt [of 64 "32 + unat d"] by simp_all
  obtain q where q: "?r = 64 * q" using r(3) by blast
  show "64 dvd s" unfolding s_def by (rule dvd_mod) (use r(3) in simp_all)
  have big: "s = 0 \<or> s = 64" if "4294967200 < unat d"
  proof -
    have "67108864 \<le> q" "q < 67108866" using that r q unat_lt_32 [of d] by linarith+
    then have "q = 67108864 \<or> q = 67108865" by linarith
    then show ?thesis by (auto simp: s_def q)
  qed
  then show "4294967200 < unat d \<Longrightarrow> s = 0 \<or> s = 64" .
  show "32 + unat d \<le> s \<longleftrightarrow> unat d \<le> 4294967200"
  proof (cases "unat d \<le> 4294967200")
    case True
    then have "q \<le> 67108863" using r q by linarith
    with r True show ?thesis by (simp add: s_def q)
  next
    case False
    with big show ?thesis by auto
  qed
qed

lemma compute_layout_facts:
  assumes "reqrep_compute_layout req_cap n d hint = Some l"
  shows "sl_req_slots_off l = 256" "256 + unat req_cap * 24 \<le> unat (sl_req_arena_off l)"
    "8 dvd unat (sl_req_arena_off l)" "unat (sl_req_arena_cap l) = max 4096 (unat hint)"
    "unat (sl_req_arena_off l) + unat (sl_req_arena_cap l) \<le> unat (sl_resp_off l)"
    "64 dvd unat (sl_resp_off l)"
    "unat (sl_total_size l) = unat (sl_resp_off l) + unat n * unat (sl_resp_stride l)"
    "unat (sl_resp_stride l) = round_up 64 (32 + unat d) mod 4294967296"
proof -
  let ?se = "(256 :: u64) + ucast req_cap * 24"
  let ?ao = "(?se + 7) AND NOT 7"
  let ?c = "if (ucast hint :: u32) < 4096 then 4096 else (ucast hint :: u32)"
  let ?ro = "((ucast (ucast ?ao :: u32) :: u64) + ucast ?c + 63) AND NOT 63"
  let ?st = "ucast (((ucast sizeof_RespSlotHeader + ucast d + 63) :: u64)
               AND ucast (NOT 63 :: u32)) :: u32"
  have l: "?ao \<le> UINT32_MAX" "hint \<le> UINT32_MAX" "?ro \<le> UINT32_MAX"
    "l = \<lparr>sl_req_slots_off = 256, sl_req_arena_off = ucast ?ao, sl_req_arena_cap = ?c,
        sl_resp_off = ucast ?ro, sl_resp_stride = ?st,
        sl_total_size = ?ro + ucast n * ucast ?st\<rparr>"
    using assms unfolding reqrep_compute_layout_def Let_def sizeof_hdr_def sizeof_ReqSlot_def
    by (auto simp: not_less split: if_splits)
  have m: "(7 :: u64) = mask 3" "(63 :: u64) = mask 6" by (simp_all add: mask_eq_exp_minus_1)
  have ao: "unat (sl_req_arena_off l) = round_up 8 (256 + unat req_cap * 24)"
  proof -
    have "unat ((?se + mask 3) AND NOT (mask 3)) = round_up (2 ^ 3) (unat ?se)"
      using unat_lt_32 [of req_cap] by (intro unat_align_up) (simp_all add: unat_mult_24)
    then have "unat ?ao = round_up 8 (256 + unat req_cap * 24)" by (simp add: m unat_mult_24)
    then show ?thesis using l(1,4) unat_ucast_32_64 [of "ucast ?ao"] ucast_u32_of_small [OF l(1)]
      by simp
  qed
  have cap: "unat (sl_req_arena_cap l) = max 4096 (unat hint)"
    using l(2,4) by (auto simp: word_less_nat_alt word_le_nat_alt unat_ucast_64_32 reqrep_consts)
  have ro: "unat (sl_resp_off l) = round_up 64 (unat (sl_req_arena_off l) + unat (sl_req_arena_cap l))"
  proof -
    let ?x = "(ucast (ucast ?ao :: u32) :: u64) + ucast ?c"
    have x: "unat ?x = unat (sl_req_arena_off l) + unat (sl_req_arena_cap l)"
      by (simp only: unat_add_ucast l(4) str_layout.simps)
    have "unat ((?x + mask 6) AND NOT (mask 6)) = round_up (2 ^ 6) (unat ?x)"
      using unat_lt_32 [of "sl_req_arena_off l"] unat_lt_32 [of "sl_req_arena_cap l"]
      by (intro unat_align_up) (simp_all only: x, simp_all)
    then have "unat ?ro = round_up 64 (unat ?x)" by (simp add: m)
    then show ?thesis using l(4) x unat_ucast_32_64 [of "ucast ?ro"] ucast_u32_of_small [OF l(3)]
      by simp
  qed
  have st: "unat (sl_resp_stride l) = round_up 64 (32 + unat d) mod 4294967296"
    using unat_resp_stride [of d] by (simp add: l(4))
  have "sl_total_size l = ucast (sl_resp_off l) + ucast n * ucast (sl_resp_stride l)"
    using ucast_u32_of_small [OF l(3)] by (simp add: l(4))
  then have tot: "unat (sl_total_size l) = unat (sl_resp_off l) + unat n * unat (sl_resp_stride l)"
    by (simp only: unat_add_mult_ucast)
  have off: "sl_req_slots_off l = 256" by (simp add: l(4))
  show "sl_req_slots_off l = 256" by (rule off)
  show "256 + unat req_cap * 24 \<le> unat (sl_req_arena_off l)" "8 dvd unat (sl_req_arena_off l)"
    using ao round_up_ge [of 8] by simp_all
  show "unat (sl_req_arena_cap l) = max 4096 (unat hint)" by (rule cap)
  show "unat (sl_req_arena_off l) + unat (sl_req_arena_cap l) \<le> unat (sl_resp_off l)"
    "64 dvd unat (sl_resp_off l)"
    using ro round_up_ge [of 64] by simp_all
  show "unat (sl_total_size l) = unat (sl_resp_off l) + unat n * unat (sl_resp_stride l)" by (rule tot)
  show "unat (sl_resp_stride l) = round_up 64 (32 + unat d) mod 4294967296" by (rule st)
qed


text \<open>
  Property C26. The layout of a string-mode mapping. When it is accepted, no 32-bit offset has
  been truncated: the request ring, the arena (8-byte aligned, at least 4096 bytes and at least
  what was asked for) and the response area (64-byte aligned) follow each other, and the total
  size ends with the last response slot. A response slot has room for its header and for
  \<open>resp_data_max\<close> bytes exactly when \<open>resp_data_max\<close> is at most 4294967200; above
  that the stride is silently truncated to 0 or 64.
\<close>

theorem compute_layout_correct:
  assumes "reqrep_compute_layout req_cap n d hint = Some l"
  shows "sl_req_slots_off l = 256 \<and> 256 + unat req_cap * 24 \<le> unat (sl_req_arena_off l) \<and>
         8 dvd unat (sl_req_arena_off l) \<and> unat (sl_req_arena_cap l) = max 4096 (unat hint) \<and>
         unat (sl_req_arena_off l) + unat (sl_req_arena_cap l) \<le> unat (sl_resp_off l) \<and>
         64 dvd unat (sl_resp_off l) \<and> 64 dvd unat (sl_resp_stride l) \<and>
         unat (sl_total_size l) = unat (sl_resp_off l) + unat n * unat (sl_resp_stride l) \<and>
         (32 + unat d \<le> unat (sl_resp_stride l) \<longleftrightarrow> unat d \<le> 4294967200) \<and>
         (4294967200 < unat d \<longrightarrow> sl_resp_stride l \<in> {0, 64})"
proof -
  note f = compute_layout_facts [OF assms]
  have "4294967200 < unat d \<Longrightarrow> sl_resp_stride l \<in> {0, 64}"
    using round_up_64_mod(2) [of d] f(8) by (auto simp: word_unat_eq_iff)
  with f round_up_64_mod(1,3) [of d] show ?thesis by (intro conjI) simp_all
qed

theorem compute_layout_correct_witness:
  "\<exists>l. reqrep_compute_layout 2 1 100 24 = Some l \<and> unat (sl_resp_stride l) \<ge> 132 \<and>
       unat (sl_req_arena_cap l) = 4096"
proof -
  have "\<exists>l. reqrep_compute_layout 2 1 100 24 = Some l"
    by (simp add: reqrep_compute_layout_def reqrep_consts)
  then obtain l where l: "reqrep_compute_layout 2 1 100 24 = Some l" ..
  from compute_layout_correct [OF l] have "unat (sl_resp_stride l) \<ge> 132"
    "unat (sl_req_arena_cap l) = 4096" by simp_all
  with l show ?thesis by blast
qed

text \<open>A power of two passes the test of line 403.\<close>

lemma pow2_pass: "unat (x :: u32) = 2 ^ k \<Longrightarrow> x AND (x - 1) = 0"
proof -
  assume a: "unat x = 2 ^ k"
  have "k < 32"
  proof (rule ccontr)
    assume "\<not> k < 32"
    then have "(2::nat) ^ 32 \<le> 2 ^ k" by (intro power_increasing) auto
    with a unat_lt_32 [of x] show False by simp
  qed
  have "x = of_nat (unat x)" by simp
  then have x: "x = 2 ^ k" by (simp only: a) simp
  have "(2 ^ k :: u32) AND mask k = 0"
    by (rule bit_word_eqI) (auto simp: bit_simps)
  then show ?thesis by (simp add: x mask_eq_exp_minus_1)
qed

lemma fresh_str_hdr:
  "hdr (fresh_str c n d l) = zero_header\<lparr>h_magic := REQREP_MAGIC, h_version := REQREP_VERSION,
     h_mode := REQREP_MODE_STR, h_req_cap := c, h_total_size := sl_total_size l,
     h_req_slots_off := sl_req_slots_off l, h_req_arena_off := sl_req_arena_off l,
     h_req_arena_cap := sl_req_arena_cap l, h_resp_slots := n, h_resp_data_max := d,
     h_resp_off := sl_resp_off l, h_resp_stride := sl_resp_stride l\<rparr>"
  by (simp add: fresh_str_def reqrep_init_header_def)

lemma fresh_str_validates:
  assumes "reqrep_compute_layout c n d hint = Some l" and "unat c = 2 ^ k" and "n \<noteq> 0"
    and "unat d \<le> 4294967200"
  shows "reqrep_validate_header (hdr (fresh_str c n d l)) (sl_total_size l) REQREP_MODE_STR"
proof -
  note f = compute_layout_facts [OF assms(1)]
  have c: "c \<noteq> 0" "c AND (c - 1) = 0" using assms(2) pow2_pass [OF assms(2)] by auto
  have "32 + unat d \<le> unat (sl_resp_stride l)"
    using f(8) round_up_64_mod(1) [of d] assms(4) by simp
  then have st: "\<not> sl_resp_stride l < sizeof_RespSlotHeader"
    by (simp add: sizeof_RespSlotHeader_def word_less_nat_alt)
  have b: "\<not> sl_total_size l < 256 + ucast c * 24"
    "\<not> ucast (sl_req_arena_off l) < (256 :: u64) + ucast c * 24"
    "\<not> sl_total_size l < (ucast (sl_req_arena_off l) :: u64) + ucast (sl_req_arena_cap l)"
    "\<not> ucast (sl_resp_off l) < (ucast (sl_req_arena_off l) :: u64) + ucast (sl_req_arena_cap l)"
    "\<not> ucast (sl_resp_off l) < (256 :: u64) + ucast c * 24"
    "\<not> sl_total_size l < (ucast (sl_resp_off l) :: u64) + ucast n * ucast (sl_resp_stride l)"
    unfolding layout_nat f(7) using f(2,5) by linarith+
  show ?thesis
    unfolding reqrep_validate_header_def fresh_str_hdr
    using c st b f(1) assms(3)
    by (simp add: Let_def sizeof_hdr_def sizeof_ReqSlot_def)
qed

text \<open>A kernel that grants every call, for evaluating the functions: a file of the given size
  and content, descriptor 3.\<close>

definition granting :: "u64 \<Rightarrow> shm \<Rightarrow> kern" where
  "granting st_size content = \<lparr>k_open = 3, k_memfd = 3, k_flock = True, k_fstat = Some st_size,
     k_ftruncate = True, k_mmap = True, k_dupfd = 4, k_calloc = True, k_strdup = True,
     k_file = content\<rparr>"

definition no_file :: shm where
  "no_file = \<lparr>hdr = zero_header, req_slots = [], int_slots = [], req_arena = [],
     resp_area = [], kcalls = []\<rparr>"

lemma demo_create:
  "\<exists>h w evs. reqrep_create (granting 0 no_file) (Some ''/q'') 3 1 16 0 = (Inr (h, w), evs)"
  by (simp add: reqrep_create_def create_in_file_def with_locked_file_def finish_handle_def
      granting_def reqrep_setup_handle_def reqrep_next_pow2_def reqrep_compute_layout_def Let_def
      reqrep_consts)

text \<open>
  Property C11. What \<^verbatim>\<open>reqrep_create\<close> wrote to a new file, \<^verbatim>\<open>reqrep_open\<close> accepts, and it
  rebuilds the same handle from the header alone, provided the response slots were not
  truncated away by \<open>resp_data_max\<close> and the kernel grants the calls.
\<close>

theorem create_then_open:
  assumes "reqrep_create k (Some p) c n d hint = (Inr (h, w), evs)" and "k_fstat k = Some 0"
    and "unat d \<le> 4294967200"
    and "k_open k' \<ge> 0" "k_flock k'" "k_mmap k'" "k_calloc k'" "k_strdup k' = k_strdup k"
    and "k_fstat k' = Some (hn_mmap_size h)" "k_file k' = w"
  shows "\<exists>evs'. reqrep_open k' (Some p) REQREP_MODE_STR = (Inr (h, w), evs')"
proof -
  obtain hint' l where l: "reqrep_compute_layout (reqrep_next_pow2 c) n d hint' = Some l"
    "reqrep_next_pow2 c \<noteq> 0" "n \<noteq> 0" "w = fresh_str (reqrep_next_pow2 c) n d l"
    "reqrep_setup_handle k w (sl_total_size l) (Some p) (-1) = Some h"
    using assms(1,2)
    by (auto simp: reqrep_create_def create_in_file_def with_locked_file_def finish_handle_def
        Let_def split: if_splits option.splits)
  obtain j where j: "unat (reqrep_next_pow2 c) = 2 ^ j"
    using next_pow2_pow2 [OF refl l(2)] by metis
  have sz: "hn_mmap_size h = sl_total_size l"
    using l(5) by (auto simp: reqrep_setup_handle_def split: if_splits)
  have "256 \<le> unat (sl_total_size l)"
    using compute_layout_facts(2,5,7) [OF l(1)] by linarith
  then have big: "\<not> sl_total_size l < ucast sizeof_hdr"
    by (simp add: sizeof_hdr_def word_less_nat_alt)
  have "reqrep_setup_handle k' w (sl_total_size l) (Some p) (-1) = Some h"
    using l(5) assms(7,8) by (auto simp: reqrep_setup_handle_def split: if_splits)
  with fresh_str_validates [OF l(1) j l(3) assms(3)] big assms(4-6,9,10) sz l(4) show ?thesis
    by (simp add: reqrep_open_def with_locked_file_def finish_handle_def Let_def)
qed

theorem create_then_open_witness:
  "\<exists>h w evs k' evs'. reqrep_create (granting 0 no_file) (Some ''/q'') 3 1 16 0 =
       (Inr (h, w), evs) \<and> k_file k' = w \<and>
     reqrep_open k' (Some ''/q'') REQREP_MODE_STR = (Inr (h, w), evs')"
proof -
  obtain h w evs where c: "reqrep_create (granting 0 no_file) (Some ''/q'') 3 1 16 0 =
      (Inr (h, w), evs)"
    using demo_create by blast
  from create_then_open [OF c, of "granting (hn_mmap_size h) w"]
  have "\<exists>evs'. reqrep_open (granting (hn_mmap_size h) w) (Some ''/q'') REQREP_MODE_STR =
      (Inr (h, w), evs')"
    by (simp add: granting_def)
  moreover have "k_file (granting (hn_mmap_size h) w) = w" by (simp add: granting_def)
  ultimately show ?thesis using c by metis
qed

end
