(* ===== verification/RR_Fifo.thy ===== *)
theory RR_Fifo
  imports Main
begin

text \<open>
  The contract of a request queue, whatever its implementation: a bounded first-in first-out
  buffer whose enqueue may be refused and whose dequeue may find nothing. The string queue
  (\<^verbatim>\<open>RR_Queue\<close>, a ring of slots over a circular byte arena) and the integer queue
  (\<^verbatim>\<open>RR_Int\<close>, a ring of sequence-numbered slots) both implement it, and what follows from the
  contract alone is proved here once.
\<close>

datatype 'a fifo_op = Enq 'a | Deq

text \<open>A run of operations: what was accepted, what was received, and the final state; \<open>None\<close>
  if one of them does not return.\<close>

fun fifo_run ::
  "('a \<Rightarrow> 's \<Rightarrow> (bool \<times> 's) option) \<Rightarrow> ('s \<Rightarrow> ('a option \<times> 's) option) \<Rightarrow>
   'a fifo_op list \<Rightarrow> 's \<Rightarrow> ('a list \<times> 'a list \<times> 's) option" where
  "fifo_run enq deq [] s = Some ([], [], s)"
| "fifo_run enq deq (Enq x # ops) s =
     (case enq x s of None \<Rightarrow> None
      | Some (ok, s') \<Rightarrow>
          (case fifo_run enq deq ops s' of None \<Rightarrow> None
           | Some (acc, rcv, t) \<Rightarrow> Some (if ok then x # acc else acc, rcv, t)))"
| "fifo_run enq deq (Deq # ops) s =
     (case deq s of None \<Rightarrow> None
      | Some (r, s') \<Rightarrow>
          (case fifo_run enq deq ops s' of None \<Rightarrow> None
           | Some (acc, rcv, t) \<Rightarrow>
               Some (acc, (case r of None \<Rightarrow> rcv | Some x \<Rightarrow> x # rcv), t)))"

definition enqueued :: "'a fifo_op list \<Rightarrow> 'a set" where
  "enqueued ops = {x. Enq x \<in> set ops}"

lemma enqueued_simps [simp]:
  "enqueued [] = {}" "enqueued (Enq x # ops) = insert x (enqueued ops)"
  "enqueued (Deq # ops) = enqueued ops"
  by (auto simp: enqueued_def)

locale bounded_fifo =
  fixes inv :: "'s \<Rightarrow> bool"
    and cont :: "'s \<Rightarrow> 'a list"
    and adm :: "'s \<Rightarrow> 'a \<Rightarrow> bool"
    and capacity :: "'s \<Rightarrow> nat"
    and enq :: "'a \<Rightarrow> 's \<Rightarrow> (bool \<times> 's) option"
    and deq :: "'s \<Rightarrow> ('a option \<times> 's) option"
  assumes enq_returns: "inv s \<Longrightarrow> adm s x \<Longrightarrow> \<exists>ok s'. enq x s = Some (ok, s')"
    and enq_inv: "inv s \<Longrightarrow> adm s x \<Longrightarrow> enq x s = Some (ok, s') \<Longrightarrow> inv s'"
    and enq_adm: "inv s \<Longrightarrow> adm s x \<Longrightarrow> enq x s = Some (ok, s') \<Longrightarrow> adm s' = adm s"
    and enq_accepted: "inv s \<Longrightarrow> adm s x \<Longrightarrow> enq x s = Some (True, s') \<Longrightarrow> cont s' = cont s @ [x]"
    and enq_refused: "inv s \<Longrightarrow> adm s x \<Longrightarrow> enq x s = Some (False, s') \<Longrightarrow> cont s' = cont s"
    and deq_returns: "inv s \<Longrightarrow> \<exists>r s'. deq s = Some (r, s')"
    and deq_inv: "inv s \<Longrightarrow> deq s = Some (r, s') \<Longrightarrow> inv s'"
    and deq_adm: "inv s \<Longrightarrow> deq s = Some (r, s') \<Longrightarrow> adm s' = adm s"
    and deq_received: "inv s \<Longrightarrow> deq s = Some (Some x, s') \<Longrightarrow> cont s = x # cont s'"
    and deq_nothing: "inv s \<Longrightarrow> deq s = Some (None, s') \<Longrightarrow> cont s' = cont s"
    and bounded: "inv s \<Longrightarrow> length (cont s) \<le> capacity s"
begin

text \<open>Every run returns, and what was in the queue together with what was accepted is, in this
  order, what was received together with what is still in the queue.\<close>

lemma run_conserves:
  "inv s \<Longrightarrow> (\<And>x. x \<in> enqueued ops \<Longrightarrow> adm s x) \<Longrightarrow>
   \<exists>acc rcv t. fifo_run enq deq ops s = Some (acc, rcv, t) \<and> inv t \<and>
     cont s @ acc = rcv @ cont t"
proof (induction ops arbitrary: s)
  case Nil
  then show ?case by simp
next
  case (Cons o' ops)
  show ?case
  proof (cases o')
    case (Enq x)
    with Cons.prems have x: "adm s x" by simp
    from enq_returns [OF Cons.prems(1) x] obtain ok s' where e: "enq x s = Some (ok, s')"
      by blast
    note s' = enq_inv [OF Cons.prems(1) x e] enq_adm [OF Cons.prems(1) x e]
    have "\<exists>acc rcv t. fifo_run enq deq ops s' = Some (acc, rcv, t) \<and> inv t \<and>
            cont s' @ acc = rcv @ cont t"
      using Cons.IH [OF s'(1)] s'(2) Cons.prems(2) Enq by simp
    moreover have "cont s' = cont s @ (if ok then [x] else [])"
      using e enq_accepted [OF Cons.prems(1) x] enq_refused [OF Cons.prems(1) x]
      by (cases ok) auto
    ultimately show ?thesis using Enq e by (cases ok) auto
  next
    case Deq
    from deq_returns [OF Cons.prems(1)] obtain r s' where d: "deq s = Some (r, s')" by blast
    note s' = deq_inv [OF Cons.prems(1) d] deq_adm [OF Cons.prems(1) d]
    have "\<exists>acc rcv t. fifo_run enq deq ops s' = Some (acc, rcv, t) \<and> inv t \<and>
            cont s' @ acc = rcv @ cont t"
      using Cons.IH [OF s'(1)] s'(2) Cons.prems(2) Deq by simp
    moreover have "cont s = (case r of None \<Rightarrow> [] | Some x \<Rightarrow> [x]) @ cont s'"
      using d deq_received [OF Cons.prems(1)] deq_nothing [OF Cons.prems(1)]
      by (cases r) auto
    ultimately show ?thesis using Deq d by (cases r) auto
  qed
qed

text \<open>From an empty queue, what is received is a prefix of what was accepted, and at most the
  capacity is outstanding.\<close>

lemma run_from_empty:
  assumes "inv s" "cont s = []" "\<And>x. x \<in> enqueued ops \<Longrightarrow> adm s x"
  shows "\<exists>acc rcv t. fifo_run enq deq ops s = Some (acc, rcv, t) \<and> acc = rcv @ cont t \<and>
           length acc - length rcv \<le> capacity t"
proof -
  from run_conserves [of s ops, OF assms(1,3)] obtain acc rcv t where
    r: "fifo_run enq deq ops s = Some (acc, rcv, t)" "inv t" "cont s @ acc = rcv @ cont t"
    by blast
  with assms(2) bounded [OF r(2)] show ?thesis by auto
qed

end

end
