(* ===== verification/RR_Arena.thy ===== *)
theory RR_Arena
  imports RR_Prelude
begin

text \<open>
  The circular request arena, over natural numbers. A live request is a triple of its offset,
  its length and the bytes it releases when it is received (\<^verbatim>\<open>arena_off\<close>, \<^verbatim>\<open>packed_len\<close>,
  \<^verbatim>\<open>arena_skip\<close>). The invariant says how the live requests follow each other around the
  arena; from it and from the bound on \<^verbatim>\<open>arena_used\<close> follows that no two of them overlap.
\<close>

type_synonym region = "nat \<times> nat \<times> nat"

definition alloc_size :: "nat \<Rightarrow> nat" where
  "alloc_size n = max 8 (round_up 8 n)"

lemma alloc_size_ge [simp]: "n \<le> alloc_size n" "8 \<le> alloc_size n" "0 < alloc_size n"
  using round_up_ge [of 8 n] by (auto simp: alloc_size_def)

text \<open>\<open>chain cap s es w\<close>: the regions \<open>es\<close> were allocated one after the other starting with
  write position \<open>s\<close>, and the write position is \<open>w\<close> afterwards. A region either continues at
  the current position or, if it does not fit before the end, starts again at 0 and accounts
  for the skipped tail.\<close>

fun chain :: "nat \<Rightarrow> nat \<Rightarrow> region list \<Rightarrow> nat \<Rightarrow> bool" where
  "chain cap s [] w \<longleftrightarrow> w = s"
| "chain cap s ((off, len, skip) # es) w \<longleftrightarrow>
     (off = s \<and> skip = alloc_size len \<and> s + alloc_size len \<le> cap \<or>
      off = 0 \<and> skip = alloc_size len + (cap - s) \<and> s \<le> cap \<and> cap < s + alloc_size len) \<and>
     alloc_size len \<le> cap \<and> chain cap (off + alloc_size len) es w"

abbreviation skips :: "region list \<Rightarrow> nat" where
  "skips es \<equiv> sum_list (map (\<lambda>(off, len, skip). skip) es)"

lemma chain_append:
  "chain cap s (es @ es') w \<longleftrightarrow> (\<exists>m. chain cap s es m \<and> chain cap m es' w)"
  by (induction cap s es w rule: chain.induct) auto

lemma chain_le: "chain cap s es w \<Longrightarrow> s \<le> cap \<Longrightarrow> w \<le> cap"
  by (induction cap s es w rule: chain.induct) auto

lemma chain_pos: "chain cap s es w \<Longrightarrow> es \<noteq> [] \<Longrightarrow> 0 < w"
proof (induction cap s es w rule: chain.induct)
  case (2 cap s off len skip es w)
  show ?case
  proof (cases es)
    case Nil
    with "2.prems" alloc_size_ge(3) [of len] show ?thesis by auto
  next
    case (Cons e es')
    with "2.prems" show ?thesis by (intro "2.IH") auto
  qed
qed simp

lemma skips_pos: "chain cap s es w \<Longrightarrow> es \<noteq> [] \<Longrightarrow> 0 < skips es"
  by (cases es) auto

text \<open>Where the live regions lie: between \<open>s\<close> and \<open>w\<close>, or, once the write position has
  wrapped, above \<open>s\<close> and below \<open>w\<close>.\<close>

definition unwrapped :: "nat \<Rightarrow> region list \<Rightarrow> nat \<Rightarrow> bool" where
  "unwrapped s es w \<longleftrightarrow> w = s + skips es \<and>
     (\<forall>(off, len, skip) \<in> set es. s \<le> off \<and> off + alloc_size len \<le> w)"

definition wrapped :: "nat \<Rightarrow> nat \<Rightarrow> region list \<Rightarrow> nat \<Rightarrow> bool" where
  "wrapped cap s es w \<longleftrightarrow> es \<noteq> [] \<and> w + cap = s + skips es \<and>
     (\<forall>(off, len, skip) \<in> set es.
        s \<le> off \<and> off + alloc_size len \<le> cap \<or> off + alloc_size len \<le> w)"

lemma chain_shape:
  "chain cap s es w \<Longrightarrow> s \<le> cap \<Longrightarrow> skips es \<le> cap \<Longrightarrow> unwrapped s es w \<or> wrapped cap s es w"
proof (induction cap s es w rule: chain.induct)
  case (2 cap s off len skip es w)
  let ?m = "off + alloc_size len"
  have rest: "chain cap ?m es w" and fits: "alloc_size len \<le> cap" using "2.prems" by auto
  have m: "?m \<le> cap" using "2.prems" by auto
  have sk: "skips es \<le> cap" using "2.prems" by auto
  from "2.IH" [OF rest m sk] have IH: "unwrapped ?m es w \<or> wrapped cap ?m es w" .
  show ?case
  proof (cases "off = s \<and> skip = alloc_size len \<and> s + alloc_size len \<le> cap")
    case True
    with IH show ?thesis by (auto simp: unwrapped_def wrapped_def)
  next
    case False
    with "2.prems" have w: "off = 0" "skip = alloc_size len + (cap - s)" "cap < s + alloc_size len"
      by auto
    have "\<not> wrapped cap ?m es w"
    proof
      assume a: "wrapped cap ?m es w"
      then have "w + cap = ?m + skips es" "0 < w"
        using chain_pos [OF rest] by (auto simp: wrapped_def)
      with w "2.prems"(2,3) show False by auto
    qed
    with IH have "unwrapped ?m es w" by blast
    with w "2.prems"(2) show ?thesis by (auto simp: unwrapped_def wrapped_def)
  qed
qed (simp add: unwrapped_def)

text \<open>A new region chosen as the code chooses it overlaps no live region.\<close>

lemma new_region_disjoint:
  assumes "chain cap s es w" "s \<le> cap" "(off, len, skip) \<in> set es"
    and new: "pos = w \<and> w + a \<le> cap \<and> nskip = a \<or> pos = 0 \<and> nskip = a + (cap - w)"
    and room: "skips es + nskip \<le> cap" and "0 < a"
  shows "off + alloc_size len \<le> pos \<or> pos + a \<le> off"
proof -
  from room have "skips es \<le> cap" by simp
  from chain_shape [OF assms(1,2) this] show ?thesis
  proof
    assume "unwrapped s es w"
    then have "w = s + skips es" "s \<le> off" "off + alloc_size len \<le> w"
      using assms(3) by (auto simp: unwrapped_def)
    with new room show ?thesis by auto
  next
    assume "wrapped cap s es w"
    then have "w + cap = s + skips es"
      "s \<le> off \<and> off + alloc_size len \<le> cap \<or> off + alloc_size len \<le> w"
      using assms(3) by (auto simp: wrapped_def)
    with new room assms(2,6) chain_le [OF assms(1,2)] show ?thesis by auto
  qed
qed

text \<open>
  The invariant of the arena state. The second disjunct is the one state in which the bytes in
  use exceed the capacity: a single request longer than the largest multiple of 8 below an
  unaligned capacity, accepted into an empty arena.
\<close>

definition arena_ok :: "nat \<Rightarrow> region list \<Rightarrow> nat \<Rightarrow> nat \<Rightarrow> bool" where
  "arena_ok cap es used wpos \<longleftrightarrow> used = skips es \<and>
     (\<forall>(off, len, skip) \<in> set es. off + len \<le> cap) \<and>
     ((\<exists>s\<le>cap. chain cap s es wpos) \<and> used \<le> cap \<and> (es = [] \<longrightarrow> wpos = 0) \<or>
      (\<exists>len. es = [(0, len, alloc_size len)] \<and> wpos = alloc_size len \<and> cap < alloc_size len))"

lemma arena_ok_empty [simp]: "arena_ok cap [] used wpos \<longleftrightarrow> used = 0 \<and> wpos = 0"
  by (auto simp: arena_ok_def)

lemma arena_ok_used_pos: "arena_ok cap es used wpos \<Longrightarrow> es \<noteq> [] \<Longrightarrow> 0 < used"
  by (auto simp: arena_ok_def dest: skips_pos)

lemma arena_ok_bounds: "arena_ok cap es used wpos \<Longrightarrow> (off, len, skip) \<in> set es \<Longrightarrow> off + len \<le> cap"
  by (auto simp: arena_ok_def)

text \<open>Allocating behind the live requests keeps the invariant.\<close>

lemma arena_ok_push:
  assumes ok: "arena_ok cap es used wpos" and room: "used + skip \<le> cap"
    and new: "pos = wpos \<and> wpos + alloc_size len \<le> cap \<and> skip = alloc_size len \<or>
              pos = 0 \<and> cap < wpos + alloc_size len \<and> skip = alloc_size len + (cap - wpos)"
  shows "arena_ok cap (es @ [(pos, len, skip)]) (used + skip) (pos + alloc_size len)"
    and "\<forall>(off, len', skip') \<in> set es. off + len' \<le> pos \<or> pos + alloc_size len \<le> off"
proof -
  have "0 < skip" using new by auto
  then have "used \<le> cap" using room by simp
  then obtain s where s: "s \<le> cap" "chain cap s es wpos"
    using ok by (auto simp: arena_ok_def)
  have w: "wpos \<le> cap" using chain_le [OF s(2,1)] .
  have used: "used = skips es" using ok by (simp add: arena_ok_def)
  have fits: "alloc_size len \<le> cap" using new room by auto
  have "chain cap s (es @ [(pos, len, skip)]) (pos + alloc_size len)"
    using s(2) new w fits by (auto simp: chain_append)
  moreover have "pos + len \<le> cap"
    using new fits alloc_size_ge(1) [of len] by linarith
  ultimately show "arena_ok cap (es @ [(pos, len, skip)]) (used + skip) (pos + alloc_size len)"
    using ok s(1) room used by (auto simp: arena_ok_def)
  have "off + len' \<le> pos \<or> pos + alloc_size len \<le> off"
    if "(off, len', skip') \<in> set es" for off len' skip'
  proof -
    have "off + alloc_size len' \<le> pos \<or> pos + alloc_size len \<le> off"
      using new_region_disjoint [OF s(2,1) that, of pos "alloc_size len" skip] new room used by auto
    with alloc_size_ge(1) [of len'] show ?thesis by linarith
  qed
  then show "\<forall>(off, len', skip') \<in> set es. off + len' \<le> pos \<or> pos + alloc_size len \<le> off"
    by blast
qed

text \<open>Releasing the oldest request keeps it; the write position is reset when nothing is left.\<close>

lemma arena_ok_pop:
  assumes ok: "arena_ok cap ((off, len, skip) # es) used wpos"
  shows "skip \<le> used"
    and "arena_ok cap es (used - skip) (if used - skip = 0 then 0 else wpos)"
proof -
  show "skip \<le> used" using ok by (auto simp: arena_ok_def)
  show "arena_ok cap es (used - skip) (if used - skip = 0 then 0 else wpos)"
  proof (cases "es = []")
    case True
    with ok show ?thesis by (auto simp: arena_ok_def)
  next
    case False
    with ok obtain s where s: "s \<le> cap" "chain cap s ((off, len, skip) # es) wpos" "used \<le> cap"
      by (auto simp: arena_ok_def)
    then have rest: "chain cap (off + alloc_size len) es wpos" "off + alloc_size len \<le> cap" by auto
    have pos: "used - skip = skips es" "0 < skips es"
      using ok skips_pos [OF rest(1) False] by (auto simp: arena_ok_def)
    then have "used - skip \<noteq> 0" by linarith
    then have "(if used - skip = 0 then 0 else wpos) = wpos" by (simp only: if_False)
    with ok pos(1) rest s(3) False show ?thesis by (auto simp: arena_ok_def)
  qed
qed

end
