(* ===== verification/RR_Queue.thy ===== *)
theory RR_Queue
  imports RR_Lifecycle RR_Fifo RR_Arena
begin

text \<open>
  The request queue of string mode, \<^verbatim>\<open>reqrep_send_locked\<close> and \<^verbatim>\<open>reqrep_recv_locked\<close>
  (\<^verbatim>\<open>gen/reqrep.h\<close>, lines 720 to 769 and 835 to 869): a ring of \<^verbatim>\<open>ReqSlot\<close>s indexed by 64-bit positions
  that may wrap around, over a circular byte arena. Both run with the mutex held, so no other
  process touches the queue in between.
\<close>

section \<open>Operations\<close>

definition arena_alloc :: "u32 \<Rightarrow> u32" where
  "arena_alloc len = (let alloc = (len + 7) AND NOT 7 in if alloc = 0 then 8 else alloc)"

text \<open>Lines 754 to 768: copy the request into the arena and publish the slot.\<close>

definition send_put ::
  "ReqRepHandle \<Rightarrow> bytes \<Rightarrow> u32 \<Rightarrow> bool \<Rightarrow> u32 \<Rightarrow> u32 \<Rightarrow> u32 \<Rightarrow> u32 \<Rightarrow> u64 \<Rightarrow> shm \<Rightarrow>
   (int \<times> shm) option" where
  "send_put h str len utf8 resp_slot_idx resp_gen alloc pos skip w = do {
     arena \<leftarrow> memcpy (req_arena w) (unat pos) str 0 (unat len);
     let idx = (ucast (h_req_tail (hdr w) AND ucast (hn_req_cap_mask h)) :: u32);
     if unat idx < length (req_slots w) then
       Some (1, w\<lparr>req_arena := arena,
         req_slots := (req_slots w)[unat idx :=
           \<lparr>rq_arena_off = pos,
            rq_packed_len = len OR (if utf8 then REQREP_UTF8_FLAG else 0),
            rq_arena_skip = ucast skip, rq_resp_slot = resp_slot_idx, rq_resp_gen = resp_gen\<rparr>],
         hdr := (hdr w)\<lparr>h_arena_wpos := pos + alloc,
                        h_arena_used := h_arena_used (hdr w) + ucast skip,
                        h_req_tail := h_req_tail (hdr w) + 1,
                        h_stat_requests := h_stat_requests (hdr w) + 1\<rparr>\<rparr>)
     else None }"

definition send_full :: "shm \<Rightarrow> shm" where
  "send_full w = hdr_update (\<lambda>h. h\<lparr>h_stat_send_full := h_stat_send_full h + 1\<rparr>) w"

definition reqrep_send_locked ::
  "ReqRepHandle \<Rightarrow> bytes \<Rightarrow> u32 \<Rightarrow> bool \<Rightarrow> u32 \<Rightarrow> u32 \<Rightarrow> shm \<Rightarrow> (int \<times> shm) option" where
  "reqrep_send_locked h str len utf8 resp_slot_idx resp_gen w =
     (if len > REQREP_STR_LEN_MASK then Some (-2, w)
      else if h_req_tail (hdr w) - h_req_head (hdr w) \<ge> ucast (hn_req_cap h)
      then Some (0, send_full w)
      else
        let alloc = arena_alloc len;
            cap = (ucast (hn_req_arena_cap h) :: u64);
            wpos = h_arena_wpos (hdr w);
            (pos, skip) =
              (if (ucast wpos :: u64) + ucast alloc > cap
               then (0, ucast alloc + ucast (hn_req_arena_cap h - wpos))
               else (wpos, (ucast alloc :: u64)))
        in if ucast (h_arena_used (hdr w)) + skip > cap
           then if h_req_tail (hdr w) = h_req_head (hdr w)
                then send_put h str len utf8 resp_slot_idx resp_gen alloc 0 (ucast alloc)
                       (hdr_update (\<lambda>x. x\<lparr>h_arena_wpos := 0, h_arena_used := 0\<rparr>) w)
                else Some (0, send_full w)
           else send_put h str len utf8 resp_slot_idx resp_gen alloc pos skip w)"

text \<open>What a successful receive writes through its out parameters; the string is what the copy
  buffer holds before its terminating NUL.\<close>

record recv_out =
  ro_str :: bytes
  ro_len :: u32
  ro_utf8 :: bool
  ro_id :: u64

text \<open>Copying \<open>len\<close> bytes to the copy buffer and terminating them (lines 854 to 858, and again
  lines 972 to 975).\<close>

definition copy_to_buf :: "ReqRepHandle \<Rightarrow> bytes \<Rightarrow> nat \<Rightarrow> u32 \<Rightarrow> ReqRepHandle option" where
  "copy_to_buf h src off len = do {
     buf \<leftarrow> (if len > 0 then memcpy (hn_copy_buf h) 0 src off (unat len) else Some (hn_copy_buf h));
     if unat len < length buf then Some (h\<lparr>hn_copy_buf := buf[unat len := 0]\<rparr>) else None }"

text \<open>Lines 860 to 868: give the arena bytes back and move the head.\<close>

definition recv_pop :: "ReqSlot \<Rightarrow> shm \<Rightarrow> shm" where
  "recv_pop slot w =
     (let used = (if h_arena_used (hdr w) \<ge> rq_arena_skip slot
                  then h_arena_used (hdr w) - rq_arena_skip slot else 0)
      in w\<lparr>hdr := (hdr w)\<lparr>h_arena_used := used,
             h_arena_wpos := (if used = 0 then 0 else h_arena_wpos (hdr w)),
             h_req_head := h_req_head (hdr w) + 1\<rparr>\<rparr>)"

definition reqrep_recv_locked ::
  "os \<Rightarrow> ReqRepHandle \<Rightarrow> shm \<Rightarrow> (int \<times> recv_out option \<times> ReqRepHandle \<times> shm) option" where
  "reqrep_recv_locked os h w =
     (if h_req_tail (hdr w) = h_req_head (hdr w)
      then Some (0, None, h,
             hdr_update (\<lambda>x. x\<lparr>h_stat_recv_empty := h_stat_recv_empty x + 1\<rparr>) w)
      else
        let idx = (ucast (h_req_head (hdr w) AND ucast (hn_req_cap_mask h)) :: u32) in
        if unat idx < length (req_slots w) then
          let slot = req_slots w ! unat idx;
              len = rq_packed_len slot AND REQREP_STR_LEN_MASK;
              utf8 = (rq_packed_len slot AND REQREP_UTF8_FLAG) \<noteq> 0;
              id' = REQREP_MAKE_ID (rq_resp_slot slot) (rq_resp_gen slot)
          in case reqrep_ensure_copy_buf os h (len + 1) of
               (False, h1) \<Rightarrow> Some (-1, None, h1, w)
             | (True, h1) \<Rightarrow> do {
                 h2 \<leftarrow> copy_to_buf h1 (req_arena w) (unat (rq_arena_off slot)) len;
                 Some (1, Some \<lparr>ro_str = take (unat len) (hn_copy_buf h2), ro_len = len,
                                ro_utf8 = utf8, ro_id = id'\<rparr>, h2, recv_pop slot w) }
        else None)"

definition reqrep_size :: "shm \<Rightarrow> u64" where
  "reqrep_size w = h_req_tail (hdr w) - h_req_head (hdr w)"

section \<open>Ring positions\<close>

text \<open>The capacity is a power of two and the mask is one less, as \<^verbatim>\<open>reqrep_create\<close> and
  \<^verbatim>\<open>reqrep_setup_handle\<close> arrange.\<close>

definition ring_ok :: "ReqRepHandle \<Rightarrow> bool" where
  "ring_ok h \<longleftrightarrow> (\<exists>k\<le>31. unat (hn_req_cap h) = 2 ^ k \<and> hn_req_cap_mask h = mask k)"

definition ring_idx :: "ReqRepHandle \<Rightarrow> u64 \<Rightarrow> nat" where
  "ring_idx h p = unat (ucast (p AND ucast (hn_req_cap_mask h)) :: u32)"

lemma ring_ok_pos: "ring_ok h \<Longrightarrow> 0 < unat (hn_req_cap h)"
  by (auto simp: ring_ok_def)

lemma ring_ok_le: "ring_ok h \<Longrightarrow> unat (hn_req_cap h) \<le> 2147483648"
proof -
  assume "ring_ok h"
  then obtain k where "k \<le> 31" "unat (hn_req_cap h) = 2 ^ k" by (auto simp: ring_ok_def)
  moreover have "(2::nat) ^ k \<le> 2 ^ 31" using calculation by (intro power_increasing) auto
  ultimately show ?thesis by simp
qed

lemma ring_idx_mod:
  assumes "ring_ok h"
  shows "ring_idx h p = unat p mod unat (hn_req_cap h)"
proof -
  from assms obtain k where k: "k \<le> 31" "unat (hn_req_cap h) = 2 ^ k" "hn_req_cap_mask h = mask k"
    by (auto simp: ring_ok_def)
  have m: "(ucast (mask k :: u32) :: u64) = mask k"
    using k(1) by (simp add: ucast_mask_eq min_def)
  have "(2::nat) ^ k \<le> 2 ^ 31" using k(1) by (intro power_increasing) auto
  moreover have "unat p mod 2 ^ k < 2 ^ k" by simp
  ultimately have "unat p mod 2 ^ k < 2 ^ 31" by linarith
  also have "(2::nat) ^ 31 < 4294967296" by simp
  finally have "unat p mod 2 ^ k < 4294967296" .
  then show ?thesis
    by (simp add: ring_idx_def k(2,3) m unat_ucast_64_32 unat_and_mask)
qed

lemma ring_idx_lt: "ring_ok h \<Longrightarrow> ring_idx h p < unat (hn_req_cap h)"
  by (simp add: ring_idx_mod ring_ok_pos)

lemma ring_idx_add:
  assumes "ring_ok h"
  shows "ring_idx h (p + of_nat i) = (unat p + i) mod unat (hn_req_cap h)"
proof -
  from assms obtain k where k: "k \<le> 31" "unat (hn_req_cap h) = 2 ^ k" by (auto simp: ring_ok_def)
  have dvd: "(2::nat) ^ k dvd 2 ^ 64" using k(1) by (intro le_imp_power_dvd) auto
  have "unat (p + of_nat i) = (unat p + i mod 2 ^ 64) mod 2 ^ 64"
    by (simp add: unat_word_ariths unat_of_nat)
  also have "\<dots> = (unat p + i) mod 2 ^ 64" by (rule mod_add_right_eq)
  finally have "ring_idx h (p + of_nat i) = (unat p + i) mod 2 ^ 64 mod 2 ^ k"
    using ring_idx_mod [OF assms] k(2) by simp
  also have "\<dots> = (unat p + i) mod 2 ^ k" using dvd by (rule mod_mod_cancel)
  finally show ?thesis by (simp add: k(2))
qed

lemma mod_add_inj:
  assumes "(a + i) mod c = (a + j) mod (c::nat)" "i < c" "j < c"
  shows "i = j"
  using assms
proof (induction i j rule: linorder_wlog)
  case (le i j)
  then have "c dvd (a + j) - (a + i)" by (metis mod_eq_dvd_iff_nat nat_add_left_cancel_le)
  then have "c dvd j - i" by simp
  with le show ?case using dvd_imp_le [of c "j - i"] by (cases "i = j") auto
qed auto

lemma ring_idx_inj:
  assumes "ring_ok h" "i < unat (hn_req_cap h)" "j < unat (hn_req_cap h)"
    "ring_idx h (p + of_nat i) = ring_idx h (p + of_nat j)"
  shows "i = j"
  using assms by (auto simp: ring_idx_add intro: mod_add_inj)

section \<open>Invariant and abstraction\<close>

definition queue_count :: "shm \<Rightarrow> nat" where
  "queue_count w = unat (h_req_tail (hdr w) - h_req_head (hdr w))"

definition live :: "ReqRepHandle \<Rightarrow> shm \<Rightarrow> ReqSlot list" where
  "live h w = map (\<lambda>i. req_slots w ! ring_idx h (h_req_head (hdr w) + of_nat i)) [0..<queue_count w]"

definition slot_len :: "ReqSlot \<Rightarrow> nat" where
  "slot_len s = unat (rq_packed_len s AND REQREP_STR_LEN_MASK)"

definition region_of :: "ReqSlot \<Rightarrow> region" where
  "region_of s = (unat (rq_arena_off s), slot_len s, unat (rq_arena_skip s))"

definition queue_shape :: "ReqRepHandle \<Rightarrow> shm \<Rightarrow> bool" where
  "queue_shape h w \<longleftrightarrow> ring_ok h \<and> length (req_slots w) = unat (hn_req_cap h) \<and>
     length (req_arena w) = unat (hn_req_arena_cap h)"

definition queue_ok :: "ReqRepHandle \<Rightarrow> shm \<Rightarrow> bool" where
  "queue_ok h w \<longleftrightarrow> queue_shape h w \<and> queue_count w \<le> unat (hn_req_cap h) \<and>
     arena_ok (unat (hn_req_arena_cap h)) (map region_of (live h w))
       (unat (h_arena_used (hdr w))) (unat (h_arena_wpos (hdr w)))"

text \<open>A queued request: its bytes, its UTF-8 flag and its identifier. \<open>queue_abs\<close> is the list
  of queued requests, oldest first.\<close>

type_synonym request = "bytes \<times> bool \<times> u64"

definition request_of :: "bytes \<Rightarrow> ReqSlot \<Rightarrow> request" where
  "request_of arena s =
     (bslice arena (unat (rq_arena_off s)) (slot_len s),
      (rq_packed_len s AND REQREP_UTF8_FLAG) \<noteq> 0,
      REQREP_MAKE_ID (rq_resp_slot s) (rq_resp_gen s))"

definition queue_abs :: "ReqRepHandle \<Rightarrow> shm \<Rightarrow> request list" where
  "queue_abs h w = map (request_of (req_arena w)) (live h w)"

lemma length_live [simp]: "length (live h w) = queue_count w"
  by (simp add: live_def)

lemma length_queue_abs [simp]: "length (queue_abs h w) = queue_count w"
  by (simp add: queue_abs_def)

lemma queue_count_0: "queue_count w = 0 \<longleftrightarrow> h_req_tail (hdr w) = h_req_head (hdr w)"
  by (simp add: queue_count_def unat_eq_0)

lemma live_Nil: "live h w = [] \<longleftrightarrow> h_req_tail (hdr w) = h_req_head (hdr w)"
  by (metis length_live length_0_conv queue_count_0)

text \<open>A change that leaves the ring, the positions and the arena alone leaves the queue alone.\<close>

lemma queue_frame:
  assumes "req_slots w' = req_slots w" "req_arena w' = req_arena w"
    "h_req_head (hdr w') = h_req_head (hdr w)" "h_req_tail (hdr w') = h_req_tail (hdr w)"
    "h_arena_used (hdr w') = h_arena_used (hdr w)" "h_arena_wpos (hdr w') = h_arena_wpos (hdr w)"
  shows "queue_ok h w' = queue_ok h w" "queue_abs h w' = queue_abs h w"
    "queue_count w' = queue_count w"
  using assms
  by (simp_all add: queue_ok_def queue_shape_def queue_abs_def live_def queue_count_def)

text \<open>The ring after a slot has been written at the tail.\<close>

lemma live_push:
  assumes "queue_shape h w" and room: "queue_count w < unat (hn_req_cap h)"
    and w': "req_slots w' = (req_slots w)[ring_idx h (h_req_tail (hdr w)) := s]"
      "h_req_tail (hdr w') = h_req_tail (hdr w) + 1" "h_req_head (hdr w') = h_req_head (hdr w)"
  shows "live h w' = live h w @ [s]" and "queue_count w' = Suc (queue_count w)"
proof -
  let ?hd = "h_req_head (hdr w)" and ?n = "queue_count w"
  have ring: "ring_ok h" and len: "length (req_slots w) = unat (hn_req_cap h)"
    using assms(1) by (auto simp: queue_shape_def)
  have tl: "h_req_tail (hdr w) = ?hd + of_nat ?n"
    by (simp add: queue_count_def)
  have "unat (h_req_tail (hdr w) - ?hd) + unat (1 :: u64) < 2 ^ LENGTH(64)"
    using room ring_ok_le [OF ring] by (simp add: queue_count_def)
  then have "unat ((h_req_tail (hdr w) - ?hd) + 1) = unat (h_req_tail (hdr w) - ?hd) + 1"
    by (subst (asm) unat_add_lem) simp
  then show cnt: "queue_count w' = Suc ?n"
    by (simp add: queue_count_def w'(2,3) algebra_simps)
  have old: "req_slots w' ! ring_idx h (?hd + of_nat i) = req_slots w ! ring_idx h (?hd + of_nat i)"
    if "i < ?n" for i
  proof -
    have "ring_idx h (?hd + of_nat i) \<noteq> ring_idx h (?hd + of_nat ?n)"
      using that room ring_idx_inj [OF ring, of i ?n ?hd] by auto
    then show ?thesis by (simp add: w'(1) tl)
  qed
  have new: "req_slots w' ! ring_idx h (?hd + of_nat ?n) = s"
    using ring_idx_lt [OF ring] len by (simp add: w'(1) tl)
  show "live h w' = live h w @ [s]"
    using old new by (simp add: live_def cnt w'(3))
qed

text \<open>The ring after the head has moved on.\<close>

lemma live_pop:
  assumes "h_req_tail (hdr w) \<noteq> h_req_head (hdr w)"
    and w': "req_slots w' = req_slots w" "h_req_tail (hdr w') = h_req_tail (hdr w)"
      "h_req_head (hdr w') = h_req_head (hdr w) + 1"
  shows "live h w = req_slots w ! ring_idx h (h_req_head (hdr w)) # live h w'"
    and "queue_count w = Suc (queue_count w')"
proof -
  let ?d = "h_req_tail (hdr w) - h_req_head (hdr w)"
  have "unat (?d - 1) = unat ?d - 1" "unat ?d \<noteq> 0"
    using assms(1) by (auto simp: unat_minus_one unat_eq_0)
  moreover have "h_req_tail (hdr w') - h_req_head (hdr w') = ?d - 1"
    by (simp add: w' algebra_simps)
  ultimately show cnt: "queue_count w = Suc (queue_count w')"
    by (simp add: queue_count_def)
  show "live h w = req_slots w ! ring_idx h (h_req_head (hdr w)) # live h w'"
    unfolding live_def cnt
    by (simp add: upt_conv_Cons map_Suc_upt [symmetric] w' add.assoc del: upt_Suc)
qed

section \<open>Words of the operations\<close>

lemma len_mask: "REQREP_STR_LEN_MASK = mask 31"
  by (simp add: reqrep_consts mask_eq_exp_minus_1)

lemma bit_utf8_flag: "bit REQREP_UTF8_FLAG n \<longleftrightarrow> n = 31"
  using bit_writer [of n] by (simp add: reqrep_consts)

lemma len_le_mask: "\<not> len > REQREP_STR_LEN_MASK \<Longrightarrow> unat len < 2 ^ 31"
  by (simp add: reqrep_consts word_less_nat_alt)

lemma bit_small_len: "unat (len :: u32) < 2 ^ 31 \<Longrightarrow> bit len n \<Longrightarrow> n < 31"
proof -
  assume a: "unat len < 2 ^ 31" "bit len n"
  have "take_bit 31 (unat len) = unat len" using a(1) by (simp add: take_bit_nat_eq_self)
  then have "take_bit 31 len = len" by (simp add: word_unat_eq_iff unsigned_take_bit_eq)
  with a(2) show "n < 31" by (metis bit_take_bit_iff)
qed

lemma packed_len_decode:
  assumes "\<not> len > REQREP_STR_LEN_MASK"
  shows "(len OR (if utf8 then REQREP_UTF8_FLAG else 0)) AND REQREP_STR_LEN_MASK = len"
    and "((len OR (if utf8 then REQREP_UTF8_FLAG else 0)) AND REQREP_UTF8_FLAG \<noteq> 0) = utf8"
proof -
  note small = bit_small_len [OF len_le_mask [OF assms]]
  show "(len OR (if utf8 then REQREP_UTF8_FLAG else 0)) AND REQREP_STR_LEN_MASK = len"
    by (rule bit_word_eqI) (auto simp: len_mask bit_simps bit_utf8_flag dest: small)
  let ?x = "(len OR (if utf8 then REQREP_UTF8_FLAG else 0)) AND REQREP_UTF8_FLAG"
  have bits: "bit ?x n \<longleftrightarrow> n = 31 \<and> utf8" for n
    using small [of n] by (auto simp: bit_simps bit_utf8_flag)
  show "(?x \<noteq> 0) = utf8"
  proof (cases utf8)
    case True
    with bits [of 31] show ?thesis by (metis bit_0_eq bot_apply bot_bool_def)
  next
    case False
    have "?x = 0" by (rule bit_word_eqI) (use bits False in simp)
    with False show ?thesis by simp
  qed
qed

lemma unat_arena_alloc:
  assumes "\<not> len > REQREP_STR_LEN_MASK"
  shows "unat (arena_alloc len) = alloc_size (unat len)"
proof -
  have m: "(7 :: u32) = mask 3" by (simp add: mask_eq_exp_minus_1)
  have "unat ((len + mask 3) AND NOT (mask 3)) = round_up (2 ^ 3) (unat len)"
    using len_le_mask [OF assms] by (intro unat_align_up) simp_all
  then have r: "unat ((len + 7) AND NOT 7) = round_up 8 (unat len)" by (simp only: m) simp
  show ?thesis
  proof (cases "(len + 7) AND NOT 7 = 0")
    case True
    with r have "round_up 8 (unat len) = 0" by simp
    with True show ?thesis by (simp add: arena_alloc_def alloc_size_def)
  next
    case False
    with r have "round_up 8 (unat len) \<noteq> 0" by (metis unat_eq_0)
    moreover have "8 dvd round_up 8 (unat len)" by simp
    ultimately have "8 \<le> round_up 8 (unat len)" by (metis dvd_imp_le neq0_conv)
    with False r show ?thesis by (simp add: arena_alloc_def alloc_size_def Let_def)
  qed
qed

lemma alloc_size_lt: "n < 2 ^ 31 \<Longrightarrow> alloc_size n \<le> 2 ^ 31"
proof -
  assume "n < 2 ^ 31"
  then have "round_up 8 n \<le> round_up 8 (2 ^ 31)" by (intro round_up_mono) simp
  then show ?thesis by (simp add: alloc_size_def round_up_def)
qed

section \<open>Sending\<close>

lemma send_put_push:
  assumes shape: "queue_shape h w" and room: "queue_count w < unat (hn_req_cap h)"
    and len: "\<not> len > REQREP_STR_LEN_MASK" "length str = unat len"
    and fits: "unat pos + unat len \<le> unat (hn_req_arena_cap h)"
    and arena: "arena_ok (unat (hn_req_arena_cap h))
        (map region_of (live h w) @ [(unat pos, unat len, unat skip)])
        (unat (h_arena_used (hdr w)) + unat skip) (unat pos + alloc_size (unat len))"
    and disj: "\<forall>(off, l, sk) \<in> set (map region_of (live h w)).
        off + l \<le> unat pos \<or> unat pos + alloc_size (unat len) \<le> off"
    and bounds: "unat (h_arena_used (hdr w)) + unat skip < 2 ^ 32"
      "unat pos + alloc_size (unat len) < 2 ^ 32"
  shows "\<exists>w'. send_put h str len utf8 rs rg (arena_alloc len) pos skip w = Some (1, w') \<and>
      queue_ok h w' \<and> queue_abs h w' = queue_abs h w @ [(str, utf8, REQREP_MAKE_ID rs rg)] \<and>
      resp_area w' = resp_area w \<and> int_slots w' = int_slots w \<and> kcalls w' = kcalls w \<and>
      hdr w' = (hdr w)\<lparr>h_arena_wpos := pos + arena_alloc len,
                        h_arena_used := h_arena_used (hdr w) + ucast skip,
                        h_req_tail := h_req_tail (hdr w) + 1,
                        h_stat_requests := h_stat_requests (hdr w) + 1\<rparr>"
proof -
  let ?s = "\<lparr>rq_arena_off = pos, rq_packed_len = len OR (if utf8 then REQREP_UTF8_FLAG else 0),
             rq_arena_skip = ucast skip, rq_resp_slot = rs, rq_resp_gen = rg\<rparr>"
  let ?hdr = "(hdr w)\<lparr>h_arena_wpos := pos + arena_alloc len,
      h_arena_used := h_arena_used (hdr w) + ucast skip,
      h_req_tail := h_req_tail (hdr w) + 1, h_stat_requests := h_stat_requests (hdr w) + 1\<rparr>"
  have ring: "ring_ok h" and slots: "length (req_slots w) = unat (hn_req_cap h)"
    and alen: "length (req_arena w) = unat (hn_req_arena_cap h)"
    using shape by (auto simp: queue_shape_def)
  obtain arena' where mc: "memcpy (req_arena w) (unat pos) str 0 (unat len) = Some arena'"
    using fits alen len(2) by (auto simp: memcpy_def)
  define w' where "w' = w\<lparr>req_arena := arena',
     req_slots := (req_slots w)[ring_idx h (h_req_tail (hdr w)) := ?s], hdr := ?hdr\<rparr>"
  have ret: "send_put h str len utf8 rs rg (arena_alloc len) pos skip w = Some (1, w')"
    using ring_idx_lt [OF ring, of "h_req_tail (hdr w)"] slots
    by (simp add: send_put_def mc w'_def ring_idx_def Let_def)
  have lv: "live h w' = live h w @ [?s]" and cnt: "queue_count w' = Suc (queue_count w)"
    by (rule live_push [OF shape room, where s = ?s]; simp add: w'_def)+
  have sk: "unat (ucast skip :: u32) = unat skip"
    using bounds(1) by (simp add: unat_ucast_64_32)
  have reg: "region_of ?s = (unat pos, unat len, unat skip)"
    using packed_len_decode(1) [OF len(1), of utf8]
    by (simp add: region_of_def slot_len_def sk)
  have used: "unat (h_arena_used (hdr w) + ucast skip) = unat (h_arena_used (hdr w)) + unat skip"
    using bounds(1) sk by (simp add: unat_word_ariths)
  have wp: "unat (pos + arena_alloc len) = unat pos + alloc_size (unat len)"
    using bounds(2) unat_arena_alloc [OF len(1)] by (simp add: unat_word_ariths)
  have "queue_ok h w'"
    unfolding queue_ok_def queue_shape_def lv cnt
    using ring slots alen memcpy_length [OF mc] arena room reg used wp
    by (simp add: w'_def)
  moreover have "queue_abs h w' = queue_abs h w @ [(str, utf8, REQREP_MAKE_ID rs rg)]"
  proof -
    have ar: "req_arena w' = arena'" by (simp add: w'_def)
    have "request_of arena' s = request_of (req_arena w) s" if "s \<in> set (live h w)" for s
    proof -
      from that disj have "unat (rq_arena_off s) + slot_len s \<le> unat pos \<or>
          unat pos + alloc_size (unat len) \<le> unat (rq_arena_off s)"
        by (auto simp: region_of_def)
      then have "unat (rq_arena_off s) + slot_len s \<le> unat pos \<or>
          unat pos + unat len \<le> unat (rq_arena_off s)"
        using alloc_size_ge(1) [of "unat len"] by linarith
      from memcpy_slice_other [OF mc this] show ?thesis by (simp add: request_of_def)
    qed
    moreover have "request_of arena' ?s = (str, utf8, REQREP_MAKE_ID rs rg)"
      using memcpy_slice_same [OF mc] packed_len_decode [OF len(1), of utf8] len(2)
      by (simp add: request_of_def slot_len_def)
    ultimately show ?thesis
      by (simp add: queue_abs_def lv ar split del: if_split)
  qed
  ultimately show ?thesis using ret by (auto simp: w'_def)
qed

text \<open>The branches of \<^verbatim>\<open>reqrep_send_locked\<close>, each with its condition over the numbers.\<close>

lemma send_locked_too_long:
  "len > REQREP_STR_LEN_MASK \<Longrightarrow> reqrep_send_locked h str len utf8 rs rg w = Some (-2, w)"
  by (simp add: reqrep_send_locked_def)

lemma queue_full_iff:
  "h_req_tail (hdr w) - h_req_head (hdr w) \<ge> ucast (hn_req_cap h) \<longleftrightarrow>
     unat (hn_req_cap h) \<le> queue_count w"
  by (simp add: word_le_nat_alt queue_count_def unat_ucast_32_64)

lemma send_locked_slots_full:
  "\<not> len > REQREP_STR_LEN_MASK \<Longrightarrow> unat (hn_req_cap h) \<le> queue_count w \<Longrightarrow>
   reqrep_send_locked h str len utf8 rs rg w = Some (0, send_full w)"
  by (simp add: reqrep_send_locked_def queue_full_iff)

text \<open>With a free slot, in an arena with a regular write position: where the request goes.\<close>

lemma send_locked_place:
  fixes h w len
  defines "C \<equiv> unat (hn_req_arena_cap h)" and "W \<equiv> unat (h_arena_wpos (hdr w))"
    and "U \<equiv> unat (h_arena_used (hdr w))" and "A \<equiv> alloc_size (unat len)"
  assumes len: "\<not> len > REQREP_STR_LEN_MASK" and room: "queue_count w < unat (hn_req_cap h)"
    and W: "W \<le> C"
  shows "reqrep_send_locked h str len utf8 rs rg w =
    (if U + (if C < W + A then A + (C - W) else A) \<le> C
     then send_put h str len utf8 rs rg (arena_alloc len)
            (if C < W + A then 0 else h_arena_wpos (hdr w))
            (if C < W + A then ucast (arena_alloc len) + ucast (hn_req_arena_cap h - h_arena_wpos (hdr w))
             else ucast (arena_alloc len)) w
     else if h_req_tail (hdr w) = h_req_head (hdr w)
     then send_put h str len utf8 rs rg (arena_alloc len) 0 (ucast (arena_alloc len))
            (hdr_update (\<lambda>x. x\<lparr>h_arena_wpos := 0, h_arena_used := 0\<rparr>) w)
     else Some (0, send_full w))"
proof -
  have sub: "unat (hn_req_arena_cap h - h_arena_wpos (hdr w)) = C - W"
    using W by (simp add: unat_sub word_le_nat_alt C_def W_def)
  have A: "unat (arena_alloc len) = A" using unat_arena_alloc [OF len] by (simp add: A_def)
  have c1: "(ucast (hn_req_arena_cap h) :: u64) <
      ucast (h_arena_wpos (hdr w)) + ucast (arena_alloc len) \<longleftrightarrow> C < W + A"
    by (simp add: word_less_nat_alt word_nat A C_def W_def)
  have c2: "(ucast (hn_req_arena_cap h) :: u64) < ucast (h_arena_used (hdr w)) +
      (ucast (arena_alloc len) + ucast (hn_req_arena_cap h - h_arena_wpos (hdr w))) \<longleftrightarrow>
      \<not> U + (A + (C - W)) \<le> C"
    using sub A by (simp add: word_less_nat_alt word_nat C_def U_def not_le add.assoc)
  have c3: "(ucast (hn_req_arena_cap h) :: u64) < ucast (h_arena_used (hdr w)) +
      ucast (arena_alloc len) \<longleftrightarrow> \<not> U + A \<le> C"
    using A by (simp add: word_less_nat_alt word_nat C_def U_def not_le)
  show ?thesis
    using len room
    by (simp add: reqrep_send_locked_def queue_full_iff Let_def c1 c2 c3)
qed

lemma send_full_simps [simp]:
  "req_slots (send_full w) = req_slots w" "req_arena (send_full w) = req_arena w"
  "resp_area (send_full w) = resp_area w" "int_slots (send_full w) = int_slots w"
  "kcalls (send_full w) = kcalls w"
  "hdr (send_full w) = (hdr w)\<lparr>h_stat_send_full := h_stat_send_full (hdr w) + 1\<rparr>"
  by (simp_all add: send_full_def)

lemma send_full_queue [simp]:
  "queue_ok h (send_full w) = queue_ok h w" "queue_abs h (send_full w) = queue_abs h w"
  "queue_count (send_full w) = queue_count w"
  by (rule queue_frame; simp)+

text \<open>In an empty queue the arena is reset already, so the reset of line 743 changes nothing.\<close>

lemma queue_ok_empty:
  assumes "queue_ok h w" "h_req_tail (hdr w) = h_req_head (hdr w)"
  shows "h_arena_used (hdr w) = 0" "h_arena_wpos (hdr w) = 0"
    "hdr_update (\<lambda>x. x\<lparr>h_arena_wpos := 0, h_arena_used := 0\<rparr>) w = w"
proof -
  have "live h w = []" using assms(2) live_Nil by blast
  with assms(1) show z: "h_arena_used (hdr w) = 0" "h_arena_wpos (hdr w) = 0"
    by (auto simp: queue_ok_def unat_eq_0)
  then have "(hdr w)\<lparr>h_arena_wpos := 0, h_arena_used := 0\<rparr> = hdr w" by (cases "hdr w") simp
  then show "hdr_update (\<lambda>x. x\<lparr>h_arena_wpos := 0, h_arena_used := 0\<rparr>) w = w" by (cases w) simp
qed

text \<open>What a send that was accepted leaves behind.\<close>

definition sent :: "ReqRepHandle \<Rightarrow> request \<Rightarrow> shm \<Rightarrow> shm \<Rightarrow> bool" where
  "sent h r w w' \<longleftrightarrow> queue_ok h w' \<and> queue_abs h w' = queue_abs h w @ [r] \<and>
     resp_area w' = resp_area w \<and> int_slots w' = int_slots w \<and> kcalls w' = kcalls w \<and>
     (\<exists>p u. hdr w' = (hdr w)\<lparr>h_arena_wpos := p, h_arena_used := u,
        h_req_tail := h_req_tail (hdr w) + 1, h_stat_requests := h_stat_requests (hdr w) + 1\<rparr>)"

lemma sentI:
  assumes "reqrep_send_locked h str len utf8 rs rg w =
      send_put h str len utf8 rs rg (arena_alloc len) pos skip w"
    and "\<exists>w'. send_put h str len utf8 rs rg (arena_alloc len) pos skip w = Some (1, w') \<and>
      queue_ok h w' \<and> queue_abs h w' = queue_abs h w @ [r] \<and>
      resp_area w' = resp_area w \<and> int_slots w' = int_slots w \<and> kcalls w' = kcalls w \<and>
      hdr w' = (hdr w)\<lparr>h_arena_wpos := p, h_arena_used := u,
                        h_req_tail := h_req_tail (hdr w) + 1,
                        h_stat_requests := h_stat_requests (hdr w) + 1\<rparr>"
  shows "\<exists>w'. reqrep_send_locked h str len utf8 rs rg w = Some (1, w') \<and> sent h r w w'"
proof -
  from assms(2) obtain w' where
    "send_put h str len utf8 rs rg (arena_alloc len) pos skip w = Some (1, w')" "queue_ok h w'"
    "queue_abs h w' = queue_abs h w @ [r]" "resp_area w' = resp_area w"
    "int_slots w' = int_slots w" "kcalls w' = kcalls w"
    "hdr w' = (hdr w)\<lparr>h_arena_wpos := p, h_arena_used := u,
        h_req_tail := h_req_tail (hdr w) + 1, h_stat_requests := h_stat_requests (hdr w) + 1\<rparr>"
    by (elim exE conjE) (rule that)
  with assms(1) show ?thesis
    unfolding sent_def by (intro exI [of _ w'] conjI exI [of _ p] exI [of _ u]) simp_all
qed

lemma arena_cases:
  assumes "queue_ok h w"
  obtains (regular) "unat (h_arena_wpos (hdr w)) \<le> unat (hn_req_arena_cap h)"
    | (oversized) "queue_count w = 1"
      "unat (hn_req_arena_cap h) < unat (h_arena_wpos (hdr w))"
      "unat (h_arena_used (hdr w)) = unat (h_arena_wpos (hdr w))"
proof -
  let ?es = "map region_of (live h w)"
  from assms have ok: "arena_ok (unat (hn_req_arena_cap h)) ?es
      (unat (h_arena_used (hdr w))) (unat (h_arena_wpos (hdr w)))"
    by (simp add: queue_ok_def)
  then consider s where "s \<le> unat (hn_req_arena_cap h)"
      "chain (unat (hn_req_arena_cap h)) s ?es (unat (h_arena_wpos (hdr w)))"
    | l where "?es = [(0, l, alloc_size l)]" "unat (h_arena_wpos (hdr w)) = alloc_size l"
      "unat (hn_req_arena_cap h) < alloc_size l" "unat (h_arena_used (hdr w)) = alloc_size l"
    unfolding arena_ok_def by auto
  then show ?thesis
  proof cases
    case 1
    with chain_le show ?thesis by (intro regular) blast
  next
    case 2
    from 2(1) have "length ?es = 1" by simp
    then have "queue_count w = 1" by (simp only: length_map length_live)
    with 2 show ?thesis by (intro oversized) auto
  qed
qed

lemma send_locked_oversized:
  assumes "queue_count w = 1" "unat (hn_req_arena_cap h) < unat (h_arena_wpos (hdr w))"
    "unat (h_arena_used (hdr w)) = unat (h_arena_wpos (hdr w))" "\<not> len > REQREP_STR_LEN_MASK"
  shows "reqrep_send_locked h str len utf8 rs rg w = Some (0, send_full w)"
proof (cases "unat (hn_req_cap h) \<le> queue_count w")
  case True
  with assms(4) show ?thesis by (rule send_locked_slots_full)
next
  case False
  have "queue_count w \<noteq> 0" using assms(1) by simp
  then have ne: "h_req_tail (hdr w) \<noteq> h_req_head (hdr w)" by (simp add: queue_count_0)
  have c1: "(ucast (hn_req_arena_cap h) :: u64) <
      ucast (h_arena_wpos (hdr w)) + ucast (arena_alloc len)"
    using assms(2) by (simp add: word_less_nat_alt word_nat)
  have c2: "(ucast (hn_req_arena_cap h) :: u64) < ucast (h_arena_used (hdr w)) +
      (ucast (arena_alloc len) + ucast (hn_req_arena_cap h - h_arena_wpos (hdr w)))"
    using assms(2,3) by (simp add: word_less_nat_alt word_nat)
  show ?thesis
    using assms(4) False ne c1 c2 by (simp add: reqrep_send_locked_def queue_full_iff Let_def)
qed

lemma send_locked_regular:
  assumes ok: "queue_ok h w" and len: "\<not> len > REQREP_STR_LEN_MASK" "length str = unat len"
    and room: "queue_count w < unat (hn_req_cap h)"
    and W: "unat (h_arena_wpos (hdr w)) \<le> unat (hn_req_arena_cap h)"
    and fit: "unat (h_arena_used (hdr w)) +
       (if unat (hn_req_arena_cap h) < unat (h_arena_wpos (hdr w)) + alloc_size (unat len)
        then alloc_size (unat len) + (unat (hn_req_arena_cap h) - unat (h_arena_wpos (hdr w)))
        else alloc_size (unat len)) \<le> unat (hn_req_arena_cap h)"
  shows "\<exists>w'. reqrep_send_locked h str len utf8 rs rg w = Some (1, w') \<and>
           sent h (str, utf8, REQREP_MAKE_ID rs rg) w w'"
proof -
  let ?C = "unat (hn_req_arena_cap h)" and ?W = "unat (h_arena_wpos (hdr w))"
    and ?U = "unat (h_arena_used (hdr w))" and ?A = "alloc_size (unat len)"
  let ?wrap = "?C < ?W + ?A"
  define pos where "pos = (if ?wrap then 0 else h_arena_wpos (hdr w))"
  define skip :: u64 where "skip = (if ?wrap
     then ucast (arena_alloc len) + ucast (hn_req_arena_cap h - h_arena_wpos (hdr w))
     else ucast (arena_alloc len))"
  have A: "unat (arena_alloc len) = ?A" using len(1) by (rule unat_arena_alloc)
  have skip: "unat skip = (if ?wrap then ?A + (?C - ?W) else ?A)"
    using W by (auto simp: skip_def word_nat A unat_sub word_le_nat_alt)
  have pos: "unat pos = (if ?wrap then 0 else ?W)" by (simp add: pos_def)
  have new: "unat pos = ?W \<and> ?W + ?A \<le> ?C \<and> unat skip = ?A \<or>
      unat pos = 0 \<and> ?C < ?W + ?A \<and> unat skip = ?A + (?C - ?W)"
    using skip pos by auto
  have fit': "?U + unat skip \<le> ?C" using fit skip by simp
  have arena: "arena_ok ?C (map region_of (live h w)) ?U ?W" and shape: "queue_shape h w"
    using ok by (auto simp: queue_ok_def)
  note push = arena_ok_push [OF arena fit' new]
  have AC: "?A \<le> ?C" using fit' skip by (auto split: if_splits)
  then have "unat pos + ?A \<le> ?C" using pos by auto
  then have bounds: "?U + unat skip < 2 ^ 32" "unat pos + ?A < 2 ^ 32"
    "unat pos + unat len \<le> ?C"
  proof -
    show "?U + unat skip < 2 ^ 32" "unat pos + ?A < 2 ^ 32"
      using fit' \<open>unat pos + ?A \<le> ?C\<close> unat_lt_32 [of "hn_req_arena_cap h"] by simp_all
    show "unat pos + unat len \<le> ?C"
      using \<open>unat pos + ?A \<le> ?C\<close> alloc_size_ge(1) [of "unat len"] by linarith
  qed
  have "reqrep_send_locked h str len utf8 rs rg w =
      send_put h str len utf8 rs rg (arena_alloc len) pos skip w"
    using send_locked_place [OF len(1) room W] fit by (simp add: pos_def skip_def split del: if_split)
  then show ?thesis
    by (rule sentI) (rule send_put_push [OF shape room len bounds(3) push bounds(1,2)])
qed

text \<open>An empty queue: a request that fits the arena is accepted, a longer one overruns it.\<close>

lemma send_locked_empty:
  assumes ok: "queue_ok h w" and len: "\<not> len > REQREP_STR_LEN_MASK" "length str = unat len"
    and empty: "h_req_tail (hdr w) = h_req_head (hdr w)"
  shows "unat len \<le> unat (hn_req_arena_cap h) \<Longrightarrow>
           \<exists>w'. reqrep_send_locked h str len utf8 rs rg w = Some (1, w') \<and>
             sent h (str, utf8, REQREP_MAKE_ID rs rg) w w'"
    and "unat (hn_req_arena_cap h) < unat len \<Longrightarrow>
           reqrep_send_locked h str len utf8 rs rg w = None"
proof -
  let ?C = "unat (hn_req_arena_cap h)" and ?A = "alloc_size (unat len)"
  note z = queue_ok_empty [OF ok empty]
  have shape: "queue_shape h w" and ring: "ring_ok h" using ok by (auto simp: queue_ok_def queue_shape_def)
  have cnt: "queue_count w = 0" using empty by (simp add: queue_count_0)
  then have room: "queue_count w < unat (hn_req_cap h)" using ring_ok_pos [OF ring] by simp
  have W: "unat (h_arena_wpos (hdr w)) \<le> ?C" using z by simp
  have big: "reqrep_send_locked h str len utf8 rs rg w =
      send_put h str len utf8 rs rg (arena_alloc len) 0 (ucast (arena_alloc len)) w" if "?C < ?A"
    using send_locked_place [OF len(1) room W] that empty z by simp
  have lv: "live h w = []" using empty live_Nil by blast
  {
    assume le: "unat len \<le> ?C"
    show "\<exists>w'. reqrep_send_locked h str len utf8 rs rg w = Some (1, w') \<and>
        sent h (str, utf8, REQREP_MAKE_ID rs rg) w w'"
    proof (cases "?A \<le> ?C")
      case True
      with z show ?thesis by (intro send_locked_regular [OF ok len room W]) simp
    next
      case False
      have A: "unat (ucast (arena_alloc len) :: u64) = ?A"
        using unat_arena_alloc [OF len(1)] by (simp add: unat_ucast_32_64)
      have "?A \<le> 2 ^ 31" by (rule alloc_size_lt [OF len_le_mask [OF len(1)]])
      then have b: "unat (h_arena_used (hdr w)) + unat (ucast (arena_alloc len) :: u64) < 2 ^ 32"
        "unat (0 :: u32) + ?A < 2 ^ 32"
        using A z by simp_all
      have arena: "arena_ok ?C (map region_of (live h w) @ [(unat (0 :: u32), unat len,
          unat (ucast (arena_alloc len) :: u64))])
          (unat (h_arena_used (hdr w)) + unat (ucast (arena_alloc len) :: u64))
          (unat (0 :: u32) + ?A)"
        using False le A z lv by (auto simp: arena_ok_def)
      have "unat (0 :: u32) + unat len \<le> ?C" using le by simp
      note push = send_put_push [OF shape room len this arena _ b]
      have "reqrep_send_locked h str len utf8 rs rg w =
          send_put h str len utf8 rs rg (arena_alloc len) 0 (ucast (arena_alloc len)) w"
        using big False by simp
      then show ?thesis by (rule sentI) (rule push, simp add: lv)
    qed
  next
    assume gt: "?C < unat len"
    then have "?C < ?A" using alloc_size_ge(1) [of "unat len"] by linarith
    moreover have "length (req_arena w) = ?C" using shape by (simp add: queue_shape_def)
    ultimately show "reqrep_send_locked h str len utf8 rs rg w = None"
      using big gt by (simp add: send_put_def memcpy_def)
  }
qed

text \<open>A nonempty queue: either the request is queued or it is refused and nothing changes.\<close>

lemma send_locked_nonempty:
  assumes ok: "queue_ok h w" and len: "\<not> len > REQREP_STR_LEN_MASK" "length str = unat len"
    and ne: "h_req_tail (hdr w) \<noteq> h_req_head (hdr w)"
  shows "reqrep_send_locked h str len utf8 rs rg w = Some (0, send_full w) \<or>
         (\<exists>w'. reqrep_send_locked h str len utf8 rs rg w = Some (1, w') \<and>
            sent h (str, utf8, REQREP_MAKE_ID rs rg) w w')"
proof (cases "unat (hn_req_cap h) \<le> queue_count w")
  case True
  with send_locked_slots_full [OF len(1)] show ?thesis by blast
next
  case False
  then have room: "queue_count w < unat (hn_req_cap h)" by simp
  from ok show ?thesis
  proof (cases rule: arena_cases)
    case oversized
    with send_locked_oversized len(1) show ?thesis by blast
  next
    case regular
    let ?fit = "unat (h_arena_used (hdr w)) +
       (if unat (hn_req_arena_cap h) < unat (h_arena_wpos (hdr w)) + alloc_size (unat len)
        then alloc_size (unat len) + (unat (hn_req_arena_cap h) - unat (h_arena_wpos (hdr w)))
        else alloc_size (unat len)) \<le> unat (hn_req_arena_cap h)"
    show ?thesis
    proof (cases ?fit)
      case True
      from send_locked_regular [OF ok len room regular this] show ?thesis by blast
    next
      case False
      then show ?thesis
        using send_locked_place [OF len(1) room regular] ne by (simp split del: if_split)
    qed
  qed
qed

section \<open>Receiving\<close>

text \<open>The queue does not depend on the copy buffer of the handle that looks at it.\<close>

lemma queue_handle [simp]:
  "queue_ok (h\<lparr>hn_copy_buf := b, hn_copy_buf_cap := c\<rparr>) w = queue_ok h w"
  "queue_abs (h\<lparr>hn_copy_buf := b, hn_copy_buf_cap := c\<rparr>) w = queue_abs h w"
  by (simp_all add: queue_ok_def queue_shape_def queue_abs_def live_def ring_idx_def ring_ok_def
      [where h = "h\<lparr>hn_copy_buf := b, hn_copy_buf_cap := c\<rparr>"] ring_ok_def [of h])

lemma queue_handle_buf [simp]:
  "queue_ok (h\<lparr>hn_copy_buf := b\<rparr>) w = queue_ok h w"
  "queue_abs (h\<lparr>hn_copy_buf := b\<rparr>) w = queue_abs h w"
  using queue_handle [where h = h and b = b and c = "hn_copy_buf_cap h" and w = w] by simp_all

lemma copy_to_buf_Some:
  assumes "copy_buf_ok h" "len + 1 \<le> hn_copy_buf_cap h" "len + 1 \<noteq> 0"
    and "off + unat len \<le> length src"
  shows "\<exists>b. copy_to_buf h src off len = Some (h\<lparr>hn_copy_buf := b\<rparr>) \<and>
     length b = length (hn_copy_buf h) \<and> take (unat len) b = bslice src off (unat len) \<and>
     b ! unat len = 0"
proof -
  have "unat (len + 1) = unat len + 1" using assms(3) unatSuc [of len] by (simp add: add.commute)
  then have n: "unat len < length (hn_copy_buf h)"
    using assms(1,2) by (simp add: word_le_nat_alt copy_buf_ok_def)
  let ?m = "if len > 0 then memcpy (hn_copy_buf h) 0 src off (unat len) else Some (hn_copy_buf h)"
  have "\<exists>b. ?m = Some b \<and> length b = length (hn_copy_buf h) \<and>
      take (unat len) b = bslice src off (unat len)"
  proof (cases "len > 0")
    case True
    have "memcpy (hn_copy_buf h) 0 src off (unat len) \<noteq> None"
      using n assms(4) by (simp add: memcpy_def)
    then obtain b where "memcpy (hn_copy_buf h) 0 src off (unat len) = Some b" by blast
    with True memcpy_length [OF this] memcpy_slice_same [OF this] show ?thesis by simp
  next
    case False
    then have "len = 0" by (simp add: word_gt_0)
    with False show ?thesis by simp
  qed
  then obtain b where b: "?m = Some b" "length b = length (hn_copy_buf h)"
    "take (unat len) b = bslice src off (unat len)" by blast
  with n show ?thesis
    by (intro exI [of _ "b[unat len := 0]"]) (simp add: copy_to_buf_def)
qed

lemma head_of_queue:
  assumes "queue_ok h w" and ne: "h_req_tail (hdr w) \<noteq> h_req_head (hdr w)"
  defines "s \<equiv> req_slots w ! ring_idx h (h_req_head (hdr w))"
  defines "w' \<equiv> recv_pop s w"
  shows "ring_idx h (h_req_head (hdr w)) < length (req_slots w)"
    and "unat (rq_arena_off s) + slot_len s \<le> length (req_arena w)"
    and "queue_abs h w = request_of (req_arena w) s # queue_abs h w'"
    and "queue_ok h w'"
proof -
  let ?C = "unat (hn_req_arena_cap h)" and ?U = "unat (h_arena_used (hdr w))"
  have ring: "ring_ok h" and len: "length (req_slots w) = unat (hn_req_cap h)"
    "length (req_arena w) = ?C"
    and ok: "arena_ok ?C (map region_of (live h w)) ?U (unat (h_arena_wpos (hdr w)))"
    using assms(1) by (auto simp: queue_ok_def queue_shape_def)
  show "ring_idx h (h_req_head (hdr w)) < length (req_slots w)"
    using ring_idx_lt [OF ring] len by simp
  have lv: "live h w = s # live h w'" and cnt: "queue_count w = Suc (queue_count w')"
    unfolding s_def by (rule live_pop [OF ne]; simp add: w'_def recv_pop_def Let_def)+
  from ok have ok': "arena_ok ?C ((unat (rq_arena_off s), slot_len s, unat (rq_arena_skip s)) #
      map region_of (live h w')) ?U (unat (h_arena_wpos (hdr w)))"
    by (simp add: lv region_of_def)
  note pop = arena_ok_pop [OF ok']
  show "unat (rq_arena_off s) + slot_len s \<le> length (req_arena w)"
    unfolding len by (rule arena_ok_bounds [OF ok', of _ _ "unat (rq_arena_skip s)"]) simp
  show "queue_abs h w = request_of (req_arena w) s # queue_abs h w'"
    by (simp add: queue_abs_def lv w'_def recv_pop_def Let_def)
  define u where "u = (if h_arena_used (hdr w) \<ge> rq_arena_skip s
      then h_arena_used (hdr w) - rq_arena_skip s else 0)"
  have u: "unat u = ?U - unat (rq_arena_skip s)"
    using pop(1) by (simp add: u_def word_le_nat_alt unat_sub)
  have wp: "unat (if u = 0 then 0 else h_arena_wpos (hdr w)) =
      (if ?U - unat (rq_arena_skip s) = 0 then 0 else unat (h_arena_wpos (hdr w)))"
    using u by (cases "u = 0") (auto simp: unat_eq_0)
  have "arena_ok ?C (map region_of (live h w')) (unat (h_arena_used (hdr w')))
      (unat (h_arena_wpos (hdr w')))"
    using pop(2) u wp by (simp add: w'_def recv_pop_def Let_def u_def [symmetric])
  then show "queue_ok h w'"
    using assms(1) cnt by (simp add: queue_ok_def queue_shape_def w'_def recv_pop_def Let_def)
qed


lemma recv_pop_frame:
  "resp_area (recv_pop s w) = resp_area w" "int_slots (recv_pop s w) = int_slots w"
  "kcalls (recv_pop s w) = kcalls w"
  by (simp_all add: recv_pop_def Let_def)

lemma recv_pop_hdr:
  "\<exists>u p. hdr (recv_pop s w) = (hdr w)\<lparr>h_arena_used := u, h_arena_wpos := p,
     h_req_head := h_req_head (hdr w) + 1\<rparr>"
proof -
  let ?u = "if h_arena_used (hdr w) \<ge> rq_arena_skip s
            then h_arena_used (hdr w) - rq_arena_skip s else 0"
  have "hdr (recv_pop s w) = (hdr w)\<lparr>h_arena_used := ?u,
      h_arena_wpos := (if ?u = 0 then 0 else h_arena_wpos (hdr w)),
      h_req_head := h_req_head (hdr w) + 1\<rparr>"
    by (simp add: recv_pop_def Let_def split del: if_split)
  then show ?thesis by blast
qed

lemma small_plus_1: "unat (x :: u32) < 2 ^ 31 \<Longrightarrow> x + 1 \<noteq> 0"
proof
  assume "unat x < 2 ^ 31" "x + 1 = 0"
  then have "x = 0xFFFFFFFF" by (simp add: add_eq_0_iff2)
  with \<open>unat x < 2 ^ 31\<close> show False by simp
qed

text \<open>The three outcomes of a receive.\<close>

definition received :: "ReqRepHandle \<Rightarrow> shm \<Rightarrow> recv_out \<Rightarrow> ReqRepHandle \<Rightarrow> shm \<Rightarrow> bool" where
  "received h w r h' w' \<longleftrightarrow> queue_ok h' w' \<and> copy_buf_ok h' \<and>
     (\<exists>b c. h' = h\<lparr>hn_copy_buf := b, hn_copy_buf_cap := c\<rparr> \<and>
        b ! unat (ro_len r) = 0 \<and> unat (ro_len r) < length b) \<and>
     queue_abs h w = (ro_str r, ro_utf8 r, ro_id r) # queue_abs h' w' \<and>
     length (ro_str r) = unat (ro_len r) \<and> resp_area w' = resp_area w \<and>
     int_slots w' = int_slots w \<and> kcalls w' = kcalls w \<and>
     (\<exists>u p. hdr w' = (hdr w)\<lparr>h_arena_used := u, h_arena_wpos := p,
        h_req_head := h_req_head (hdr w) + 1\<rparr>)"

lemma recv_locked_empty:
  "h_req_tail (hdr w) = h_req_head (hdr w) \<Longrightarrow> reqrep_recv_locked os h w =
     Some (0, None, h, hdr_update (\<lambda>x. x\<lparr>h_stat_recv_empty := h_stat_recv_empty x + 1\<rparr>) w)"
  by (simp add: reqrep_recv_locked_def)

lemma recv_locked_nonempty:
  assumes ok: "queue_ok h w" "copy_buf_ok h" and ne: "h_req_tail (hdr w) \<noteq> h_req_head (hdr w)"
  shows "(\<exists>n. \<not> os_realloc os [] n) \<and> reqrep_recv_locked os h w = Some (-1, None, h, w) \<or>
         (\<exists>r h' w'. reqrep_recv_locked os h w = Some (1, Some r, h', w') \<and> received h w r h' w')"
proof -
  let ?s = "req_slots w ! ring_idx h (h_req_head (hdr w))"
  let ?len = "rq_packed_len ?s AND REQREP_STR_LEN_MASK"
  note hd = head_of_queue [OF ok(1) ne]
  obtain b h1 where e: "reqrep_ensure_copy_buf os h (?len + 1) = (b, h1)" by force
  have small: "unat ?len < 2 ^ 31"
    by (simp add: len_mask unat_and_mask)
  then have nz: "?len + 1 \<noteq> 0" by (rule small_plus_1)
  show ?thesis
  proof (cases b)
    case False
    with e ensure_copy_buf_False [of os h "?len + 1" h1] hd(1) ne show ?thesis
      by (auto simp: reqrep_recv_locked_def Let_def ring_idx_def)
  next
    case True
    then have e': "reqrep_ensure_copy_buf os h (?len + 1) = (True, h1)" using e by simp
    note e1 = ensure_copy_buf_True [OF e' ok(2)]
    have off: "unat (rq_arena_off ?s) + unat ?len \<le> length (req_arena w)"
      using hd(2) by (simp add: slot_len_def)
    from copy_to_buf_Some [OF e1(1,2) nz off] obtain buf where
      buf: "copy_to_buf h1 (req_arena w) (unat (rq_arena_off ?s)) ?len = Some (h1\<lparr>hn_copy_buf := buf\<rparr>)"
      "length buf = length (hn_copy_buf h1)" "buf ! unat ?len = 0"
      "take (unat ?len) buf = bslice (req_arena w) (unat (rq_arena_off ?s)) (unat ?len)"
      by blast
    define r where "r = \<lparr>ro_str = take (unat ?len) buf, ro_len = ?len,
        ro_utf8 = (rq_packed_len ?s AND REQREP_UTF8_FLAG) \<noteq> 0,
        ro_id = REQREP_MAKE_ID (rq_resp_slot ?s) (rq_resp_gen ?s)\<rparr>"
    have run: "reqrep_recv_locked os h w = Some (1, Some r, h1\<lparr>hn_copy_buf := buf\<rparr>, recv_pop ?s w)"
      using ne hd(1) e' buf(1) by (simp add: reqrep_recv_locked_def Let_def ring_idx_def r_def)
    from e1(3) obtain b0 c where h1: "h1 = h\<lparr>hn_copy_buf := b0, hn_copy_buf_cap := c\<rparr>" by blast
    have "unat ?len + 1 = unat (?len + 1)" using nz unatSuc [of ?len] by (simp add: add.commute)
    with e1(1,2) buf(2) have lt: "unat ?len < length buf"
      by (simp add: copy_buf_ok_def word_le_nat_alt)
    have h2: "h1\<lparr>hn_copy_buf := buf\<rparr> = h\<lparr>hn_copy_buf := buf, hn_copy_buf_cap := c\<rparr>"
      by (simp add: h1)
    have "received h w r (h\<lparr>hn_copy_buf := buf, hn_copy_buf_cap := c\<rparr>) (recv_pop ?s w)"
      unfolding received_def
    proof (intro conjI)
      show "copy_buf_ok (h\<lparr>hn_copy_buf := buf, hn_copy_buf_cap := c\<rparr>)"
        using e1(1) buf(2) by (simp add: copy_buf_ok_def h1)
      show "length (ro_str r) = unat (ro_len r)" using lt by (simp add: r_def)
      show "\<exists>b c'. h\<lparr>hn_copy_buf := buf, hn_copy_buf_cap := c\<rparr> =
          h\<lparr>hn_copy_buf := b, hn_copy_buf_cap := c'\<rparr> \<and> b ! unat (ro_len r) = 0 \<and>
          unat (ro_len r) < length b"
        using buf(3) lt by (intro exI [of _ buf] exI [of _ c]) (simp add: r_def)
      show "\<exists>u p. hdr (recv_pop ?s w) = (hdr w)\<lparr>h_arena_used := u, h_arena_wpos := p,
          h_req_head := h_req_head (hdr w) + 1\<rparr>"
        by (rule recv_pop_hdr)
    qed (use hd(3,4) buf(4) in \<open>simp_all add: r_def request_of_def slot_len_def recv_pop_frame\<close>)
    with run h2 show ?thesis by metis
  qed
qed

section \<open>A new mapping\<close>

lemma mask_of_pow2: "unat (c :: u32) = 2 ^ k \<Longrightarrow> c - 1 = mask k"
proof -
  assume "unat c = 2 ^ k"
  moreover have "c = of_nat (unat c)" by simp
  ultimately have "c = 2 ^ k" by simp
  then show ?thesis by (simp add: mask_eq_exp_minus_1)
qed

lemma fresh_str_simps:
  "length (req_slots (fresh_str c n d l)) = unat c"
  "length (req_arena (fresh_str c n d l)) = unat (sl_req_arena_cap l)"
  "int_slots (fresh_str c n d l) = []" "kcalls (fresh_str c n d l) = []"
  "resp_area (fresh_str c n d l) = replicate (unat n) (zero_resp_slot (sl_resp_stride l))"
  by (simp_all add: fresh_str_def reqrep_init_header_def zero_str_mapping_def clear_resp_header_def
      zero_resp_slot_def)

lemma created_queue:
  assumes "unat c = 2 ^ k" "k \<le> 31"
    and "reqrep_setup_handle kn (fresh_str c n d l) sz path fd = Some h"
  shows "queue_ok h (fresh_str c n d l)" "queue_abs h (fresh_str c n d l) = []" "copy_buf_ok h"
proof -
  let ?w = "fresh_str c n d l"
  have h: "hn_req_cap h = c" "hn_req_cap_mask h = c - 1" "hn_req_arena_cap h = sl_req_arena_cap l"
    "hn_copy_buf h = []" "hn_copy_buf_cap h = 0"
    using assms(3) by (auto simp: reqrep_setup_handle_def fresh_str_hdr split: if_splits)
  have e: "h_req_tail (hdr ?w) = h_req_head (hdr ?w)" "h_arena_used (hdr ?w) = 0"
    "h_arena_wpos (hdr ?w) = 0"
    by (simp_all add: fresh_str_hdr zero_header_def)
  have lv: "live h ?w = []" using live_Nil e(1) by blast
  have "ring_ok h" using assms(1,2) mask_of_pow2 [OF assms(1)] by (auto simp: ring_ok_def h)
  then show "queue_ok h ?w"
    using e by (simp add: queue_ok_def queue_shape_def lv h fresh_str_simps(1,2) queue_count_def)
  show "queue_abs h ?w = []" by (simp add: queue_abs_def lv)
  show "copy_buf_ok h" by (simp add: copy_buf_ok_def h)
qed

text \<open>A small created queue, for evaluating the properties: four slots and an arena of 4096
  bytes.\<close>

lemma demo_queue:
  obtains h w where "queue_ok h w" "queue_abs h w = []" "copy_buf_ok h"
    "hn_req_arena_cap h = 4096" "hn_req_cap h = 4" "hn_resp_slots h = 1" "hn_resp_data_max h = 16"
    "w = fresh_str 4 1 16 \<lparr>sl_req_slots_off = 256, sl_req_arena_off = 352,
      sl_req_arena_cap = 4096, sl_resp_off = 4480, sl_resp_stride = 64, sl_total_size = 4544\<rparr>"
proof -
  let ?l = "\<lparr>sl_req_slots_off = 256, sl_req_arena_off = 352, sl_req_arena_cap = 4096,
      sl_resp_off = 4480, sl_resp_stride = 64, sl_total_size = 4544\<rparr> :: str_layout"
  obtain h where h: "reqrep_setup_handle (granting 0 no_file) (fresh_str 4 1 16 ?l) 4544 None (-1) = Some h"
    by (simp add: reqrep_setup_handle_def granting_def)
  then have "hn_req_arena_cap h = 4096" "hn_req_cap h = 4" "hn_resp_slots h = 1"
    "hn_resp_data_max h = 16"
    by (auto simp: reqrep_setup_handle_def fresh_str_hdr split: if_splits)
  with created_queue [OF _ _ h, of 2] that show ?thesis by simp
qed

section \<open>Properties of the locked operations\<close>

text \<open>
  Property C7. Pushing a request with the mutex held, on every branch. A request longer than
  31 bits is refused with -2 and nothing happens. Otherwise the call overruns the arena exactly
  when the queue is empty and the request is longer than the whole arena; in every other case
  it returns, and it either appends the request, with its bytes, its UTF-8 flag and its
  identifier, behind all queued ones and keeps the invariant (1), or only counts a refusal (0).
\<close>

theorem send_locked_spec:
  assumes ok: "queue_ok h w" and str: "length str = unat len"
  shows "(len > REQREP_STR_LEN_MASK \<longrightarrow>
            reqrep_send_locked h str len utf8 rs rg w = Some (-2, w)) \<and>
         (\<not> len > REQREP_STR_LEN_MASK \<longrightarrow>
            (reqrep_send_locked h str len utf8 rs rg w = None \<longleftrightarrow>
               queue_abs h w = [] \<and> unat (hn_req_arena_cap h) < unat len) \<and>
            (\<forall>r w'. reqrep_send_locked h str len utf8 rs rg w = Some (r, w') \<longrightarrow>
               r = 1 \<and> sent h (str, utf8, REQREP_MAKE_ID rs rg) w w' \<or>
               r = 0 \<and> w' = send_full w \<and> queue_abs h w \<noteq> []))"
proof (intro conjI impI)
  assume "len > REQREP_STR_LEN_MASK"
  then show "reqrep_send_locked h str len utf8 rs rg w = Some (-2, w)"
    by (rule send_locked_too_long)
next
  assume len: "\<not> len > REQREP_STR_LEN_MASK"
  let ?s = "reqrep_send_locked h str len utf8 rs rg w"
  have nil: "queue_abs h w = [] \<longleftrightarrow> h_req_tail (hdr w) = h_req_head (hdr w)"
    using live_Nil [of h w] by (simp add: queue_abs_def)
  have "(?s = None \<longleftrightarrow> queue_abs h w = [] \<and> unat (hn_req_arena_cap h) < unat len) \<and>
      (\<forall>r w'. ?s = Some (r, w') \<longrightarrow>
               r = 1 \<and> sent h (str, utf8, REQREP_MAKE_ID rs rg) w w' \<or>
               r = 0 \<and> w' = send_full w \<and> queue_abs h w \<noteq> [])"
  proof (cases "h_req_tail (hdr w) = h_req_head (hdr w)")
    case True
    note e = send_locked_empty [OF ok len str True, of utf8 rs rg]
    show ?thesis
    proof (cases "unat len \<le> unat (hn_req_arena_cap h)")
      case fits: True
      with e(1) nil show ?thesis by fastforce
    next
      case False
      with e(2) nil True show ?thesis by simp
    qed
  next
    case False
    from send_locked_nonempty [OF ok len str False, of utf8 rs rg] show ?thesis
    proof (elim disjE exE)
      assume "?s = Some (0, send_full w)"
      with False nil show ?thesis by simp
    next
      fix w' assume "?s = Some (1, w') \<and> sent h (str, utf8, REQREP_MAKE_ID rs rg) w w'"
      with False nil show ?thesis by simp
    qed
  qed
  then show "(?s = None) = (queue_abs h w = [] \<and> unat (hn_req_arena_cap h) < unat len)"
    and "\<forall>r w'. ?s = Some (r, w') \<longrightarrow>
               r = 1 \<and> sent h (str, utf8, REQREP_MAKE_ID rs rg) w w' \<or>
               r = 0 \<and> w' = send_full w \<and> queue_abs h w \<noteq> []"
    by blast+
qed

theorem send_locked_spec_witness:
  "\<exists>h w w'. queue_ok h w \<and>
     reqrep_send_locked h [104, 105] 2 False 0 1 w = Some (1, w') \<and>
     sent h ([104, 105], False, REQREP_MAKE_ID 0 1) w w'"
proof -
  obtain h w where q: "queue_ok h w" "queue_abs h w = []" "hn_req_arena_cap h = 4096"
    using demo_queue by metis
  have "\<not> (2 :: u32) > REQREP_STR_LEN_MASK" by (simp add: reqrep_consts)
  with send_locked_spec [OF q(1), of "[104, 105]" 2 False 0 1] q(2,3)
  have "reqrep_send_locked h [104, 105] 2 False 0 1 w \<noteq> None"
    "\<And>r w'. reqrep_send_locked h [104, 105] 2 False 0 1 w = Some (r, w') \<Longrightarrow>
       r = 1 \<and> sent h ([104, 105], False, REQREP_MAKE_ID 0 1) w w'"
    by auto
  with q(1) show ?thesis by (metis not_None_eq old.prod.exhaust)
qed

text \<open>
  Property C8. Popping a request with the mutex held never reads or writes outside the arena,
  the ring or the copy buffer: on an empty queue it counts and returns 0; otherwise it either
  fails to allocate the copy buffer, returns -1 and leaves queue and handle as they are, or it
  returns the oldest request, byte for byte and NUL-terminated in the copy buffer, and leaves
  the rest of the queue with the invariant intact.
\<close>

theorem recv_locked_spec:
  assumes ok: "queue_ok h w" "copy_buf_ok h"
  shows "case queue_abs h w of
           [] \<Rightarrow> reqrep_recv_locked os h w = Some (0, None, h,
                   hdr_update (\<lambda>x. x\<lparr>h_stat_recv_empty := h_stat_recv_empty x + 1\<rparr>) w)
         | _ \<Rightarrow> (\<exists>n. \<not> os_realloc os [] n) \<and> reqrep_recv_locked os h w = Some (-1, None, h, w) \<or>
               (\<exists>r h' w'. reqrep_recv_locked os h w = Some (1, Some r, h', w') \<and> received h w r h' w')"
proof (cases "h_req_tail (hdr w) = h_req_head (hdr w)")
  case True
  then have "queue_abs h w = []" using live_Nil [of h w] by (simp add: queue_abs_def)
  with recv_locked_empty [OF True] show ?thesis by simp
next
  case False
  then have "queue_abs h w \<noteq> []" using live_Nil [of h w] by (simp add: queue_abs_def)
  then obtain x xs where "queue_abs h w = x # xs" by (cases "queue_abs h w") auto
  with recv_locked_nonempty [OF ok False, of os] show ?thesis by simp
qed

theorem recv_locked_spec_witness:
  "\<exists>h w r h' w'. reqrep_recv_locked quiet_os h w = Some (1, Some r, h', w') \<and>
     received h w r h' w' \<and> ro_str r = [104, 105] \<and> ro_utf8 r"
proof -
  obtain h w0 where q: "queue_ok h w0" "queue_abs h w0 = []" "copy_buf_ok h" "hn_req_arena_cap h = 4096"
    using demo_queue by metis
  have e: "h_req_tail (hdr w0) = h_req_head (hdr w0)"
    using q(2) live_Nil [of h w0] by (simp add: queue_abs_def)
  have "\<exists>w'. reqrep_send_locked h [104, 105] 2 True 0 1 w0 = Some (1, w') \<and>
      sent h ([104, 105], True, REQREP_MAKE_ID 0 1) w0 w'"
    by (rule send_locked_empty(1) [OF q(1) _ _ e]) (simp_all add: reqrep_consts q(4))
  then obtain w where w: "queue_ok h w" "queue_abs h w = [([104, 105], True, REQREP_MAKE_ID 0 1)]"
    using q(2) by (auto simp: sent_def)
  from recv_locked_spec [OF w(1) q(3), of quiet_os] w(2)
  have "\<exists>r h' w'. reqrep_recv_locked quiet_os h w = Some (1, Some r, h', w') \<and> received h w r h' w'"
    by (simp add: quiet_os_def)
  with w(2) show ?thesis unfolding received_def by fastforce
qed

section \<open>The string queue is a bounded FIFO\<close>

definition str_enq :: "request \<Rightarrow> ReqRepHandle \<times> shm \<Rightarrow> (bool \<times> ReqRepHandle \<times> shm) option" where
  "str_enq r s = (case (r, s) of ((str, utf8, id'), (h, w)) \<Rightarrow>
     map_option (\<lambda>(c, w'). (c = 1, h, w'))
       (reqrep_send_locked h str (of_nat (length str)) utf8 (REQREP_ID_SLOT id')
          (REQREP_ID_GEN id') w))"

definition str_deq :: "os \<Rightarrow> ReqRepHandle \<times> shm \<Rightarrow> (request option \<times> ReqRepHandle \<times> shm) option" where
  "str_deq os s = (case s of (h, w) \<Rightarrow>
     map_option (\<lambda>(c, r, h', w').
         (map_option (\<lambda>r. (ro_str r, ro_utf8 r, ro_id r)) r, h', w'))
       (reqrep_recv_locked os h w))"

definition str_inv :: "ReqRepHandle \<times> shm \<Rightarrow> bool" where
  "str_inv s \<longleftrightarrow> queue_ok (fst s) (snd s) \<and> copy_buf_ok (fst s)"

definition str_cont :: "ReqRepHandle \<times> shm \<Rightarrow> request list" where
  "str_cont s = queue_abs (fst s) (snd s)"

text \<open>The requests the queue can take: shorter than 2 to the 31 and no longer than the arena.\<close>

definition str_adm :: "ReqRepHandle \<times> shm \<Rightarrow> request \<Rightarrow> bool" where
  "str_adm s r \<longleftrightarrow> length (fst r) < 2 ^ 31 \<and> length (fst r) \<le> unat (hn_req_arena_cap (fst s))"

definition str_capacity :: "ReqRepHandle \<times> shm \<Rightarrow> nat" where
  "str_capacity s = unat (hn_req_cap (fst s))"

lemmas str_queue_defs = str_inv_def str_cont_def str_adm_def str_capacity_def

lemma str_enq_cases:
  assumes "str_inv (h, w)" "str_adm (h, w) r"
  shows "str_enq r (h, w) = Some (False, h, send_full w) \<or>
     (\<exists>w'. str_enq r (h, w) = Some (True, h, w') \<and> sent h r w w')"
proof -
  obtain str utf8 id' where r: "r = (str, utf8, id')" by (cases r)
  let ?len = "of_nat (length str) :: u32"
  have n: "unat ?len = length str" "\<not> ?len > REQREP_STR_LEN_MASK"
    using assms(2) by (auto simp: str_adm_def r unat_of_nat reqrep_consts word_less_nat_alt)
  let ?s = "reqrep_send_locked h str ?len utf8 (REQREP_ID_SLOT id') (REQREP_ID_GEN id') w"
  have ok: "queue_ok h w" using assms(1) by (simp add: str_inv_def)
  have "?s = Some (0, send_full w) \<or> (\<exists>w'. ?s = Some (1, w') \<and> sent h r w w')"
  proof (cases "h_req_tail (hdr w) = h_req_head (hdr w)")
    case True
    have "unat ?len \<le> unat (hn_req_arena_cap h)" using assms(2) n(1) by (simp add: str_adm_def r)
    from send_locked_empty(1) [OF ok n(2) n(1) [symmetric] True this, of utf8 "REQREP_ID_SLOT id'"
        "REQREP_ID_GEN id'"]
    show ?thesis by (simp add: r make_id_parts)
  next
    case False
    from send_locked_nonempty [OF ok n(2) n(1) [symmetric] False, of utf8 "REQREP_ID_SLOT id'"
        "REQREP_ID_GEN id'"]
    show ?thesis by (simp add: r make_id_parts)
  qed
  then show ?thesis by (auto simp: str_enq_def r)
qed

lemma str_deq_cases:
  assumes "str_inv (h, w)"
  shows "(\<exists>w'. str_deq os (h, w) = Some (None, h, w') \<and> queue_ok h w' \<and> queue_abs h w' = queue_abs h w)
    \<or> (\<exists>r h' w'. str_deq os (h, w) = Some (Some (ro_str r, ro_utf8 r, ro_id r), h', w') \<and>
         received h w r h' w')"
proof (cases "h_req_tail (hdr w) = h_req_head (hdr w)")
  case True
  let ?w = "hdr_update (\<lambda>x. x\<lparr>h_stat_recv_empty := h_stat_recv_empty x + 1\<rparr>) w"
  have "queue_ok h ?w = queue_ok h w" "queue_abs h ?w = queue_abs h w"
    by (rule queue_frame; simp)+
  with assms recv_locked_empty [OF True, of os h] show ?thesis
    by (auto simp: str_deq_def str_inv_def)
next
  case False
  from assms have "queue_ok h w" "copy_buf_ok h" by (auto simp: str_inv_def)
  from recv_locked_nonempty [OF this False, of os] this show ?thesis
    by (auto simp: str_deq_def)
qed

interpretation strq: bounded_fifo str_inv str_cont str_adm str_capacity str_enq "str_deq os"
proof
  fix s r assume a: "str_inv s" "str_adm s r"
  obtain h w where s: "s = (h, w)" by (cases s)
  note e = str_enq_cases [OF a [unfolded s]]
  from e show "\<exists>ok s'. str_enq r s = Some (ok, s')" by (auto simp: s)
  fix ok s' assume "str_enq r s = Some (ok, s')"
  with e a(1) show "str_inv s'" by (auto simp: s str_inv_def sent_def)
  from \<open>str_enq r s = Some (ok, s')\<close> e show "str_adm s' = str_adm s"
    by (auto simp: s str_adm_def fun_eq_iff)
next
  fix s r s' assume a: "str_inv s" "str_adm s r"
  obtain h w where s: "s = (h, w)" by (cases s)
  note e = str_enq_cases [OF a [unfolded s]]
  show "str_cont s' = str_cont s @ [r]" if "str_enq r s = Some (True, s')"
    using that e by (auto simp: s str_cont_def sent_def)
  show "str_cont s' = str_cont s" if "str_enq r s = Some (False, s')"
    using that e by (auto simp: s str_cont_def)
next
  fix s assume a: "str_inv s"
  obtain h w where s: "s = (h, w)" by (cases s)
  note d = str_deq_cases [OF a [unfolded s], of os]
  show "\<exists>r s'. str_deq os s = Some (r, s')" using d by (auto simp: s)
  show "length (str_cont s) \<le> str_capacity s"
    using a by (auto simp: str_queue_defs queue_ok_def)
  fix r s' assume r: "str_deq os s = Some (r, s')"
  show "str_inv s'" using r d a by (auto simp: s str_inv_def received_def)
  show "str_adm s' = str_adm s"
    using r d by (auto simp: s str_adm_def fun_eq_iff received_def)
next
  fix s s' assume a: "str_inv s"
  obtain h w where s: "s = (h, w)" by (cases s)
  note d = str_deq_cases [OF a [unfolded s], of os]
  show "str_cont s = x # str_cont s'" if "str_deq os s = Some (Some x, s')" for x
    using that d by (auto simp: s str_cont_def received_def)
  show "str_cont s' = str_cont s" if "str_deq os s = Some (None, s')"
    using that d by (auto simp: s str_cont_def)
qed

text \<open>
  Property C1. First in, first out, for any sequence of receives and of sends of requests that are
  each no longer than the arena and shorter than \<open>2 ^ 31\<close> bytes, on an empty string queue: every operation
  returns without touching memory outside its objects, the requests received are exactly the
  first of those accepted, in order and unchanged, whatever the positions, the wrap-around of the
  arena and the growth of the copy buffer; the rest is still queued and never exceeds the
  capacity. A request longer than the arena is outside this property: sent to an empty queue it
  overruns the arena, as the property of \<^verbatim>\<open>reqrep_send_locked\<close> above states.
\<close>

theorem string_queue_fifo:
  assumes "queue_ok h w" "copy_buf_ok h" "queue_abs h w = []"
    and "\<And>r. r \<in> enqueued ops \<Longrightarrow> str_adm (h, w) r"
  shows "\<exists>acc rcv h' w'. fifo_run str_enq (str_deq os) ops (h, w) = Some (acc, rcv, h', w') \<and>
           acc = rcv @ queue_abs h' w' \<and> length acc - length rcv \<le> str_capacity (h', w')"
  using strq.run_from_empty [of "(h, w)" ops os] assms
  by (auto simp: str_inv_def str_cont_def)

theorem string_queue_fifo_witness:
  "\<exists>h w acc rcv h' w'.
     fifo_run str_enq (str_deq quiet_os) [Enq ([1, 2], True, 5), Deq, Enq ([], False, 6)] (h, w) =
       Some (acc, rcv, h', w') \<and> acc = rcv @ queue_abs h' w'"
proof -
  obtain h w where q: "queue_ok h w" "queue_abs h w = []" "copy_buf_ok h" "hn_req_arena_cap h = 4096"
    using demo_queue by metis
  have "str_adm (h, w) r"
    if "r \<in> enqueued [Enq ([1, 2], True, 5), Deq, Enq ([], False, 6)]" for r
    using that q(4) by (auto simp: str_adm_def)
  then show ?thesis
    using string_queue_fifo [OF q(1,3,2), of "[Enq ([1, 2], True, 5), Deq, Enq ([], False, 6)]" quiet_os]
    by blast
qed

end
