(* ===== verification/RR_Slots.thy ===== *)
theory RR_Slots
  imports RR_Queue
begin

text \<open>
  The response slots (\<^verbatim>\<open>gen/reqrep.h\<close>, lines 317 to 366, 924 to 978, 1033 to 1049 and 1087 to
  1098): acquiring a slot, with the recovery of slots whose owner died, replying, fetching,
  cancelling and counting. Nothing here holds a lock, so every atomic access is preceded by
  \<open>others os k\<close>, the \<open>k\<close>-th point of the function at which other processes may change the
  mapping; the plain accesses to the reply itself form one step each.
\<close>

section \<open>Atomic accesses to a slot\<close>

definition upd_resp :: "u32 \<Rightarrow> (RespSlot \<Rightarrow> RespSlot) \<Rightarrow> shm \<Rightarrow> shm option" where
  "upd_resp idx f w = do { s \<leftarrow> reqrep_resp_slot w idx; Some (set_resp_slot idx (f s) w) }"

text \<open>\<^verbatim>\<open>__atomic_compare_exchange_n(&slot->state, ...)\<close>, strong: whether it succeeded.\<close>

definition cas_state :: "u32 \<Rightarrow> u32 \<Rightarrow> u32 \<Rightarrow> shm \<Rightarrow> (bool \<times> shm) option" where
  "cas_state idx expected new w = do {
     s \<leftarrow> reqrep_resp_slot w idx;
     if rs_state s = expected then Some (True, set_resp_slot idx (s\<lparr>rs_state := new\<rparr>) w)
     else Some (False, w) }"

section \<open>Acquiring and releasing\<close>

text \<open>The scan for a free slot (lines 322 to 333); \<open>i\<close> counts the slots tried.\<close>

fun scan_free :: "os \<Rightarrow> u32 \<Rightarrow> u32 \<Rightarrow> nat list \<Rightarrow> shm \<Rightarrow> (u32 option \<times> shm) option" where
  "scan_free os n hint [] w = Some (None, w)"
| "scan_free os n hint (i # rest) w = do {
     let o' = sub os i;
     let idx = (hint + of_nat i) mod n;
     (ok, w) \<leftarrow> cas_state idx RESP_FREE RESP_ACQUIRED (others o' 0 w);
     if ok then do {
       w \<leftarrow> upd_resp idx (\<lambda>s. s\<lparr>rs_owner_pid := os_pid os\<rparr>) (others o' 1 w);
       w \<leftarrow> upd_resp idx (\<lambda>s. s\<lparr>rs_generation := rs_generation s + 1\<rparr>) (others o' 2 w);
       Some (Some idx, hdr_update (\<lambda>h. h\<lparr>h_resp_hint := (idx + 1) mod n\<rparr>) (others o' 3 w)) }
     else scan_free os n hint rest w }"

text \<open>The recovery of slots whose owner died (lines 336 to 356).\<close>

fun scan_stale :: "os \<Rightarrow> nat list \<Rightarrow> shm \<Rightarrow> (u32 option \<times> shm) option" where
  "scan_stale os [] w = Some (None, w)"
| "scan_stale os (i # rest) w = do {
     let o' = sub os i;
     let idx = (of_nat i :: u32);
     let w = others o' 0 w;
     s0 \<leftarrow> reqrep_resp_slot w idx;
     let state = rs_state s0;
     if state = RESP_ACQUIRED \<or> state = RESP_READY then do {
       let w = others o' 1 w;
       s1 \<leftarrow> reqrep_resp_slot w idx;
       let pid = rs_owner_pid s1;
       if pid \<noteq> 0 \<and> \<not> reqrep_pid_alive (sub o' 2) pid then do {
         (freed, w) \<leftarrow> cas_state idx state RESP_FREE (others o' 3 w);
         if freed then do {
           let w = hdr_update (\<lambda>h. h\<lparr>h_stat_recoveries := h_stat_recoveries h + 1\<rparr>) (others o' 4 w);
           (ok, w) \<leftarrow> cas_state idx RESP_FREE RESP_ACQUIRED (others o' 5 w);
           if ok then do {
             w \<leftarrow> upd_resp idx (\<lambda>s. s\<lparr>rs_owner_pid := os_pid os\<rparr>) (others o' 6 w);
             w \<leftarrow> upd_resp idx (\<lambda>s. s\<lparr>rs_generation := rs_generation s + 1\<rparr>) (others o' 7 w);
             Some (Some idx, w) }
           else scan_stale os rest (reqrep_wake_slot_waiters (others o' 8 w)) }
         else scan_stale os rest w }
       else scan_stale os rest w }
     else scan_stale os rest w }"

text \<open>The result is an \<^verbatim>\<open>int32_t\<close>: the index read as a signed number, or -1.\<close>

definition reqrep_slot_acquire :: "os \<Rightarrow> ReqRepHandle \<Rightarrow> shm \<Rightarrow> (int \<times> shm) option" where
  "reqrep_slot_acquire os h w = do {
     let n = hn_resp_slots h;
     let w = others os 0 w;
     let hint = h_resp_hint (hdr w);
     (r, w) \<leftarrow> scan_free (sub os 1) n hint [0..<unat n] w;
     case r of Some idx \<Rightarrow> Some (sint idx, w)
     | None \<Rightarrow> do {
         (r, w) \<leftarrow> scan_stale (sub os 2) [0..<unat n] w;
         Some (case r of Some idx \<Rightarrow> sint idx | None \<Rightarrow> -1, w) } }"

definition reqrep_slot_release :: "os \<Rightarrow> u32 \<Rightarrow> shm \<Rightarrow> shm option" where
  "reqrep_slot_release os idx w = do {
     w \<leftarrow> upd_resp idx (\<lambda>s. s\<lparr>rs_owner_pid := 0\<rparr>) (others os 0 w);
     w \<leftarrow> upd_resp idx (\<lambda>s. s\<lparr>rs_state := RESP_FREE\<rparr>) (others os 1 w);
     Some (reqrep_wake_slot_waiters (others os 2 w)) }"

section \<open>Replying, fetching and cancelling\<close>

definition reqrep_reply ::
  "os \<Rightarrow> ReqRepHandle \<Rightarrow> u64 \<Rightarrow> bytes \<Rightarrow> u32 \<Rightarrow> bool \<Rightarrow> shm \<Rightarrow> (int \<times> shm) option" where
  "reqrep_reply os h id' str len utf8 w =
     (let slot_idx = REQREP_ID_SLOT id'; expected_gen = REQREP_ID_GEN id' in
      if slot_idx \<ge> hn_resp_slots h then Some (-1, w)
      else if len > hn_resp_data_max h then Some (-3, w)
      else do {
        let w = others os 0 w;
        s \<leftarrow> reqrep_resp_slot w slot_idx;
        if rs_state s \<noteq> RESP_ACQUIRED then Some (-2, w)
        else do {
          let w = others os 1 w;
          s \<leftarrow> reqrep_resp_slot w slot_idx;
          if rs_generation s \<noteq> expected_gen then Some (-2, w)
          else do {
            let w = others os 2 w;
            s \<leftarrow> reqrep_resp_slot w slot_idx;
            data \<leftarrow> (if len > 0 then memcpy (rs_data s) 0 str 0 (unat len) else Some (rs_data s));
            let w = set_resp_slot slot_idx (s\<lparr>rs_data := data, rs_resp_len := len,
                      rs_resp_flags := (if utf8 then 1 else 0)\<rparr>) w;
            (ok, w) \<leftarrow> cas_state slot_idx RESP_ACQUIRED RESP_READY (others os 3 w);
            if \<not> ok then Some (-2, w)
            else do {
              let w = others os 4 w;
              s \<leftarrow> reqrep_resp_slot w slot_idx;
              let w = (if rs_waiters s > 0 then kcall (FUTEX_WAKE (Fresp slot_idx) 1) w else w);
              Some (1, hdr_update (\<lambda>h. h\<lparr>h_stat_replies := h_stat_replies h + 1\<rparr>)
                         (others os 5 w)) } } } })"

record get_out =
  gt_str :: bytes
  gt_len :: u32
  gt_utf8 :: bool

definition reqrep_try_get ::
  "os \<Rightarrow> ReqRepHandle \<Rightarrow> u64 \<Rightarrow> shm \<Rightarrow> (int \<times> get_out option \<times> ReqRepHandle \<times> shm) option" where
  "reqrep_try_get os h id' w =
     (let slot_idx = REQREP_ID_SLOT id'; expected_gen = REQREP_ID_GEN id' in
      if slot_idx \<ge> hn_resp_slots h then Some (-1, None, h, w)
      else do {
        let w = others os 0 w;
        s \<leftarrow> reqrep_resp_slot w slot_idx;
        let state = rs_state s;
        let w = others os 1 w;
        s \<leftarrow> reqrep_resp_slot w slot_idx;
        if rs_generation s \<noteq> expected_gen then Some (-4, None, h, w)
        else if state \<noteq> RESP_READY then Some (0, None, h, w)
        else do {
          let w = others os 2 w;
          s \<leftarrow> reqrep_resp_slot w slot_idx;
          let len = rs_resp_len s;
          let utf8 = (rs_resp_flags s AND 1) \<noteq> 0;
          case reqrep_ensure_copy_buf (sub os 3) h (len + 1) of
            (False, h) \<Rightarrow> Some (-2, None, h, w)
          | (True, h) \<Rightarrow> do {
              let w = others os 4 w;
              s \<leftarrow> reqrep_resp_slot w slot_idx;
              h \<leftarrow> copy_to_buf h (rs_data s) 0 len;
              w \<leftarrow> reqrep_slot_release (sub os 5) slot_idx w;
              Some (1, Some \<lparr>gt_str = take (unat len) (hn_copy_buf h), gt_len = len,
                             gt_utf8 = utf8\<rparr>, h, w) } } })"

definition reqrep_cancel :: "os \<Rightarrow> ReqRepHandle \<Rightarrow> u64 \<Rightarrow> shm \<Rightarrow> shm option" where
  "reqrep_cancel os h id' w =
     (let slot_idx = REQREP_ID_SLOT id'; expected_gen = REQREP_ID_GEN id' in
      if slot_idx \<ge> hn_resp_slots h then Some w
      else do {
        let w = others os 0 w;
        s \<leftarrow> reqrep_resp_slot w slot_idx;
        if rs_generation s \<noteq> expected_gen then Some w
        else do {
          (ok, w) \<leftarrow> cas_state slot_idx RESP_ACQUIRED RESP_FREE (others os 1 w);
          if \<not> ok then Some w
          else do {
            w \<leftarrow> upd_resp slot_idx (\<lambda>s. s\<lparr>rs_owner_pid := 0\<rparr>) (others os 2 w);
            w \<leftarrow> upd_resp slot_idx (\<lambda>s. s\<lparr>rs_generation := rs_generation s + 1\<rparr>) (others os 3 w);
            let w = others os 4 w;
            s \<leftarrow> reqrep_resp_slot w slot_idx;
            let w = (if rs_waiters s > 0 then kcall (FUTEX_WAKE (Fresp slot_idx) INT_MAX) w else w);
            Some (reqrep_wake_slot_waiters (others os 5 w)) } } })"

text \<open>Counting the slots of this process; the count has 32 bits.\<close>

fun pending_scan :: "os \<Rightarrow> nat list \<Rightarrow> u32 \<Rightarrow> shm \<Rightarrow> (u32 \<times> shm) option" where
  "pending_scan os [] cnt w = Some (cnt, w)"
| "pending_scan os (i # rest) cnt w = do {
     let o' = sub os i;
     let w = others o' 0 w;
     s \<leftarrow> reqrep_resp_slot w (of_nat i);
     if rs_state s = RESP_ACQUIRED \<or> rs_state s = RESP_READY then do {
       let w = others o' 1 w;
       s \<leftarrow> reqrep_resp_slot w (of_nat i);
       pending_scan os rest (if rs_owner_pid s = os_pid os then cnt + 1 else cnt) w }
     else pending_scan os rest cnt w }"

definition reqrep_pending :: "os \<Rightarrow> ReqRepHandle \<Rightarrow> shm \<Rightarrow> (u32 \<times> shm) option" where
  "reqrep_pending os h w = pending_scan os [0..<unat (hn_resp_slots h)] 0 w"

section \<open>The slot table\<close>

text \<open>The geometry every process relies on: the number of slots, the room for a reply in each,
  and that a recorded length is one the reply function wrote.\<close>

definition slot_ok :: "ReqRepHandle \<Rightarrow> RespSlot \<Rightarrow> bool" where
  "slot_ok h s \<longleftrightarrow> rs_state s \<in> {RESP_FREE, RESP_ACQUIRED, RESP_READY} \<and>
     unat (hn_resp_data_max h) \<le> length (rs_data s) \<and> rs_resp_len s \<le> hn_resp_data_max h"

definition slots_ok :: "ReqRepHandle \<Rightarrow> shm \<Rightarrow> bool" where
  "slots_ok h w \<longleftrightarrow> length (resp_area w) = unat (hn_resp_slots h) \<and>
     hn_resp_slots h \<noteq> 0 \<and> hn_resp_data_max h \<noteq> 0xFFFFFFFF \<and>
     (\<forall>s \<in> set (resp_area w). slot_ok h s)"

text \<open>An environment in which every other process keeps a predicate of the mapping.\<close>

definition keeps :: "(shm \<Rightarrow> bool) \<Rightarrow> os \<Rightarrow> bool" where
  "keeps P os \<longleftrightarrow> (\<forall>p w. P w \<longrightarrow> P (os_run os p w))"

lemma keepsD: "keeps P os \<Longrightarrow> P w \<Longrightarrow> P (os_run os p w)"
  unfolding keeps_def by blast

lemma keeps_sub [intro]: "keeps P os \<Longrightarrow> keeps P (sub os k)"
  by (simp add: keeps_def)

lemma keeps_quiet [intro]: "quiet os \<Longrightarrow> keeps P os"
  unfolding keeps_def by simp

lemma set_resp_slot_twice [simp]: "set_resp_slot i t (set_resp_slot i s w) = set_resp_slot i t w"
  by (simp add: set_resp_slot_def)

lemma slots_ok_frame: "resp_area w' = resp_area w \<Longrightarrow> slots_ok h w' = slots_ok h w"
  by (simp add: slots_ok_def)

lemma slots_ok_set: "slots_ok h w \<Longrightarrow> slot_ok h s \<Longrightarrow> slots_ok h (set_resp_slot i s w)"
  using set_update_subset_insert [of "resp_area w" "unat i" s] by (auto simp: slots_ok_def)

lemma slots_ok_nth:
  assumes "slots_ok h w" "unat idx < unat (hn_resp_slots h)"
  shows "reqrep_resp_slot w idx = Some (resp_area w ! unat idx)" "slot_ok h (resp_area w ! unat idx)"
  using assms by (auto simp: slots_ok_def reqrep_resp_slot_def)

lemma upd_resp_returns:
  assumes "slots_ok h w" "unat idx < unat (hn_resp_slots h)"
    and "\<And>s. slot_ok h s \<Longrightarrow> slot_ok h (f s)"
  shows "returns (upd_resp idx f w) (slots_ok h)"
  using slots_ok_nth [OF assms(1,2)] slots_ok_set [OF assms(1)] assms(3)
  by (simp add: upd_resp_def returns_def)

lemma cas_state_returns:
  assumes "slots_ok h w" "unat idx < unat (hn_resp_slots h)"
    and "new \<in> {RESP_FREE, RESP_ACQUIRED, RESP_READY}"
  shows "returns (cas_state idx old new w) (\<lambda>(ok, w'). slots_ok h w')"
  using slots_ok_nth [OF assms(1,2)] slots_ok_set [OF assms(1)] assms(1,3)
  by (auto simp: cas_state_def returns_def slot_ok_def)

section \<open>Memory safety under interference\<close>

lemma slots_ok_simps [simp]:
  "slots_ok h (hdr_update f w) = slots_ok h w" "slots_ok h (kcall c w) = slots_ok h w"
  "slots_ok h (reqrep_wake_slot_waiters w) = slots_ok h w"
  "slots_ok h (reqrep_wake_consumers w) = slots_ok h w"
  "slots_ok h (reqrep_wake_producers w) = slots_ok h w"
  "slots_ok (h\<lparr>hn_copy_buf := b\<rparr>) w = slots_ok h w"
  "slots_ok (h\<lparr>hn_copy_buf := b, hn_copy_buf_cap := cc\<rparr>) w = slots_ok h w"
  by (auto simp: slots_ok_def slot_ok_def wake_defs)

lemma mod_in_range: "n \<noteq> 0 \<Longrightarrow> unat ((x :: u32) mod n) < unat n"
  by (simp add: unat_mod unat_gt_0)

lemma of_nat_in_range: "i < unat (n :: u32) \<Longrightarrow> unat (of_nat i :: u32) = i"
  using unat_lt_32 [of n] by (simp add: unat_of_nat)

text \<open>The accesses of an operation, each after a step of the others.\<close>

lemma access_safe:
  assumes "keeps (slots_ok h) os" "slots_ok h w"
  shows "slots_ok h (os_run os p w)"
    and "unat idx < unat (hn_resp_slots h) \<Longrightarrow>
      returns (reqrep_resp_slot (os_run os p w) idx) (slot_ok h)"
    and "unat idx < unat (hn_resp_slots h) \<Longrightarrow> (\<And>s. slot_ok h s \<Longrightarrow> slot_ok h (f s)) \<Longrightarrow>
      returns (upd_resp idx f (os_run os p w)) (slots_ok h)"
    and "unat idx < unat (hn_resp_slots h) \<Longrightarrow> new \<in> {RESP_FREE, RESP_ACQUIRED, RESP_READY} \<Longrightarrow>
      returns (cas_state idx old new (os_run os p w)) (\<lambda>(ok, w'). slots_ok h w')"
proof -
  show ok: "slots_ok h (os_run os p w)" using assms by (rule keepsD)
  show "unat idx < unat (hn_resp_slots h) \<Longrightarrow>
      returns (reqrep_resp_slot (os_run os p w) idx) (slot_ok h)"
    using slots_ok_nth [OF ok] by simp
  show "unat idx < unat (hn_resp_slots h) \<Longrightarrow> (\<And>s. slot_ok h s \<Longrightarrow> slot_ok h (f s)) \<Longrightarrow>
      returns (upd_resp idx f (os_run os p w)) (slots_ok h)"
    by (rule upd_resp_returns [OF ok])
  show "unat idx < unat (hn_resp_slots h) \<Longrightarrow> new \<in> {RESP_FREE, RESP_ACQUIRED, RESP_READY} \<Longrightarrow>
      returns (cas_state idx old new (os_run os p w)) (\<lambda>(ok, w'). slots_ok h w')"
    by (rule cas_state_returns [OF ok])
qed

lemma returns_bind_prod:
  "returns m (\<lambda>(a, b). P b) \<Longrightarrow> (\<And>a b. P b \<Longrightarrow> returns (f a b) Q) \<Longrightarrow>
   returns (m \<bind> (\<lambda>(a, b). f a b)) Q"
  by (auto simp: returns_def)

lemmas slot_steps = returns_bind [OF access_safe(2)] returns_bind [OF access_safe(3)]
  returns_bind_prod [OF access_safe(4)]

definition scan_post :: "ReqRepHandle \<Rightarrow> u32 option \<times> shm \<Rightarrow> bool" where
  "scan_post h r \<longleftrightarrow> slots_ok h (snd r) \<and>
     (\<forall>idx. fst r = Some idx \<longrightarrow> unat idx < unat (hn_resp_slots h))"

lemma scan_free_safe:
  assumes "keeps (slots_ok h) os" and "slots_ok h w"
  shows "returns (scan_free os (hn_resp_slots h) hint js w) (scan_post h)"
  using assms(2)
proof (induction js arbitrary: w)
  case (Cons i js)
  have n: "hn_resp_slots h \<noteq> 0" using Cons.prems by (simp add: slots_ok_def)
  have k: "keeps (slots_ok h) (sub os i)" using assms(1) by blast
  show ?case
    unfolding scan_free.simps Let_def
    by (intro slot_steps [OF k] returns_if Cons.IH)
      (auto simp: scan_post_def mod_in_range [OF n] slot_ok_def Cons.prems
        intro!: keepsD [OF assms(1)])
qed (simp add: scan_post_def)

lemma scan_stale_safe:
  assumes "keeps (slots_ok h) os" and "slots_ok h w" and "\<forall>i \<in> set js. i < unat (hn_resp_slots h)"
  shows "returns (scan_stale os js w) (scan_post h)"
  using assms(2,3)
proof (induction js arbitrary: w)
  case (Cons i js)
  have k: "keeps (slots_ok h) (sub os i)" using assms(1) by blast
  have i: "unat (of_nat i :: u32) < unat (hn_resp_slots h)"
    using Cons.prems(2) of_nat_in_range [of i "hn_resp_slots h"] by simp
  have js: "\<forall>i \<in> set js. i < unat (hn_resp_slots h)" using Cons.prems(2) by simp
  show ?case
    unfolding scan_stale.simps Let_def
    by (intro slot_steps [OF k] returns_if Cons.IH)
      (auto simp: scan_post_def i js slot_ok_def Cons.prems(1) intro!: keepsD [OF assms(1)])
qed (simp add: scan_post_def)

lemma acquire_safe:
  assumes "keeps (slots_ok h) os" and "slots_ok h w" and "unat (hn_resp_slots h) \<le> 2 ^ 31"
  shows "returns (reqrep_slot_acquire os h w)
     (\<lambda>(r, w'). slots_ok h w' \<and> (r = -1 \<or> 0 \<le> r \<and> nat r < unat (hn_resp_slots h)))"
proof -
  have k: "keeps (slots_ok h) (sub os 1)" "keeps (slots_ok h) (sub os 2)" using assms(1) by blast+
  have w: "slots_ok h (others os 0 w)" using assms(1,2) by (rule keepsD)
  have js: "\<forall>i \<in> set [0..<unat (hn_resp_slots h)]. i < unat (hn_resp_slots h)" by simp
  have small: "sint idx = int (unat idx)" if "unat idx < unat (hn_resp_slots h)" for idx :: u32
    using that assms(3)
    by (simp add: sint_uint signed_take_bit_int_eq_self uint_nat del: of_nat_unat)
  show ?thesis
    unfolding reqrep_slot_acquire_def Let_def
    by (rule returns_bind [OF scan_free_safe [OF k(1) w]])
      (auto simp: scan_post_def small split: option.splits prod.splits
        intro!: returns_bind [OF scan_stale_safe [OF k(2) _ js]])
qed

lemma release_safe:
  assumes "keeps (slots_ok h) os" and "slots_ok h w" and "unat idx < unat (hn_resp_slots h)"
  shows "returns (reqrep_slot_release os idx w) (slots_ok h)"
  unfolding reqrep_slot_release_def
  by (intro slot_steps [OF assms(1)]) (auto simp: assms slot_ok_def intro!: keepsD [OF assms(1)])

lemma in_range: "\<not> hn_resp_slots h \<le> idx \<Longrightarrow> unat idx < unat (hn_resp_slots h)"
  by (simp add: word_le_nat_alt)

lemma reply_safe:
  assumes "keeps (slots_ok h) os" and "slots_ok h w" and "length str = unat len"
  shows "returns (reqrep_reply os h id' str len utf8 w)
           (\<lambda>(r, w'). slots_ok h w' \<and> r \<in> {1, -1, -2, -3})"
proof -
  have data: "returns (if len > 0 then memcpy (rs_data s) 0 str 0 (unat len) else Some (rs_data s))
      (\<lambda>d. length d = length (rs_data s))"
    if "slot_ok h s" "\<not> hn_resp_data_max h < len" for s
  proof -
    have "unat len \<le> length (rs_data s)"
      using that by (simp add: slot_ok_def word_less_nat_alt)
    then show ?thesis using assms(3) by (simp add: memcpy_def)
  qed
  note steps = slot_steps [OF assms(1)] returns_bind [OF data]
  show ?thesis
    unfolding reqrep_reply_def Let_def
    by (intro returns_if steps)
      (auto simp: assms in_range slot_ok_def intro!: keepsD [OF assms(1)] slots_ok_set)
qed

lemma slot_len_plus_1:
  assumes "slots_ok h w" "len \<le> hn_resp_data_max h"
  shows "len + 1 \<noteq> 0"
proof
  assume "len + 1 = 0"
  then have "len = -1" by (simp add: add_eq_0_iff2)
  then have "hn_resp_data_max h = -1" using assms(2) by (simp add: word_order.extremum_unique)
  with assms(1) show False by (simp add: slots_ok_def)
qed

text \<open>Two handles that differ in their copy buffers only.\<close>

definition rebuffered :: "ReqRepHandle \<Rightarrow> ReqRepHandle \<Rightarrow> bool" where
  "rebuffered h h' \<longleftrightarrow> (\<exists>b c. h' = h\<lparr>hn_copy_buf := b, hn_copy_buf_cap := c\<rparr>)"

lemma rebuffered_refl [simp]: "rebuffered h h"
  unfolding rebuffered_def
  by (intro exI [of _ "hn_copy_buf h"] exI [of _ "hn_copy_buf_cap h"]) simp

lemma rebuffered_same:
  assumes "rebuffered h h'"
  shows "hn_resp_slots h' = hn_resp_slots h" "hn_resp_data_max h' = hn_resp_data_max h"
    "slots_ok h' w = slots_ok h w" "queue_ok h' w = queue_ok h w" "queue_abs h' w = queue_abs h w"
    "hn_req_cap h' = hn_req_cap h" "hn_req_cap_mask h' = hn_req_cap_mask h"
    "hn_req_arena_cap h' = hn_req_arena_cap h"
  using assms by (auto simp: rebuffered_def)

lemma rebuffered_upd [simp]: "rebuffered h (h\<lparr>hn_copy_buf := b, hn_copy_buf_cap := c\<rparr>)"
  "rebuffered h (h\<lparr>hn_copy_buf_cap := c, hn_copy_buf := b\<rparr>)"
proof -
  show "rebuffered h (h\<lparr>hn_copy_buf := b, hn_copy_buf_cap := c\<rparr>)"
    unfolding rebuffered_def by blast
  moreover have "h\<lparr>hn_copy_buf_cap := c, hn_copy_buf := b\<rparr> = h\<lparr>hn_copy_buf := b, hn_copy_buf_cap := c\<rparr>"
    by simp
  ultimately show "rebuffered h (h\<lparr>hn_copy_buf_cap := c, hn_copy_buf := b\<rparr>)" by metis
qed

lemma rebuffered_trans:
  assumes "rebuffered h h'" "rebuffered h' h''"
  shows "rebuffered h h''"
proof -
  from assms obtain b c where "h'' = h\<lparr>hn_copy_buf := b, hn_copy_buf_cap := c\<rparr>"
    by (auto simp: rebuffered_def)
  then show ?thesis by simp
qed

lemma try_get_safe:
  assumes "keeps (slots_ok h) os" and "slots_ok h w" and "copy_buf_ok h"
  shows "returns (reqrep_try_get os h id' w)
           (\<lambda>(r, out, h', w'). slots_ok h w' \<and> copy_buf_ok h' \<and> r \<in> {1, 0, -1, -2, -4} \<and>
              rebuffered h h' \<and> (r = 1 \<longleftrightarrow> out \<noteq> None))"
    (is "returns _ ?post")
proof -
  have fetch: "returns (case reqrep_ensure_copy_buf (sub os 3) h (len + 1) of
        (False, h) \<Rightarrow> Some (-2, None, h, w')
      | (True, h) \<Rightarrow> reqrep_resp_slot (others os 4 w') idx \<bind> (\<lambda>s.
          copy_to_buf h (rs_data s) 0 len \<bind> (\<lambda>h.
          reqrep_slot_release (sub os 5) idx (others os 4 w') \<bind> (\<lambda>w'.
          Some (1, Some \<lparr>gt_str = take (unat len) (hn_copy_buf h), gt_len = len, gt_utf8 = u\<rparr>, h, w')))))
      ?post"
    if w': "slots_ok h w'" and len: "len \<le> hn_resp_data_max h"
      and idx: "unat idx < unat (hn_resp_slots h)" for w' len u idx
  proof -
    obtain b h1 where e: "reqrep_ensure_copy_buf (sub os 3) h (len + 1) = (b, h1)" by force
    show ?thesis
    proof (cases b)
      case False
      with e ensure_copy_buf_False(1) [of "sub os 3" h "len + 1" h1] w' assms(3) show ?thesis
        by simp
    next
      case True
      note e1 = ensure_copy_buf_True [OF e [unfolded eqTrueI [OF True]] assms(3)]
      obtain b0 c where h1: "h1 = h\<lparr>hn_copy_buf := b0, hn_copy_buf_cap := c\<rparr>" using e1(3) by blast
      have w4: "slots_ok h (others os 4 w')" using assms(1) w' by (rule keepsD)
      note nth = slots_ok_nth [OF w4 idx]
      let ?s = "resp_area (others os 4 w') ! unat idx"
      have "0 + unat len \<le> length (rs_data ?s)"
        using nth(2) len by (simp add: slot_ok_def word_le_nat_alt)
      from copy_to_buf_Some [OF e1(1,2) slot_len_plus_1 [OF w' len] this] obtain buf where
        buf: "copy_to_buf h1 (rs_data ?s) 0 len = Some (h1\<lparr>hn_copy_buf := buf\<rparr>)"
        "length buf = length (hn_copy_buf h1)" by blast
      have "copy_buf_ok (h1\<lparr>hn_copy_buf := buf\<rparr>)" using e1(1) buf(2) by (simp add: copy_buf_ok_def)
      moreover have "returns (reqrep_slot_release (sub os 5) idx (others os 4 w')) (slots_ok h)"
        using keeps_sub [OF assms(1)] w4 idx by (rule release_safe)
      moreover have "rebuffered h (h1\<lparr>hn_copy_buf := buf\<rparr>)"
        unfolding rebuffered_def by (intro exI [of _ buf] exI [of _ c]) (simp add: h1)
      ultimately show ?thesis
        using e True nth(1) buf(1) by (auto simp: returns_def)
    qed
  qed
  note steps = slot_steps [OF assms(1)] fetch
  show ?thesis
    unfolding reqrep_try_get_def Let_def
    by (intro returns_if steps)
      (auto simp: assms in_range slot_ok_def intro!: keepsD [OF assms(1)])
qed

lemma cancel_safe:
  assumes "keeps (slots_ok h) os" and "slots_ok h w"
  shows "returns (reqrep_cancel os h id' w) (slots_ok h)"
  unfolding reqrep_cancel_def Let_def
  by (intro returns_if slot_steps [OF assms(1)])
    (auto simp: assms in_range slot_ok_def intro!: keepsD [OF assms(1)])

lemma pending_scan_safe:
  assumes "keeps (slots_ok h) os" and "slots_ok h w" and "\<forall>i \<in> set js. i < unat (hn_resp_slots h)"
  shows "returns (pending_scan os js cnt w) (\<lambda>(n, w'). slots_ok h w')"
  using assms(2,3)
proof (induction js arbitrary: w cnt)
  case (Cons i js)
  have k: "keeps (slots_ok h) (sub os i)" using assms(1) by blast
  have i: "unat (of_nat i :: u32) < unat (hn_resp_slots h)"
    using Cons.prems(2) of_nat_in_range [of i "hn_resp_slots h"] by simp
  have js: "\<forall>i \<in> set js. i < unat (hn_resp_slots h)" using Cons.prems(2) by simp
  show ?case
    unfolding pending_scan.simps Let_def
    by (intro returns_if slot_steps [OF k] Cons.IH)
      (auto simp: i js Cons.prems(1) intro!: keepsD [OF assms(1)])
qed simp

section \<open>Calls that run alone\<close>

lemma quiet_resp_slot:
  "unat idx < length (resp_area w) \<Longrightarrow> reqrep_resp_slot w idx = Some (resp_area w ! unat idx)"
  by (simp add: reqrep_resp_slot_def)

lemma upd_resp_Some [simp]:
  "unat idx < length (resp_area w) \<Longrightarrow>
   upd_resp idx f w = Some (set_resp_slot idx (f (resp_area w ! unat idx)) w)"
  by (simp add: upd_resp_def quiet_resp_slot)

lemma cas_state_Some:
  "unat idx < length (resp_area w) \<Longrightarrow> cas_state idx old new w =
     (if rs_state (resp_area w ! unat idx) = old
      then Some (True, set_resp_slot idx ((resp_area w ! unat idx)\<lparr>rs_state := new\<rparr>) w)
      else Some (False, w))"
  by (simp add: cas_state_def quiet_resp_slot)

text \<open>A slot as its new owner gets it.\<close>

definition take_slot :: "u32 \<Rightarrow> u32 \<Rightarrow> shm \<Rightarrow> shm" where
  "take_slot pid idx w = set_resp_slot idx ((resp_area w ! unat idx)\<lparr>rs_state := RESP_ACQUIRED,
     rs_owner_pid := pid, rs_generation := rs_generation (resp_area w ! unat idx) + 1\<rparr>) w"

lemma take_slot_simps [simp]:
  "hdr (take_slot p i w) = hdr w" "req_slots (take_slot p i w) = req_slots w"
  "int_slots (take_slot p i w) = int_slots w" "req_arena (take_slot p i w) = req_arena w"
  "kcalls (take_slot p i w) = kcalls w"
  "resp_area (take_slot p i w) = (resp_area w)[unat i := (resp_area w ! unat i)
     \<lparr>rs_state := RESP_ACQUIRED, rs_owner_pid := p,
      rs_generation := rs_generation (resp_area w ! unat i) + 1\<rparr>]"
  by (simp_all add: take_slot_def)

lemma slots_ok_take:
  assumes "slots_ok h w" "unat idx < length (resp_area w)"
  shows "slots_ok h (take_slot pid idx w)"
proof -
  have "slot_ok h (resp_area w ! unat idx)" using assms by (simp add: slots_ok_def)
  then show ?thesis
    unfolding take_slot_def by (intro slots_ok_set [OF assms(1)]) (simp add: slot_ok_def)
qed

text \<open>A request that is waiting for its reply under an identifier.\<close>

definition awaiting :: "ReqRepHandle \<Rightarrow> u64 \<Rightarrow> shm \<Rightarrow> bool" where
  "awaiting h id' w \<longleftrightarrow> REQREP_ID_SLOT id' < hn_resp_slots h \<and>
     rs_state (resp_area w ! unat (REQREP_ID_SLOT id')) = RESP_ACQUIRED \<and>
     rs_generation (resp_area w ! unat (REQREP_ID_SLOT id')) = REQREP_ID_GEN id'"

section \<open>A created table\<close>

lemma created_slots:
  assumes "reqrep_setup_handle kn (fresh_str c n d l) sz path fd = Some h" and "n \<noteq> 0"
    and "32 + unat d \<le> unat (sl_resp_stride l)"
  shows "slots_ok h (fresh_str c n d l)"
proof -
  have h: "hn_resp_slots h = n" "hn_resp_data_max h = d"
    using assms(1) by (auto simp: reqrep_setup_handle_def fresh_str_hdr split: if_splits)
  have "unat d < 4294967295" using assms(3) unat_lt_32 [of "sl_resp_stride l"] by linarith
  then have "d \<noteq> 0xFFFFFFFF" by (auto simp: word_unat_eq_iff)
  then show ?thesis
    using assms(2,3) by (auto simp: slots_ok_def slot_ok_def h fresh_str_simps zero_resp_slot_def reqrep_consts)
qed

text \<open>A mapping with one response slot, held by process 7 under the identifier of slot 0 and
  generation 1.\<close>

lemma demo_slots:
  obtains h w where "queue_ok h w" "queue_abs h w = []" "copy_buf_ok h" "slots_ok h w"
    "hn_resp_slots h = 1" "hn_resp_data_max h = 16" "hn_req_arena_cap h = 4096"
    "resp_area w = [zero_resp_slot 64]" "h_resp_hint (hdr w) = 0" "h_mutex (hdr w) = 0"
    "h_recv_waiters (hdr w) = 0" "h_mutex_waiters (hdr w) = 0"
proof -
  let ?l = "\<lparr>sl_req_slots_off = 256, sl_req_arena_off = 352, sl_req_arena_cap = 4096,
      sl_resp_off = 4480, sl_resp_stride = 64, sl_total_size = 4544\<rparr> :: str_layout"
  let ?w = "fresh_str 4 1 16 ?l"
  obtain h where h: "reqrep_setup_handle (granting 0 no_file) ?w 4544 None (-1) = Some h"
    by (simp add: reqrep_setup_handle_def granting_def)
  then have "hn_req_arena_cap h = 4096" "hn_resp_slots h = 1" "hn_resp_data_max h = 16"
    by (auto simp: reqrep_setup_handle_def fresh_str_hdr split: if_splits)
  moreover have "resp_area ?w = [zero_resp_slot 64]" "h_resp_hint (hdr ?w) = 0" "h_mutex (hdr ?w) = 0"
    "h_recv_waiters (hdr ?w) = 0" "h_mutex_waiters (hdr ?w) = 0"
    by (simp_all add: fresh_str_simps fresh_str_hdr zero_header_def)
  moreover have "slots_ok h ?w" using created_slots [OF h] by simp
  ultimately show ?thesis using created_queue [OF _ _ h, of 2] that by simp
qed

lemma demo_awaiting:
  obtains h w where "copy_buf_ok h" "slots_ok h w" "hn_resp_slots h = 1" "hn_resp_data_max h = 16"
    "awaiting h (REQREP_MAKE_ID 0 1) w"
proof -
  obtain h w where d: "copy_buf_ok h" "slots_ok h w" "hn_resp_slots h = 1"
    "hn_resp_data_max h = 16" "resp_area w = [zero_resp_slot 64]" using demo_slots by metis
  have "slots_ok h (take_slot 7 0 w)" using d(2,5) by (intro slots_ok_take) simp_all
  moreover have "awaiting h (REQREP_MAKE_ID 0 1) (take_slot 7 0 w)"
    using d(3,5) by (simp add: awaiting_def zero_resp_slot_def)
  ultimately show ?thesis using d(1,3,4) that by metis
qed

text \<open>
  Property C10. The slot operations under arbitrary interference: as long as the other processes
  keep the geometry of the slot table, whatever else they change at any point between two
  accesses, every operation returns, touches no byte outside the slot table and the copy
  buffer, keeps the geometry itself, and answers with one of its documented codes.
\<close>

theorem slot_operations_safe:
  assumes "keeps (slots_ok h) os" and "slots_ok h w" and "copy_buf_ok h"
    and "unat (hn_resp_slots h) \<le> 2 ^ 31" and "length str = unat len"
  shows "returns (reqrep_slot_acquire os h w)
           (\<lambda>(r, w'). slots_ok h w' \<and> (r = -1 \<or> 0 \<le> r \<and> nat r < unat (hn_resp_slots h))) \<and>
         returns (reqrep_reply os h id' str len utf8 w)
           (\<lambda>(r, w'). slots_ok h w' \<and> r \<in> {1, -1, -2, -3}) \<and>
         returns (reqrep_try_get os h id' w)
           (\<lambda>(r, out, h', w'). slots_ok h w' \<and> copy_buf_ok h' \<and> r \<in> {1, 0, -1, -2, -4}) \<and>
         returns (reqrep_cancel os h id' w) (slots_ok h) \<and>
         returns (reqrep_pending os h w) (\<lambda>(n, w'). slots_ok h w')"
proof (intro conjI)
  show "returns (reqrep_try_get os h id' w)
      (\<lambda>(r, out, h', w'). slots_ok h w' \<and> copy_buf_ok h' \<and> r \<in> {1, 0, -1, -2, -4})"
    by (rule returns_mono [OF try_get_safe [OF assms(1-3)]]) auto
  show "returns (reqrep_pending os h w) (\<lambda>(n, w'). slots_ok h w')"
    unfolding reqrep_pending_def by (rule pending_scan_safe [OF assms(1,2)]) simp
qed (fact acquire_safe [OF assms(1,2,4)] reply_safe [OF assms(1,2,5)] cancel_safe [OF assms(1,2)])+

theorem slot_operations_safe_witness:
  "\<exists>h w. slots_ok h w \<and> returns (reqrep_try_get quiet_os h 0 w)
     (\<lambda>(r, out, h', w'). slots_ok h w' \<and> copy_buf_ok h' \<and> r \<in> {1, 0, -1, -2, -4})"
proof -
  obtain h w where d: "copy_buf_ok h" "slots_ok h w" "hn_resp_slots h = 1"
    using demo_slots by metis
  have "keeps (slots_ok h) quiet_os" by (rule keeps_quiet) simp
  from slot_operations_safe [OF this d(2,1), of "[]" 0] d(2,3) show ?thesis by auto
qed

definition free_at :: "shm \<Rightarrow> u32 \<Rightarrow> bool" where
  "free_at w idx \<longleftrightarrow> rs_state (resp_area w ! unat idx) = RESP_FREE"

lemma scan_free_alone:
  assumes "quiet os" and "n \<noteq> 0" and "length (resp_area w) = unat n"
  shows "scan_free os n hint js w =
     (case find (\<lambda>i. free_at w ((hint + of_nat i) mod n)) js of
        None \<Rightarrow> Some (None, w)
      | Some i \<Rightarrow> Some (Some ((hint + of_nat i) mod n),
          hdr_update (\<lambda>h. h\<lparr>h_resp_hint := ((hint + of_nat i) mod n + 1) mod n\<rparr>)
            (take_slot (os_pid os) ((hint + of_nat i) mod n) w)))"
proof (induction js)
  case (Cons i js)
  let ?idx = "(hint + of_nat i) mod n"
  have "unat ?idx < length (resp_area w)" using mod_in_range [OF assms(2)] assms(3) by simp
  with Cons assms(1) show ?case
    by (simp add: Let_def cas_state_Some free_at_def take_slot_def)
qed simp

text \<open>A slot that can be taken over: in use, by a process the kernel knows nothing of.\<close>

definition dead_at :: "os \<Rightarrow> shm \<Rightarrow> nat \<Rightarrow> bool" where
  "dead_at os w i \<longleftrightarrow> rs_state (resp_area w ! i) \<in> {RESP_ACQUIRED, RESP_READY} \<and>
     rs_owner_pid (resp_area w ! i) \<noteq> 0 \<and>
     os_kill os [i, 2] (rs_owner_pid (resp_area w ! i)) = Some ESRCH"

lemma scan_stale_alone:
  assumes "quiet os" and "length (resp_area w) = unat n" and "\<forall>i \<in> set js. i < unat (n :: u32)"
  shows "scan_stale os js w =
     (case find (dead_at os w) js of
        None \<Rightarrow> Some (None, w)
      | Some i \<Rightarrow> Some (Some (of_nat i), take_slot (os_pid os) (of_nat i)
          (hdr_update (\<lambda>h. h\<lparr>h_stat_recoveries := h_stat_recoveries h + 1\<rparr>) w)))"
  using assms(3)
proof (induction js)
  case (Cons i js)
  have i: "unat (of_nat i :: u32) = i" using Cons.prems of_nat_in_range [of i n] by simp
  then have "unat (of_nat i :: u32) < length (resp_area w)" using Cons.prems assms(2) by simp
  with Cons i assms(1) show ?case
    by (auto simp: Let_def cas_state_Some dead_at_def take_slot_def quiet_resp_slot
        reqrep_pid_alive_def set_resp_slot_def)
qed simp


lemma sint_small: "unat (idx :: u32) < 2 ^ 31 \<Longrightarrow> sint idx = int (unat idx)"
  by (simp add: sint_uint signed_take_bit_int_eq_self uint_nat del: of_nat_unat)

text \<open>The order in which the slots are tried.\<close>

definition scan_order :: "ReqRepHandle \<Rightarrow> shm \<Rightarrow> nat list" where
  "scan_order h w = map (\<lambda>i. unat ((h_resp_hint (hdr w) + of_nat i) mod hn_resp_slots h))
     [0..<unat (hn_resp_slots h)]"

lemma slot_acquire_eq:
  assumes "quiet os" and "slots_ok h w" and "unat (hn_resp_slots h) \<le> 2 ^ 31"
  shows "reqrep_slot_acquire os h w = Some (
    case find (\<lambda>i. rs_state (resp_area w ! i) = RESP_FREE) (scan_order h w) of
      Some i \<Rightarrow> (int i, hdr_update (\<lambda>x. x\<lparr>h_resp_hint := (of_nat i + 1) mod hn_resp_slots h\<rparr>)
                        (take_slot (os_pid os) (of_nat i) w))
    | None \<Rightarrow>
       (case find (dead_at (sub os 2) w) [0..<unat (hn_resp_slots h)] of
          Some i \<Rightarrow> (int i, take_slot (os_pid os) (of_nat i)
             (hdr_update (\<lambda>x. x\<lparr>h_stat_recoveries := h_stat_recoveries x + 1\<rparr>) w))
        | None \<Rightarrow> (-1, w)))"
proof -
  let ?n = "hn_resp_slots h" and ?hint = "h_resp_hint (hdr w)"
  let ?idx = "\<lambda>i. (?hint + of_nat i) mod ?n"
  have n: "?n \<noteq> 0" "length (resp_area w) = unat ?n" using assms(2) by (auto simp: slots_ok_def)
  have idx: "unat (?idx i) < 2 ^ 31" for i
    using mod_in_range [OF n(1), of "?hint + of_nat i"] assms(3) by linarith
  have find_map: "find P (map f xs) = map_option f (find (P \<circ> f) xs)" for P :: "nat \<Rightarrow> bool" and f and xs :: "nat list"
    by (induction xs) auto
  have f: "find (\<lambda>i. rs_state (resp_area w ! i) = RESP_FREE) (scan_order h w) =
      map_option (\<lambda>i. unat (?idx i)) (find (\<lambda>i. free_at w (?idx i)) [0..<unat ?n])"
    unfolding scan_order_def find_map free_at_def by (simp add: comp_def)
  have q: "quiet (sub os 1)" "quiet (sub os 2)" using assms(1) by auto
  have small: "i < unat ?n \<Longrightarrow> sint (of_nat i :: u32) = int i" for i
    using of_nat_in_range [of i ?n] assms(3) by (subst sint_small) simp_all
  have found: "find (dead_at (sub os 2) w) [0..<unat ?n] = Some i \<Longrightarrow> i < unat ?n" for i
    by (auto simp: find_Some_iff)
  show ?thesis
    using assms(1) scan_free_alone [OF q(1) n, of ?hint] f idx
      scan_stale_alone [OF q(2) n(2), of "[0..<unat ?n]"] small found
    by (auto simp: reqrep_slot_acquire_def Let_def sint_small split: option.splits)
qed


text \<open>
  Property C24. Acquiring a slot alone. The first free slot in cyclic order from the hint is
  taken: its state becomes ACQUIRED, its owner this process, its generation grows by one, the
  hint moves behind it. Without a free slot the lowest slot in use whose owner is dead is taken
  over in the same way and the recovery is counted. Without either, the answer is -1 and the
  mapping is unchanged.
\<close>

theorem slot_acquire_alone:
  assumes "quiet os" and "slots_ok h w" and "unat (hn_resp_slots h) \<le> 2 ^ 31"
  shows "reqrep_slot_acquire os h w = Some (
    case find (\<lambda>i. rs_state (resp_area w ! i) = RESP_FREE) (scan_order h w) of
      Some i \<Rightarrow> (int i, hdr_update (\<lambda>x. x\<lparr>h_resp_hint := (of_nat i + 1) mod hn_resp_slots h\<rparr>)
                        (take_slot (os_pid os) (of_nat i) w))
    | None \<Rightarrow>
       (case find (dead_at (sub os 2) w) [0..<unat (hn_resp_slots h)] of
          Some i \<Rightarrow> (int i, take_slot (os_pid os) (of_nat i)
             (hdr_update (\<lambda>x. x\<lparr>h_stat_recoveries := h_stat_recoveries x + 1\<rparr>) w))
        | None \<Rightarrow> (-1, w)))"
  using assms by (rule slot_acquire_eq)

theorem slot_acquire_alone_witness:
  "\<exists>h w w'. slots_ok h w \<and> reqrep_slot_acquire quiet_os h w = Some (0, w') \<and>
     rs_state (resp_area w' ! 0) = RESP_ACQUIRED \<and> rs_generation (resp_area w' ! 0) = 1"
proof -
  obtain h w where d: "slots_ok h w" "hn_resp_slots h = 1" "resp_area w = [zero_resp_slot 64]"
    "h_resp_hint (hdr w) = 0" using demo_slots by metis
  have "find (\<lambda>i. rs_state (resp_area w ! i) = RESP_FREE) (scan_order h w) = Some 0"
    using d by (simp add: scan_order_def zero_resp_slot_def reqrep_consts)
  with slot_acquire_alone [OF quiet_quiet_os d(1)] d(2)
  have "reqrep_slot_acquire quiet_os h w = Some (0,
      hdr_update (\<lambda>x. x\<lparr>h_resp_hint := 0\<rparr>) (take_slot (os_pid quiet_os) 0 w))"
    by simp
  moreover have "rs_state (resp_area (hdr_update (\<lambda>x. x\<lparr>h_resp_hint := 0\<rparr>)
      (take_slot (os_pid quiet_os) 0 w)) ! 0) = RESP_ACQUIRED"
    "rs_generation (resp_area (hdr_update (\<lambda>x. x\<lparr>h_resp_hint := 0\<rparr>)
      (take_slot (os_pid quiet_os) 0 w)) ! 0) = 1"
    using d(3) by (simp_all add: zero_resp_slot_def)
  ultimately show ?thesis using d(1) by blast
qed

text \<open>A slot handed back, and a slot with a reply in it.\<close>

definition released :: "u32 \<Rightarrow> shm \<Rightarrow> shm" where
  "released idx w = reqrep_wake_slot_waiters (set_resp_slot idx
     ((resp_area w ! unat idx)\<lparr>rs_owner_pid := 0, rs_state := RESP_FREE\<rparr>) w)"

definition wake_slot :: "u32 \<Rightarrow> nat \<Rightarrow> shm \<Rightarrow> shm" where
  "wake_slot idx n w = (if rs_waiters (resp_area w ! unat idx) > 0
     then kcall (FUTEX_WAKE (Fresp idx) n) w else w)"

definition replied :: "u32 \<Rightarrow> bytes \<Rightarrow> u32 \<Rightarrow> bool \<Rightarrow> shm \<Rightarrow> shm" where
  "replied idx str len utf8 w =
     hdr_update (\<lambda>x. x\<lparr>h_stat_replies := h_stat_replies x + 1\<rparr>)
       (wake_slot idx 1 (set_resp_slot idx ((resp_area w ! unat idx)\<lparr>
          rs_data := str @ drop (unat len) (rs_data (resp_area w ! unat idx)), rs_resp_len := len,
          rs_resp_flags := (if utf8 then 1 else 0), rs_state := RESP_READY\<rparr>) w))"

definition cancelled :: "u32 \<Rightarrow> shm \<Rightarrow> shm" where
  "cancelled idx w = reqrep_wake_slot_waiters (wake_slot idx INT_MAX (set_resp_slot idx
     ((resp_area w ! unat idx)\<lparr>rs_state := RESP_FREE, rs_owner_pid := 0,
        rs_generation := rs_generation (resp_area w ! unat idx) + 1\<rparr>) w))"

lemma resp_area_wake [simp]: "resp_area (wake_slot i n w) = resp_area w"
  "resp_area (reqrep_wake_slot_waiters w) = resp_area w"
  by (simp_all add: wake_slot_def wake_defs)

lemma resp_area_after [simp]:
  "resp_area (released i w) =
     (resp_area w)[unat i := (resp_area w ! unat i)\<lparr>rs_owner_pid := 0, rs_state := RESP_FREE\<rparr>]"
  "resp_area (replied i str len utf8 w) = (resp_area w)[unat i := (resp_area w ! unat i)
     \<lparr>rs_data := str @ drop (unat len) (rs_data (resp_area w ! unat i)),
      rs_resp_len := len, rs_resp_flags := (if utf8 then 1 else 0), rs_state := RESP_READY\<rparr>]"
  "resp_area (cancelled i w) = (resp_area w)[unat i := (resp_area w ! unat i)
     \<lparr>rs_state := RESP_FREE, rs_owner_pid := 0,
      rs_generation := rs_generation (resp_area w ! unat i) + 1\<rparr>]"
  by (simp_all add: released_def replied_def cancelled_def)

lemma release_alone:
  assumes "quiet os" "unat idx < length (resp_area w)"
  shows "reqrep_slot_release os idx w = Some (released idx w)"
  using assms by (simp add: reqrep_slot_release_def released_def)

lemma slots_len: "slots_ok h w \<Longrightarrow> \<not> hn_resp_slots h \<le> idx \<Longrightarrow> unat idx < length (resp_area w)"
  using in_range by (simp add: slots_ok_def)

lemma reply_eq:
  assumes "quiet os" and "slots_ok h w" and "length str = unat len"
  shows "reqrep_reply os h id' str len utf8 w = Some (
    let idx = REQREP_ID_SLOT id'; s = resp_area w ! unat idx in
    if hn_resp_slots h \<le> idx then (-1, w)
    else if hn_resp_data_max h < len then (-3, w)
    else if rs_state s \<noteq> RESP_ACQUIRED \<or> rs_generation s \<noteq> REQREP_ID_GEN id' then (-2, w)
    else (1, replied idx str len utf8 w))"
proof -
  let ?idx = "REQREP_ID_SLOT id'"
  let ?s = "resp_area w ! unat ?idx"
  have data: "(if len > 0 then memcpy (rs_data ?s) 0 str 0 (unat len) else Some (rs_data ?s)) =
      Some (str @ drop (unat len) (rs_data ?s))"
    if "\<not> hn_resp_slots h \<le> ?idx" "\<not> hn_resp_data_max h < len"
  proof -
    have "slot_ok h ?s" using slots_len [OF assms(2) that(1)] assms(2) by (simp add: slots_ok_def)
    with that(2) have "unat len \<le> length (rs_data ?s)"
      by (simp add: slot_ok_def word_less_nat_alt)
    moreover have "str = []" if "\<not> len > 0" using that assms(3) by (simp add: word_gt_0)
    ultimately show ?thesis using assms(3) by (auto simp: memcpy_def)
  qed
  note l = slots_len [OF assms(2), of ?idx]
  show ?thesis
    using assms(1) l data
    by (simp add: reqrep_reply_def Let_def quiet_resp_slot cas_state_Some replied_def wake_slot_def)
qed

text \<open>
  Replying alone, on every branch: -1 for a slot index outside the table, -3 for a
  reply that does not fit a slot, -2 when the slot is not waiting for a reply or belongs to
  another generation, each without any change; otherwise the bytes, their length and the UTF-8
  flag are stored, the slot becomes READY, a waiter of this slot is woken and the reply counted.
\<close>

theorem reply_alone:
  assumes "quiet os" and "slots_ok h w" and "length str = unat len"
  shows "reqrep_reply os h id' str len utf8 w = Some (
    let idx = REQREP_ID_SLOT id'; s = resp_area w ! unat idx in
    if hn_resp_slots h \<le> idx then (-1, w)
    else if hn_resp_data_max h < len then (-3, w)
    else if rs_state s \<noteq> RESP_ACQUIRED \<or> rs_generation s \<noteq> REQREP_ID_GEN id' then (-2, w)
    else (1, replied idx str len utf8 w))"
  using assms by (rule reply_eq)

theorem reply_alone_witness:
  "\<exists>h w. slots_ok h w \<and> reqrep_reply quiet_os h (REQREP_MAKE_ID 0 1) [65] 1 False w =
     Some (1, replied 0 [65] 1 False w) \<and>
     reqrep_reply quiet_os h (REQREP_MAKE_ID 1 1) [65] 1 False w = Some (-1, w)"
proof -
  obtain h w where d: "slots_ok h w" "hn_resp_slots h = 1" "hn_resp_data_max h = 16"
    "awaiting h (REQREP_MAKE_ID 0 1) w" using demo_awaiting by metis
  from reply_alone [OF quiet_quiet_os d(1), of "[65]" 1 "REQREP_MAKE_ID 0 1" False]
    reply_alone [OF quiet_quiet_os d(1), of "[65]" 1 "REQREP_MAKE_ID 1 1" False] d show ?thesis
    by (auto simp: awaiting_def Let_def)
qed

lemma cancel_alone:
  assumes "quiet os" and "slots_ok h w"
  shows "reqrep_cancel os h id' w = Some (
    let idx = REQREP_ID_SLOT id'; s = resp_area w ! unat idx in
    if hn_resp_slots h \<le> idx \<or> rs_generation s \<noteq> REQREP_ID_GEN id' \<or> rs_state s \<noteq> RESP_ACQUIRED
    then w else cancelled idx w)"
  using assms(1) slots_len [OF assms(2), of "REQREP_ID_SLOT id'"]
  by (simp add: reqrep_cancel_def Let_def quiet_resp_slot cas_state_Some cancelled_def wake_slot_def)


text \<open>
  Cancelling alone: a request that still waits for its reply under the identifier
  given has its slot freed, its owner erased, its generation advanced, every waiter of the slot
  and one client waiting for a slot woken; in every other case, a reply that has arrived
  included, nothing changes.
\<close>

theorem cancel_alone_spec:
  assumes "quiet os" and "slots_ok h w"
  shows "returns (reqrep_cancel os h id' w) (\<lambda>w'.
    let idx = REQREP_ID_SLOT id'; s = resp_area w ! unat idx in
    if idx < hn_resp_slots h \<and> rs_generation s = REQREP_ID_GEN id' \<and> rs_state s = RESP_ACQUIRED
    then resp_area w' = (resp_area w)[unat idx := s\<lparr>rs_state := RESP_FREE, rs_owner_pid := 0,
           rs_generation := rs_generation s + 1\<rparr>] \<and>
         kcalls w' = kcalls w @
           (if rs_waiters s > 0 then [FUTEX_WAKE (Fresp idx) INT_MAX] else []) @
           (if h_slot_waiters (hdr w) > 0 then [FUTEX_WAKE Fslot 1] else [])
    else w' = w)"
  using cancel_alone [OF assms, of id'] slots_len [OF assms(2), of "REQREP_ID_SLOT id'"]
  by (auto simp: Let_def not_le cancelled_def wake_slot_def wake_defs)

theorem cancel_alone_spec_witness:
  "\<exists>h w. slots_ok h w \<and> returns (reqrep_cancel quiet_os h (REQREP_MAKE_ID 0 1) w)
     (\<lambda>w'. rs_state (resp_area w' ! 0) = RESP_FREE \<and> rs_generation (resp_area w' ! 0) = 2)"
proof -
  obtain h w where d: "slots_ok h w" "hn_resp_slots h = 1" "awaiting h (REQREP_MAKE_ID 0 1) w"
    using demo_awaiting by metis
  have "0 < length (resp_area w)" using d(1,2) by (simp add: slots_ok_def)
  then have "returns (reqrep_cancel quiet_os h (REQREP_MAKE_ID 0 1) w)
      (\<lambda>w'. rs_state (resp_area w' ! 0) = RESP_FREE \<and> rs_generation (resp_area w' ! 0) = 2)"
    using cancel_alone_spec [OF quiet_quiet_os d(1), of "REQREP_MAKE_ID 0 1"] d(2,3)
    by (auto simp: Let_def awaiting_def elim!: returns_mono)
  with d(1) show ?thesis by blast
qed

lemma try_get_eq:
  fixes id' w
  assumes "quiet os" and "slots_ok h w" and "copy_buf_ok h"
  defines "s \<equiv> resp_area w ! unat (REQREP_ID_SLOT id')"
  shows "REQREP_ID_SLOT id' \<ge> hn_resp_slots h \<Longrightarrow> reqrep_try_get os h id' w = Some (-1, None, h, w)"
    and "REQREP_ID_SLOT id' < hn_resp_slots h \<Longrightarrow> rs_generation s \<noteq> REQREP_ID_GEN id' \<Longrightarrow>
      reqrep_try_get os h id' w = Some (-4, None, h, w)"
    and "REQREP_ID_SLOT id' < hn_resp_slots h \<Longrightarrow> rs_generation s = REQREP_ID_GEN id' \<Longrightarrow>
      rs_state s \<noteq> RESP_READY \<Longrightarrow> reqrep_try_get os h id' w = Some (0, None, h, w)"
    and "REQREP_ID_SLOT id' < hn_resp_slots h \<Longrightarrow> rs_generation s = REQREP_ID_GEN id' \<Longrightarrow>
      rs_state s = RESP_READY \<Longrightarrow>
      (\<exists>n. \<not> os_realloc os [3] n) \<and> reqrep_try_get os h id' w = Some (-2, None, h, w) \<or>
      (\<exists>h'. rebuffered h h' \<and> copy_buf_ok h' \<and> reqrep_try_get os h id' w =
         Some (1, Some \<lparr>gt_str = take (unat (rs_resp_len s)) (rs_data s), gt_len = rs_resp_len s,
           gt_utf8 = (rs_resp_flags s AND 1 \<noteq> 0)\<rparr>, h', released (REQREP_ID_SLOT id') w))"
proof -
  let ?idx = "REQREP_ID_SLOT id'"
  show "?idx \<ge> hn_resp_slots h \<Longrightarrow> reqrep_try_get os h id' w = Some (-1, None, h, w)"
    by (simp add: reqrep_try_get_def)
  assume lt: "?idx < hn_resp_slots h"
  then have l: "unat ?idx < length (resp_area w)" using slots_len [OF assms(2)] by (simp add: not_le)
  note get = quiet_resp_slot [OF l, folded s_def]
  show "rs_generation s \<noteq> REQREP_ID_GEN id' \<Longrightarrow>
      reqrep_try_get os h id' w = Some (-4, None, h, w)"
    using assms(1) lt get by (simp add: reqrep_try_get_def Let_def)
  assume gen: "rs_generation s = REQREP_ID_GEN id'"
  then show "rs_state s \<noteq> RESP_READY \<Longrightarrow> reqrep_try_get os h id' w = Some (0, None, h, w)"
    using assms(1) lt get by (simp add: reqrep_try_get_def Let_def)
  assume ready: "rs_state s = RESP_READY"
  have sok: "slot_ok h s" using assms(2) l by (simp add: slots_ok_def s_def)
  let ?len = "rs_resp_len s"
  obtain b h1 where e: "reqrep_ensure_copy_buf (sub os 3) h (?len + 1) = (b, h1)" by force
  show "(\<exists>n. \<not> os_realloc os [3] n) \<and> reqrep_try_get os h id' w = Some (-2, None, h, w) \<or>
      (\<exists>h'. rebuffered h h' \<and> copy_buf_ok h' \<and> reqrep_try_get os h id' w =
         Some (1, Some \<lparr>gt_str = take (unat (rs_resp_len s)) (rs_data s), gt_len = rs_resp_len s,
           gt_utf8 = (rs_resp_flags s AND 1 \<noteq> 0)\<rparr>, h', released ?idx w))"
  proof (cases b)
    case False
    with e ensure_copy_buf_False [of "sub os 3" h "?len + 1" h1] assms(1) lt get gen ready
    show ?thesis by (auto simp: reqrep_try_get_def Let_def not_le [symmetric])
  next
    case True
    with e have e': "reqrep_ensure_copy_buf (sub os 3) h (?len + 1) = (True, h1)" by simp
    note e1 = ensure_copy_buf_True [OF e' assms(3)]
    obtain b0 c where h1: "h1 = h\<lparr>hn_copy_buf := b0, hn_copy_buf_cap := c\<rparr>" using e1(3) by blast
    have "0 + unat ?len \<le> length (rs_data s)" and le: "?len \<le> hn_resp_data_max h"
      using sok by (auto simp: slot_ok_def word_le_nat_alt)
    from copy_to_buf_Some [OF e1(1,2) slot_len_plus_1 [OF assms(2) le] this(1)] obtain buf where
      buf: "copy_to_buf h1 (rs_data s) 0 ?len = Some (h1\<lparr>hn_copy_buf := buf\<rparr>)"
      "length buf = length (hn_copy_buf h1)" "take (unat ?len) buf = take (unat ?len) (rs_data s)"
      by auto
    have "rebuffered h (h1\<lparr>hn_copy_buf := buf\<rparr>)" "copy_buf_ok (h1\<lparr>hn_copy_buf := buf\<rparr>)"
      using e1(1) buf(2) by (simp_all add: copy_buf_ok_def h1)
    moreover have "reqrep_try_get os h id' w = Some (1, Some \<lparr>gt_str = take (unat ?len) (rs_data s),
        gt_len = ?len, gt_utf8 = (rs_resp_flags s AND 1 \<noteq> 0)\<rparr>, h1\<lparr>hn_copy_buf := buf\<rparr>, released ?idx w)"
      using assms(1) lt get gen ready e' buf(1,3) release_alone [OF quiet_sub [OF assms(1)] l]
      by (simp add: reqrep_try_get_def Let_def not_le [symmetric])
    ultimately show ?thesis by blast
  qed
qed


lemma try_get_after:
  assumes "quiet os" and "slots_ok h w" and "copy_buf_ok h" and "\<And>n. os_realloc os [3] n"
    and "REQREP_ID_SLOT id' < hn_resp_slots h"
    and "resp_area w ! unat (REQREP_ID_SLOT id') = s" and "rs_generation s = REQREP_ID_GEN id'"
    and "rs_state s = RESP_READY"
  obtains h' where "rebuffered h h'" "copy_buf_ok h'" "reqrep_try_get os h id' w =
    Some (1, Some \<lparr>gt_str = take (unat (rs_resp_len s)) (rs_data s), gt_len = rs_resp_len s,
      gt_utf8 = (rs_resp_flags s AND 1 \<noteq> 0)\<rparr>, h', released (REQREP_ID_SLOT id') w)"
  using try_get_eq(4) [OF assms(1-3), of id'] assms(4-8) by blast

lemma slots_ok_replied:
  assumes "slots_ok h w" "REQREP_ID_SLOT id' < hn_resp_slots h" "length str = unat len"
    "\<not> hn_resp_data_max h < len"
  shows "slots_ok h (replied (REQREP_ID_SLOT id') str len utf8 w)"
proof -
  let ?i = "REQREP_ID_SLOT id'"
  have l: "unat ?i < length (resp_area w)"
    using slots_len [OF assms(1)] assms(2) by (simp add: not_le)
  then have "slot_ok h (resp_area w ! unat ?i)" using assms(1) by (simp add: slots_ok_def)
  then have "slot_ok h ((resp_area w ! unat ?i)\<lparr>
      rs_data := str @ drop (unat len) (rs_data (resp_area w ! unat ?i)), rs_resp_len := len,
      rs_resp_flags := (if utf8 then 1 else 0), rs_state := RESP_READY\<rparr>)"
    using assms(3,4) by (auto simp: slot_ok_def)
  from slots_ok_set [OF assms(1) this, of ?i] show ?thesis
    by (subst slots_ok_frame [where w = "set_resp_slot ?i _ w"]) simp_all
qed

text \<open>
  Property C20. Round trip of a reply: for a request that is waiting, a reply of at most
  \<open>resp_data_max\<close> bytes is accepted, and fetching it then yields the same bytes, length and
  UTF-8 flag, frees the slot without changing its generation, and leaves every other slot alone.
\<close>

theorem reply_get_roundtrip:
  assumes "quiet os" and "slots_ok h w" and "copy_buf_ok h" and "awaiting h id' w"
    and "length str = unat len" and "len \<le> hn_resp_data_max h" and "\<And>n. os_realloc os [3] n"
  shows "\<exists>w1 h' w2. reqrep_reply os h id' str len utf8 w = Some (1, w1) \<and>
     reqrep_try_get os h id' w1 =
       Some (1, Some \<lparr>gt_str = str, gt_len = len, gt_utf8 = utf8\<rparr>, h', w2) \<and>
     rebuffered h h' \<and>
     (\<forall>j < length (resp_area w). j \<noteq> unat (REQREP_ID_SLOT id') \<longrightarrow> resp_area w2 ! j = resp_area w ! j) \<and>
     rs_state (resp_area w2 ! unat (REQREP_ID_SLOT id')) = RESP_FREE \<and>
     rs_generation (resp_area w2 ! unat (REQREP_ID_SLOT id')) = REQREP_ID_GEN id'"
proof -
  let ?i = "REQREP_ID_SLOT id'"
  let ?w1 = "replied ?i str len utf8 w"
  have lt: "?i < hn_resp_slots h" "\<not> hn_resp_slots h \<le> ?i" "\<not> hn_resp_data_max h < len"
    using assms(4,6) by (auto simp: awaiting_def)
  have l: "unat ?i < length (resp_area w)" by (rule slots_len [OF assms(2) lt(2)])
  have r: "reqrep_reply os h id' str len utf8 w = Some (1, ?w1)"
    using reply_eq [OF assms(1,2,5)] assms(4) lt by (simp add: awaiting_def Let_def)
  have ok1: "slots_ok h ?w1" by (rule slots_ok_replied [OF assms(2) lt(1) assms(5) lt(3)])
  define s1 where "s1 = resp_area ?w1 ! unat ?i"
  have s1: "rs_generation s1 = REQREP_ID_GEN id'" "rs_state s1 = RESP_READY" "rs_resp_len s1 = len"
    "take (unat len) (rs_data s1) = str" "(rs_resp_flags s1 AND 1 \<noteq> 0) = utf8"
    using l assms(4,5) by (simp_all add: awaiting_def s1_def)
  from try_get_after [OF assms(1) ok1 assms(3,7) lt(1) s1_def [symmetric] s1(1,2)] obtain h' where
    g: "rebuffered h h'" and g': "reqrep_try_get os h id' ?w1 =
      Some (1, Some \<lparr>gt_str = str, gt_len = len, gt_utf8 = utf8\<rparr>, h', released ?i ?w1)"
    by (simp only: s1) blast
  show ?thesis
    using assms(4) l r g g'
    by (intro exI [of _ ?w1] exI [of _ h'] exI [of _ "released ?i ?w1"]) (simp add: awaiting_def)
qed

theorem reply_get_roundtrip_witness:
  "\<exists>h w w1 h' w2. reqrep_reply quiet_os h (REQREP_MAKE_ID 0 1) [65, 66] 2 True w = Some (1, w1) \<and>
     reqrep_try_get quiet_os h (REQREP_MAKE_ID 0 1) w1 =
       Some (1, Some \<lparr>gt_str = [65, 66], gt_len = 2, gt_utf8 = True\<rparr>, h', w2)"
proof -
  obtain h w where d: "copy_buf_ok h" "slots_ok h w" "hn_resp_data_max h = 16"
    "awaiting h (REQREP_MAKE_ID 0 1) w" using demo_awaiting by metis
  from reply_get_roundtrip [OF quiet_quiet_os d(2,1,4), of "[65, 66]" 2 True] d(3) show ?thesis
    by (simp add: quiet_os_def) blast
qed

text \<open>
  Property C19. A cancelled request never hears of its reply, as long as the operations do not
  race: after the cancel, and still after the slot has been given to another client, a reply
  under the old identifier is refused as stale and changes nothing, fetching answers stale, and
  cancelling again changes nothing.
\<close>

theorem cancelled_id_is_stale:
  assumes "quiet os" and "slots_ok h w" and "copy_buf_ok h" and "awaiting h id' w"
    and "length str = unat len" and "len \<le> hn_resp_data_max h"
  shows "returns (reqrep_cancel os h id' w) (\<lambda>w1. slots_ok h w1 \<and>
     (\<forall>w2 \<in> {w1, take_slot pid (REQREP_ID_SLOT id') w1}.
        reqrep_reply os h id' str len utf8 w2 = Some (-2, w2) \<and>
        reqrep_try_get os h id' w2 = Some (-4, None, h, w2) \<and>
        reqrep_cancel os h id' w2 = Some w2))"
proof -
  let ?i = "REQREP_ID_SLOT id'"
  let ?w1 = "cancelled ?i w"
  have lt: "?i < hn_resp_slots h" "\<not> hn_resp_slots h \<le> ?i" using assms(4) by (auto simp: awaiting_def)
  have l: "unat ?i < length (resp_area w)" by (rule slots_len [OF assms(2) lt(2)])
  have c: "reqrep_cancel os h id' w = Some ?w1"
    using cancel_alone [OF assms(1,2)] assms(4) lt by (simp add: awaiting_def Let_def)
  have ok1: "slots_ok h ?w1" using cancel_safe [OF keeps_quiet [OF assms(1)] assms(2), of id'] c by simp
  have ok2: "slots_ok h (take_slot pid ?i ?w1)"
    using ok1 l by (intro slots_ok_take) simp_all
  have two: "REQREP_ID_GEN id' + 1 \<noteq> REQREP_ID_GEN id'" "REQREP_ID_GEN id' + 1 + 1 \<noteq> REQREP_ID_GEN id'"
    by (simp_all add: add.assoc)
  have stale: "reqrep_reply os h id' str len utf8 w2 = Some (-2, w2) \<and>
        reqrep_try_get os h id' w2 = Some (-4, None, h, w2) \<and> reqrep_cancel os h id' w2 = Some w2"
    if "slots_ok h w2" "rs_generation (resp_area w2 ! unat ?i) \<noteq> REQREP_ID_GEN id'" for w2
    using reply_eq [OF assms(1) that(1) assms(5)] try_get_eq(2) [OF assms(1) that(1) assms(3)]
      cancel_alone [OF assms(1) that(1)] that(2) lt assms(6)
    by (simp add: Let_def not_less [symmetric])
  have "\<forall>w2 \<in> {?w1, take_slot pid ?i ?w1}. slots_ok h w2 \<and>
      rs_generation (resp_area w2 ! unat ?i) \<noteq> REQREP_ID_GEN id'"
    using ok1 ok2 l assms(4) two by (simp add: awaiting_def)
  with stale c ok1 show ?thesis by simp
qed

theorem cancelled_id_is_stale_witness:
  "\<exists>h w. awaiting h (REQREP_MAKE_ID 0 1) w \<and>
     returns (reqrep_cancel quiet_os h (REQREP_MAKE_ID 0 1) w) (\<lambda>w1.
       reqrep_reply quiet_os h (REQREP_MAKE_ID 0 1) [65] 1 False w1 = Some (-2, w1))"
proof -
  obtain h w where d: "copy_buf_ok h" "slots_ok h w" "hn_resp_data_max h = 16"
    "awaiting h (REQREP_MAKE_ID 0 1) w" using demo_awaiting by metis
  from cancelled_id_is_stale [OF quiet_quiet_os d(2,1,4), of "[65]" 1 0 False] d(3)
  have "returns (reqrep_cancel quiet_os h (REQREP_MAKE_ID 0 1) w) (\<lambda>w1.
       reqrep_reply quiet_os h (REQREP_MAKE_ID 0 1) [65] 1 False w1 = Some (-2, w1))"
    by (auto elim!: returns_mono)
  with d(4) show ?thesis by blast
qed

text \<open>
  Property C37. Fetching a reply frees the slot but does not advance its generation, so until the
  slot is acquired again the consumed identifier is not stale: fetching it a second time answers
  0, not ready, for which \<^verbatim>\<open>reqrep_get_wait\<close> waits.
\<close>

theorem fetched_id_looks_pending:
  assumes "quiet os" and "slots_ok h w" and "copy_buf_ok h"
    and "reqrep_try_get os h id' w = Some (1, out, h', w')"
  shows "reqrep_try_get os h' id' w' = Some (0, None, h', w')"
proof -
  let ?i = "REQREP_ID_SLOT id'" and ?s = "resp_area w ! unat (REQREP_ID_SLOT id')"
  note eq = try_get_eq [OF assms(1-3), of id']
  have lt: "?i < hn_resp_slots h" using eq(1) assms(4) by (auto simp: not_le [symmetric])
  have gen: "rs_generation ?s = REQREP_ID_GEN id'" using eq(2) [OF lt] assms(4) by auto
  have ready: "rs_state ?s = RESP_READY" using eq(3) [OF lt gen] assms(4) by auto
  from eq(4) [OF lt gen ready] assms(4) have h': "rebuffered h h'" "copy_buf_ok h'"
    and w': "w' = released ?i w" by auto
  have l: "unat ?i < length (resp_area w)" using slots_len [OF assms(2)] lt by (simp add: not_le)
  have ok: "slots_ok h' w'"
    using try_get_safe [OF keeps_quiet [OF assms(1)] assms(2,3), of id'] assms(4)
      rebuffered_same(3) [OF h'(1)] by simp
  have "?i < hn_resp_slots h'" using lt rebuffered_same(1) [OF h'(1)] by simp
  from try_get_eq(3) [OF assms(1) ok h'(2) this] gen l show ?thesis by (simp add: w')
qed

theorem fetched_id_looks_pending_witness:
  "\<exists>h w h' w' out. reqrep_try_get quiet_os h (REQREP_MAKE_ID 0 1) w = Some (1, out, h', w') \<and>
     reqrep_try_get quiet_os h' (REQREP_MAKE_ID 0 1) w' = Some (0, None, h', w')"
proof -
  obtain h w0 where d: "copy_buf_ok h" "slots_ok h w0" "hn_resp_slots h = 1" "hn_resp_data_max h = 16"
    "awaiting h (REQREP_MAKE_ID 0 1) w0" using demo_awaiting by metis
  let ?w = "replied 0 [65] 1 False w0"
  have l: "unat (0 :: u32) < length (resp_area w0)" using d(2,3) by (simp add: slots_ok_def)
  have ok: "slots_ok h ?w"
    using slots_ok_replied [OF d(2), of "REQREP_MAKE_ID 0 1" "[65]" 1 False] d(3,4) by simp
  have z: "rs_generation (resp_area ?w ! unat (REQREP_ID_SLOT (REQREP_MAKE_ID 0 1))) =
      REQREP_ID_GEN (REQREP_MAKE_ID 0 1)"
    "rs_state (resp_area ?w ! unat (REQREP_ID_SLOT (REQREP_MAKE_ID 0 1))) = RESP_READY"
    using d(5) l by (simp_all add: awaiting_def)
  have grant: "\<And>n. os_realloc quiet_os [3] n" by (simp add: quiet_os_def)
  have lt: "REQREP_ID_SLOT (REQREP_MAKE_ID 0 1) < hn_resp_slots h" using d(3) by simp
  obtain h' out w' where "reqrep_try_get quiet_os h (REQREP_MAKE_ID 0 1) ?w = Some (1, out, h', w')"
    by (rule try_get_after [OF quiet_quiet_os ok d(1) grant lt refl z])
  with fetched_id_looks_pending [OF quiet_quiet_os ok d(1) this] show ?thesis by blast
qed

lemma pending_scan_alone:
  assumes "quiet os" and "length (resp_area w) = unat n" and "\<forall>i \<in> set js. i < unat (n :: u32)"
  shows "pending_scan os js cnt w = Some (cnt + of_nat (length (filter (\<lambda>i.
     rs_state (resp_area w ! i) \<in> {RESP_ACQUIRED, RESP_READY} \<and>
     rs_owner_pid (resp_area w ! i) = os_pid os) js)), w)"
  using assms(3)
proof (induction js arbitrary: cnt)
  case (Cons i js)
  have i: "unat (of_nat i :: u32) = i" using Cons.prems of_nat_in_range [of i n] by simp
  then have "unat (of_nat i :: u32) < length (resp_area w)" using Cons.prems assms(2) by simp
  with Cons i assms(1) show ?case
    by (auto simp: Let_def quiet_resp_slot algebra_simps)
qed simp

text \<open>
  \<^verbatim>\<open>reqrep_pending\<close> alone counts exactly the slots this process holds, waiting or
  answered, and changes nothing.
\<close>

theorem pending_counts_own_slots:
  assumes "quiet os" and "slots_ok h w"
  shows "\<exists>n. reqrep_pending os h w = Some (n, w) \<and>
     unat n = length (filter (\<lambda>s. rs_state s \<in> {RESP_ACQUIRED, RESP_READY} \<and>
        rs_owner_pid s = os_pid os) (resp_area w))"
proof -
  have len: "length (resp_area w) = unat (hn_resp_slots h)" using assms(2) by (simp add: slots_ok_def)
  let ?P = "\<lambda>s. rs_state s \<in> {RESP_ACQUIRED, RESP_READY} \<and> rs_owner_pid s = os_pid os"
  have "filter ?P (map ((!) (resp_area w)) [0..<length (resp_area w)]) =
      map ((!) (resp_area w)) (filter (\<lambda>i. ?P (resp_area w ! i)) [0..<length (resp_area w)])"
    by (simp only: filter_map comp_def)
  then have "filter ?P (resp_area w) =
      map ((!) (resp_area w)) (filter (\<lambda>i. ?P (resp_area w ! i)) [0..<length (resp_area w)])"
    by (simp only: map_nth)
  then have "length (filter (\<lambda>i. ?P (resp_area w ! i)) [0..<unat (hn_resp_slots h)]) =
      length (filter ?P (resp_area w))"
    by (simp add: len)
  moreover have "length (filter ?P (resp_area w)) < 2 ^ 32"
    using length_filter_le [of ?P "resp_area w"] len unat_lt_32 [of "hn_resp_slots h"] by simp
  ultimately show ?thesis
    using pending_scan_alone [OF assms(1) len, of "[0..<unat (hn_resp_slots h)]" 0]
    by (simp add: reqrep_pending_def unat_of_nat)
qed

theorem pending_counts_own_slots_witness:
  "\<exists>h w n. slots_ok h w \<and> reqrep_pending quiet_os h (take_slot 7 0 w) = Some (n, take_slot 7 0 w) \<and> unat n = 1"
proof -
  obtain h w where d: "slots_ok h w" "resp_area w = [zero_resp_slot 64]" using demo_slots by metis
  have "slots_ok h (take_slot 7 0 w)" using d by (intro slots_ok_take) simp_all
  from pending_counts_own_slots [OF quiet_quiet_os this] d show ?thesis
    by (auto simp: quiet_os_def)
qed

section \<open>The race the generation does not close\<close>

text \<open>Between its check of the generation and its compare-and-exchange of the state, a reply
  meets a client that cancels the request and another (pid 8) that acquires a slot.\<close>

definition steal :: "ReqRepHandle \<Rightarrow> u64 \<Rightarrow> shm \<Rightarrow> shm" where
  "steal h id' w = (case reqrep_cancel quiet_os h id' w of None \<Rightarrow> w
     | Some w1 \<Rightarrow> (case reqrep_slot_acquire (quiet_os\<lparr>os_pid := 8\<rparr>) h w1 of None \<Rightarrow> w1
         | Some (r, w2) \<Rightarrow> w2))"

definition racing :: "ReqRepHandle \<Rightarrow> u64 \<Rightarrow> os" where
  "racing h id' = quiet_os\<lparr>os_run := \<lambda>p w. if p = [3] then steal h id' w else w\<rparr>"

lemma steal_one_slot:
  assumes "slots_ok h w" and "hn_resp_slots h = 1" and "awaiting h id' w"
  shows "resp_area (steal h id' w) = [(resp_area w ! 0)\<lparr>rs_state := RESP_ACQUIRED,
           rs_owner_pid := 8, rs_generation := REQREP_ID_GEN id' + 2\<rparr>]"
    and "slots_ok h (steal h id' w)"
proof -
  have i: "REQREP_ID_SLOT id' = 0" using assms(2,3) by (simp add: awaiting_def)
  obtain s where s: "resp_area w = [s]"
    using assms(1,2) by (auto simp: slots_ok_def length_Suc_conv)
  let ?w1 = "cancelled 0 w" and ?os = "quiet_os\<lparr>os_pid := 8\<rparr>"
  have c: "reqrep_cancel quiet_os h id' w = Some ?w1"
    using cancel_alone [OF quiet_quiet_os assms(1)] assms(2,3) i by (simp add: awaiting_def Let_def)
  have ok1: "slots_ok h ?w1"
    using cancel_safe [OF keeps_quiet [OF quiet_quiet_os] assms(1), of id'] c by simp
  have q: "quiet ?os" by (simp add: quiet_def quiet_os_def)
  have ord: "scan_order h ?w1 = [0]"
    by (simp add: scan_order_def assms(2))
  have f: "find (\<lambda>i. rs_state (resp_area ?w1 ! i) = RESP_FREE) (scan_order h ?w1) = Some 0"
    by (simp add: ord s)
  have a: "reqrep_slot_acquire ?os h ?w1 = Some (0,
      hdr_update (\<lambda>x. x\<lparr>h_resp_hint := (of_nat 0 + 1) mod hn_resp_slots h\<rparr>) (take_slot 8 0 ?w1))"
    using slot_acquire_eq [OF q ok1] assms(2) f by simp
  have gen: "rs_generation s = REQREP_ID_GEN id'" using assms(3) s i by (simp add: awaiting_def)
  have steal: "steal h id' w =
      hdr_update (\<lambda>x. x\<lparr>h_resp_hint := (of_nat 0 + 1) mod hn_resp_slots h\<rparr>) (take_slot 8 0 ?w1)"
    by (simp add: steal_def c a)
  show "resp_area (steal h id' w) = [(resp_area w ! 0)\<lparr>rs_state := RESP_ACQUIRED,
           rs_owner_pid := 8, rs_generation := REQREP_ID_GEN id' + 2\<rparr>]"
    by (simp add: steal s gen add.assoc)
  show "slots_ok h (steal h id' w)"
    unfolding steal slots_ok_simps using ok1 by (intro slots_ok_take) (simp_all add: s)
qed

text \<open>
  Property C33. The generation check does not protect a reply against a cancel that is followed
  by a new acquire between the check and the compare-and-exchange, which compares the state
  only: the reply is accepted (1) although its request is gone, and the new owner, under its own
  identifier, receives the answer to a question it never asked.
\<close>

theorem reply_reaches_wrong_client:
  assumes "slots_ok h w" and "copy_buf_ok h" and "hn_resp_slots h = 1" and "awaiting h id' w"
    and "length str = unat len" and "len \<le> hn_resp_data_max h"
  defines "id2 \<equiv> REQREP_MAKE_ID 0 (REQREP_ID_GEN id' + 2)"
  shows "id2 \<noteq> id' \<and> (\<exists>w1 h' w2. reqrep_reply (racing h id') h id' str len utf8 w = Some (1, w1) \<and>
           rs_owner_pid (resp_area w1 ! 0) = 8 \<and>
           reqrep_try_get quiet_os h id2 w1 =
             Some (1, Some \<lparr>gt_str = str, gt_len = len, gt_utf8 = utf8\<rparr>, h', w2))"
proof
  have "REQREP_ID_GEN id2 \<noteq> REQREP_ID_GEN id'" by (simp add: id2_def)
  then show "id2 \<noteq> id'" by blast
  let ?os = "racing h id'"
  have run: "others ?os k x = (if k = 3 then steal h id' x else x)" for k x
    by (simp add: racing_def)
  have i: "REQREP_ID_SLOT id' = 0" using assms(3,4) by (simp add: awaiting_def)
  obtain s where s: "resp_area w = [s]"
    using assms(1,3) by (auto simp: slots_ok_def length_Suc_conv)
  have aw: "rs_state s = RESP_ACQUIRED" "rs_generation s = REQREP_ID_GEN id'"
    using assms(4) s i by (auto simp: awaiting_def)
  have sok: "slot_ok h s" using assms(1) s by (simp add: slots_ok_def)
  let ?d = "str @ drop (unat len) (rs_data s)"
  have data: "(if len > 0 then memcpy (rs_data s) 0 str 0 (unat len) else Some (rs_data s)) = Some ?d"
  proof (cases "len > 0")
    case True
    then show ?thesis using sok assms(5,6) by (auto simp: memcpy_def slot_ok_def word_le_nat_alt)
  next
    case False
    then show ?thesis using assms(5) by (simp add: word_gt_0)
  qed
  let ?t = "s\<lparr>rs_data := ?d, rs_resp_len := len, rs_resp_flags := (if utf8 then 1 else 0)\<rparr>"
  let ?w0 = "set_resp_slot 0 ?t w"
  let ?w' = "steal h id' ?w0"
  have ok0: "slots_ok h ?w0"
    using assms(5,6) sok by (intro slots_ok_set [OF assms(1)]) (auto simp: slot_ok_def word_le_nat_alt)
  have aw0: "awaiting h id' ?w0" using assms(4) s i by (simp add: awaiting_def)
  note st = steal_one_slot [OF ok0 assms(3) aw0]
  let ?r = "?t\<lparr>rs_state := RESP_ACQUIRED, rs_owner_pid := 8, rs_generation := REQREP_ID_GEN id' + 2\<rparr>"
  have area: "resp_area ?w' = [?r]" using st(1) s by simp
  let ?v = "set_resp_slot 0 (?r\<lparr>rs_state := RESP_READY\<rparr>) ?w'"
  let ?w1 = "hdr_update (\<lambda>x. x\<lparr>h_stat_replies := h_stat_replies x + 1\<rparr>)
     (if rs_waiters s > 0 then kcall (FUTEX_WAKE (Fresp 0) 1) ?v else ?v)"
  have reply: "reqrep_reply ?os h id' str len utf8 w = Some (1, ?w1)"
    using i aw data assms(3,6) s area
    by (simp add: reqrep_reply_def Let_def run reqrep_resp_slot_def cas_state_def not_le)
  have area1: "resp_area ?w1 = [?r\<lparr>rs_state := RESP_READY\<rparr>]" using area by simp
  have "slots_ok h ?v"
    using st(2) sok assms(5,6)
    by (intro slots_ok_set) (auto simp: slot_ok_def word_le_nat_alt)
  then have ok1: "slots_ok h ?w1" by simp
  have id2: "REQREP_ID_SLOT id2 = 0" "REQREP_ID_GEN id2 = REQREP_ID_GEN id' + 2" by (simp_all add: id2_def)
  have grant: "\<And>n. os_realloc quiet_os [3] n" by (simp add: quiet_os_def)
  define z where "z = ?r\<lparr>rs_state := RESP_READY\<rparr>"
  have z: "resp_area ?w1 ! unat (REQREP_ID_SLOT id2) = z" "rs_generation z = REQREP_ID_GEN id2"
    "rs_state z = RESP_READY" "rs_resp_len z = len" "take (unat len) (rs_data z) = str"
    "(rs_resp_flags z AND 1 \<noteq> 0) = utf8"
    using area1 id2 assms(5) by (simp_all add: z_def)
  have "REQREP_ID_SLOT id2 < hn_resp_slots h" using id2 assms(3) by simp
  from try_get_after [OF quiet_quiet_os ok1 assms(2) grant this z(1-3)] obtain h' where
    "reqrep_try_get quiet_os h id2 ?w1 = Some (1, Some \<lparr>gt_str = str, gt_len = len, gt_utf8 = utf8\<rparr>,
       h', released (REQREP_ID_SLOT id2) ?w1)"
    by (simp only: z) blast
  moreover have "rs_owner_pid (resp_area ?w1 ! 0) = 8" using area1 by simp
  ultimately show "\<exists>w1 h' w2. reqrep_reply ?os h id' str len utf8 w = Some (1, w1) \<and>
      rs_owner_pid (resp_area w1 ! 0) = 8 \<and> reqrep_try_get quiet_os h id2 w1 =
        Some (1, Some \<lparr>gt_str = str, gt_len = len, gt_utf8 = utf8\<rparr>, h', w2)"
    using reply by blast
qed

theorem reply_reaches_wrong_client_witness:
  "\<exists>h w w1 h' w2. awaiting h (REQREP_MAKE_ID 0 1) w \<and>
     reqrep_reply (racing h (REQREP_MAKE_ID 0 1)) h (REQREP_MAKE_ID 0 1) [65] 1 False w = Some (1, w1) \<and>
     reqrep_try_get quiet_os h (REQREP_MAKE_ID 0 3) w1 =
       Some (1, Some \<lparr>gt_str = [65], gt_len = 1, gt_utf8 = False\<rparr>, h', w2)"
proof -
  obtain h w where d: "copy_buf_ok h" "slots_ok h w" "hn_resp_slots h = 1" "hn_resp_data_max h = 16"
    "awaiting h (REQREP_MAKE_ID 0 1) w" using demo_awaiting by metis
  from reply_reaches_wrong_client [OF d(2,1,3,5), of "[65]" 1 False] d(4,5) show ?thesis
    by (simp, blast)
qed

end
