(* ===== verification/RR_System.thy ===== *)
theory RR_System
  imports Main
begin

text \<open>
  Interleaved executions. Where the code runs without a lock, or is the lock, the development
  describes it as a step relation whose steps are the atomic accesses of the processes, taken in
  any order; a property of every execution is an invariant of the relation.
\<close>

inductive reach :: "('s \<Rightarrow> bool) \<Rightarrow> ('s \<Rightarrow> 's \<Rightarrow> bool) \<Rightarrow> 's \<Rightarrow> bool"
  for init :: "'s \<Rightarrow> bool" and step :: "'s \<Rightarrow> 's \<Rightarrow> bool" where
  reach_init: "init s \<Longrightarrow> reach init step s"
| reach_step: "reach init step s \<Longrightarrow> step s t \<Longrightarrow> reach init step t"

locale invariant_system =
  fixes init :: "'s \<Rightarrow> bool" and step :: "'s \<Rightarrow> 's \<Rightarrow> bool" and inv :: "'s \<Rightarrow> bool"
  assumes inv_init: "init s \<Longrightarrow> inv s"
    and inv_step: "inv s \<Longrightarrow> step s t \<Longrightarrow> inv t"
begin

lemma reach_inv: "reach init step s \<Longrightarrow> inv s"
  by (induction rule: reach.induct) (auto intro: inv_init inv_step)

lemma reach_inv_from: "inv s \<Longrightarrow> step\<^sup>*\<^sup>* s t \<Longrightarrow> inv t"
  by (rotate_tac, induction rule: rtranclp_induct) (auto intro: inv_step)

end

lemma reach_steps: "reach init step s \<Longrightarrow> step\<^sup>*\<^sup>* s t \<Longrightarrow> reach init step t"
  by (rotate_tac, induction rule: rtranclp_induct) (auto intro: reach_step)

text \<open>From every reachable state with \<open>P\<close> the system can go to one with \<open>Q\<close>, keeping \<open>J\<close>.\<close>

definition leads ::
  "('s \<Rightarrow> bool) \<Rightarrow> ('s \<Rightarrow> 's \<Rightarrow> bool) \<Rightarrow> ('s \<Rightarrow> bool) \<Rightarrow> ('s \<Rightarrow> bool) \<Rightarrow> ('s \<Rightarrow> bool) \<Rightarrow> bool" where
  "leads init step J P Q \<longleftrightarrow>
     (\<forall>s. reach init step s \<longrightarrow> J s \<longrightarrow> P s \<longrightarrow> (\<exists>t. step\<^sup>*\<^sup>* s t \<and> J t \<and> Q t))"

lemma leads_step:
  "(\<And>s. reach init step s \<Longrightarrow> J s \<Longrightarrow> P s \<Longrightarrow> \<exists>t. step s t \<and> J t \<and> Q t) \<Longrightarrow> leads init step J P Q"
  unfolding leads_def by blast

lemma leads_refl: "(\<And>s. P s \<Longrightarrow> Q s) \<Longrightarrow> leads init step J P Q"
  unfolding leads_def by blast

lemma leadsD:
  assumes "leads init step J P Q" "reach init step s" "J s" "P s"
  obtains t where "step\<^sup>*\<^sup>* s t" "reach init step t" "J t" "Q t"
proof -
  obtain t where t: "step\<^sup>*\<^sup>* s t" "J t" "Q t" using assms unfolding leads_def by blast
  from that [OF t(1) reach_steps [OF assms(2) t(1)] t(2,3)] show thesis .
qed

lemma leads_trans:
  assumes "leads init step J P Q" "leads init step J Q R"
  shows "leads init step J P R"
  unfolding leads_def
proof (intro allI impI)
  fix s assume s: "reach init step s" "J s" "P s"
  obtain s1 where 1: "step\<^sup>*\<^sup>* s s1" "reach init step s1" "J s1" "Q s1" by (rule leadsD [OF assms(1) s])
  obtain t where "step\<^sup>*\<^sup>* s1 t" "J t" "R t" by (rule leadsD [OF assms(2) 1(2-4)])
  with rtranclp_trans [OF 1(1)] show "\<exists>t. step\<^sup>*\<^sup>* s t \<and> J t \<and> R t" by blast
qed

text \<open>Finite executions, for exhibiting one.\<close>

fun path_of :: "('s \<Rightarrow> 's \<Rightarrow> bool) \<Rightarrow> 's list \<Rightarrow> bool" where
  "path_of step [] \<longleftrightarrow> True"
| "path_of step [s] \<longleftrightarrow> True"
| "path_of step (s # t # ts) \<longleftrightarrow> step s t \<and> path_of step (t # ts)"

lemma reach_path: "reach init step s \<Longrightarrow> path_of step (s # ss) \<Longrightarrow> reach init step (last (s # ss))"
proof (induction ss arbitrary: s)
  case (Cons t ts)
  then have "reach init step t" by (auto intro: reach_step)
  with Cons show ?case by (metis last_ConsR list.distinct(1) path_of.simps(3))
qed simp

end
