(* ===== verification/RR_Mutex.thy ===== *)
theory RR_Mutex
  imports RR_Slots RR_System
begin

text \<open>
  The futex mutex of string mode (\<^verbatim>\<open>gen/reqrep.h\<close>, lines 219 to 267), twice. First as the
  functions of the code, run by one caller under arbitrary interference, with the kernel's
  answers as parameters: what a call does to the mapping, when it returns, and how it recovers
  a mutex whose holder died. Then as a system of processes whose atomic accesses interleave in
  any order and which may die at any point, for mutual exclusion.
\<close>

section \<open>The functions\<close>

text \<open>\<^verbatim>\<open>FUTEX_WAIT\<close> returns at once with \<^verbatim>\<open>EAGAIN\<close> if the word has changed.\<close>

definition futex_wait :: "os \<Rightarrow> u32 \<Rightarrow> u32 \<Rightarrow> errno option" where
  "futex_wait os actual expected = (if actual \<noteq> expected then Some EAGAIN else os_futex os [])"

definition reqrep_recover_stale_mutex :: "os \<Rightarrow> u32 \<Rightarrow> shm \<Rightarrow> shm" where
  "reqrep_recover_stale_mutex os observed w =
     (let w = others os 0 w in
      if h_mutex (hdr w) \<noteq> observed then w
      else
        let w = hdr_update (\<lambda>h. h\<lparr>h_mutex := 0\<rparr>) w;
            w = hdr_update (\<lambda>h. h\<lparr>h_stat_recoveries := h_stat_recoveries h + 1\<rparr>) (others os 1 w);
            w = others os 2 w
        in if h_mutex_waiters (hdr w) > 0 then kcall (FUTEX_WAKE Fmutex 1) w else w)"

text \<open>The loop of \<^verbatim>\<open>reqrep_mutex_lock\<close>; \<open>k\<close> numbers the rounds, \<open>spin\<close> is the counter of the
  code, which is 1 in the round after a wait (it is reset to 0 and then incremented).\<close>

fun lock_loop :: "os \<Rightarrow> nat \<Rightarrow> nat \<Rightarrow> nat \<Rightarrow> shm \<Rightarrow> shm option" where
  "lock_loop os 0 k spin w = None"
| "lock_loop os (Suc fuel) k spin w =
     (let o' = sub os k; w = others o' 0 w in
      if h_mutex (hdr w) = 0 \<and> \<not> os_spurious o' []
      then Some (hdr_update (\<lambda>h. h\<lparr>h_mutex := REQREP_MUTEX_VAL (os_pid os)\<rparr>) w)
      else if spin < REQREP_SPIN_LIMIT then lock_loop os fuel (Suc k) (Suc spin) w
      else
        let w = hdr_update (\<lambda>h. h\<lparr>h_mutex_waiters := h_mutex_waiters h + 1\<rparr>) (others o' 1 w);
            w = others o' 2 w;
            cur = h_mutex (hdr w);
            w = (if cur \<noteq> 0 then others o' 3 w else w);
            rc = (if cur \<noteq> 0 then futex_wait o' (h_mutex (hdr w)) cur else None);
            w = hdr_update (\<lambda>h. h\<lparr>h_mutex_waiters := h_mutex_waiters h - 1\<rparr>) (others o' 4 w)
        in if rc = Some ETIMEDOUT
           then
             let w = others o' 5 w;
                 val = h_mutex (hdr w);
                 w = (if val \<ge> REQREP_MUTEX_WRITER_BIT \<and>
                         \<not> reqrep_pid_alive (sub o' 6) (val AND REQREP_MUTEX_PID_MASK)
                      then reqrep_recover_stale_mutex (sub o' 7) val w else w)
             in lock_loop os fuel (Suc k) 1 w
           else lock_loop os fuel (Suc k) 1 w)"

definition reqrep_mutex_lock :: "os \<Rightarrow> shm \<Rightarrow> shm option" where
  "reqrep_mutex_lock os w = lock_loop os (os_fuel os []) 0 0 w"

definition reqrep_mutex_unlock :: "os \<Rightarrow> shm \<Rightarrow> shm" where
  "reqrep_mutex_unlock os w =
     (let w = hdr_update (\<lambda>h. h\<lparr>h_mutex := 0\<rparr>) (others os 0 w);
          w = others os 1 w
      in if h_mutex_waiters (hdr w) > 0 then kcall (FUTEX_WAKE Fmutex 1) w else w)"

section \<open>Calls that run alone\<close>

lemma lock_alone:
  assumes "quiet os" "h_mutex (hdr w) = 0"
  shows "reqrep_mutex_lock os w =
     Some (hdr_update (\<lambda>h. h\<lparr>h_mutex := REQREP_MUTEX_VAL (os_pid os)\<rparr>) w)"
proof -
  obtain n where "os_fuel os [] = Suc n" using quiet_fuel [OF assms(1)] by blast
  with assms show ?thesis by (simp add: reqrep_mutex_lock_def Let_def)
qed

lemma unlock_alone:
  assumes "quiet os"
  shows "reqrep_mutex_unlock os w =
    (let w = hdr_update (\<lambda>h. h\<lparr>h_mutex := 0\<rparr>) w
     in if h_mutex_waiters (hdr w) > 0 then kcall (FUTEX_WAKE Fmutex 1) w else w)"
  using assms by (simp add: reqrep_mutex_unlock_def)

text \<open>While the mutex is held by another and nobody acts, a round only spins.\<close>

lemma lock_spins:
  assumes "quiet os" "h_mutex (hdr w) \<noteq> 0" "spin + n = REQREP_SPIN_LIMIT"
  shows "lock_loop os (n + fuel) k spin w = lock_loop os fuel (k + n) REQREP_SPIN_LIMIT w"
  using assms(3)
proof (induction n arbitrary: k spin)
  case (Suc n)
  then show ?case using assms(1,2) by (simp add: Let_def)
qed simp

text \<open>The holder is a process the kernel does not know any more.\<close>

definition holder_dead :: "os \<Rightarrow> shm \<Rightarrow> bool" where
  "holder_dead os w \<longleftrightarrow> (\<exists>pid. 0 < pid \<and> unat pid < 2 ^ 31 \<and> h_mutex (hdr w) = REQREP_MUTEX_VAL pid \<and>
     (\<forall>p. os_kill os p pid = Some ESRCH))"

lemma mutex_val_decode:
  "unat pid < 2 ^ 31 \<Longrightarrow> REQREP_MUTEX_VAL pid AND REQREP_MUTEX_PID_MASK = pid"
proof -
  assume "unat pid < 2 ^ 31"
  then have "pid < REQREP_MUTEX_WRITER_BIT" by (simp add: word_less_nat_alt reqrep_consts)
  from pid_masked_id [OF this] show ?thesis by (simp only: mutex_val_pid)
qed

lemma lock_waits_once:
  assumes "quiet os" and "h_mutex (hdr w) \<noteq> 0"
  shows "lock_loop os (Suc fuel) k REQREP_SPIN_LIMIT w =
    lock_loop os fuel (Suc k) 1
      (if os_futex os [k] = Some ETIMEDOUT \<and> h_mutex (hdr w) \<ge> REQREP_MUTEX_WRITER_BIT \<and>
          \<not> reqrep_pid_alive (sub (sub os k) 6) (h_mutex (hdr w) AND REQREP_MUTEX_PID_MASK)
       then reqrep_recover_stale_mutex (sub (sub os k) 7) (h_mutex (hdr w)) w else w)"
proof -
  let ?up = "\<lambda>h. h\<lparr>h_mutex_waiters := h_mutex_waiters h + 1\<rparr>"
  let ?down = "\<lambda>h. h\<lparr>h_mutex_waiters := h_mutex_waiters h - 1\<rparr>"
  have "?down (?up (hdr w)) = hdr w" by (cases "hdr w") simp
  then have same: "hdr_update ?down (hdr_update ?up w) = w" by (cases w) simp
  show ?thesis
    using assms by (simp add: Let_def futex_wait_def same)
qed

text \<open>
  Property C16. A mutex whose holder died does not stay locked: when the waits time out, a locker
  that nobody disturbs spins, waits once, finds the holder dead, frees the mutex, counts the
  recovery and acquires it, within 34 rounds and with the waiter count restored.
\<close>

theorem lock_recovers_dead_holder:
  assumes "quiet os" and "holder_dead os w" and "\<And>p. os_futex os p = Some ETIMEDOUT"
    and "34 \<le> os_fuel os []"
  shows "reqrep_mutex_lock os w = Some (
     let w0 = hdr_update (\<lambda>h. h\<lparr>h_mutex := 0, h_stat_recoveries := h_stat_recoveries h + 1\<rparr>) w;
         w1 = (if h_mutex_waiters (hdr w) > 0 then kcall (FUTEX_WAKE Fmutex 1) w0 else w0)
     in hdr_update (\<lambda>h. h\<lparr>h_mutex := REQREP_MUTEX_VAL (os_pid os)\<rparr>) w1)"
proof -
  obtain pid where pid: "0 < pid" "unat pid < 2 ^ 31" "h_mutex (hdr w) = REQREP_MUTEX_VAL pid"
    "\<And>p. os_kill os p pid = Some ESRCH"
    using assms(2) by (auto simp: holder_dead_def)
  obtain f where f: "os_fuel os [] = 32 + Suc (Suc f)"
    using assms(4) le_Suc_ex [of 34 "os_fuel os []"] by auto
  have ne: "h_mutex (hdr w) \<noteq> 0" using pid(3) by simp
  have "reqrep_mutex_lock os w = lock_loop os (Suc (Suc f)) 32 REQREP_SPIN_LIMIT w"
    using lock_spins [OF assms(1) ne, of 0 32 "Suc (Suc f)" 0] f
    by (simp add: reqrep_mutex_lock_def reqrep_consts)
  also have "\<dots> = lock_loop os (Suc f) 33 1 (reqrep_recover_stale_mutex (sub (sub os 32) 7) (h_mutex (hdr w)) w)"
    using lock_waits_once [OF assms(1) ne, of "Suc f" 32] pid assms(3)
    by (simp add: mutex_val_ge mutex_val_decode reqrep_pid_alive_def word_gt_0)
  finally show ?thesis
    using assms(1) by (simp add: reqrep_recover_stale_mutex_def Let_def)
qed

theorem lock_recovers_dead_holder_witness:
  "\<exists>os w. holder_dead os w \<and> (\<exists>w'. reqrep_mutex_lock os w = Some w' \<and>
     h_mutex (hdr w') = REQREP_MUTEX_VAL (os_pid os))"
proof -
  obtain h w0 where "slots_ok h w0" using demo_slots by metis
  let ?w = "hdr_update (\<lambda>h. h\<lparr>h_mutex := REQREP_MUTEX_VAL 99\<rparr>) w0"
  let ?os = "quiet_os\<lparr>os_kill := \<lambda>_ _. Some ESRCH, os_fuel := \<lambda>_. 40\<rparr>"
  have q: "quiet ?os" by (simp add: quiet_def quiet_os_def)
  have d: "holder_dead ?os ?w"
    unfolding holder_dead_def by (intro exI [of _ 99]) simp
  have t: "\<And>p. os_futex ?os p = Some ETIMEDOUT" by (simp add: quiet_os_def)
  from lock_recovers_dead_holder [OF q d t] d show ?thesis
    by (intro exI [of _ ?os] exI [of _ ?w]) (simp add: Let_def)
qed

text \<open>
  Property C28. A locker never takes the mutex from a live process: while the holder is alive and
  keeps it, a call that nobody else disturbs does not return, however long it waits and whatever
  the waits answer.
\<close>

theorem lock_waits_for_live_holder:
  assumes "quiet os" and "h_mutex (hdr w) = REQREP_MUTEX_VAL pid" and "unat pid < 2 ^ 31"
    and "\<And>p. os_kill os p pid \<noteq> Some ESRCH"
  shows "reqrep_mutex_lock os w = None"
proof -
  have ne: "h_mutex (hdr w) \<noteq> 0" using assms(2) by simp
  have alive: "reqrep_pid_alive o' (h_mutex (hdr w) AND REQREP_MUTEX_PID_MASK)"
    if "\<And>p. os_kill o' p pid \<noteq> Some ESRCH" for o'
    using that by (simp add: assms(2) mutex_val_decode [OF assms(3)] reqrep_pid_alive_def)
  have "lock_loop os fuel k spin w = None" if "spin \<le> REQREP_SPIN_LIMIT" for fuel k spin
    using that
  proof (induction fuel arbitrary: k spin)
    case (Suc fuel)
    show ?case
    proof (cases "spin = REQREP_SPIN_LIMIT")
      case True
      then show ?thesis
        using lock_waits_once [OF assms(1) ne] alive [of "sub (sub os k) 6"] assms(4)
          Suc.IH [of 1] by (simp add: reqrep_consts)
    next
      case False
      then show ?thesis using Suc ne assms(1) by (simp add: Let_def)
    qed
  qed simp
  then show ?thesis by (simp add: reqrep_mutex_lock_def)
qed

theorem lock_waits_for_live_holder_witness:
  "\<exists>w. h_mutex (hdr w) = REQREP_MUTEX_VAL 99 \<and> reqrep_mutex_lock (quiet_os\<lparr>os_fuel := \<lambda>_. 1000\<rparr>) w = None"
proof -
  obtain h w0 where "slots_ok h w0" using demo_slots by metis
  let ?w = "hdr_update (\<lambda>h. h\<lparr>h_mutex := REQREP_MUTEX_VAL 99\<rparr>) w0"
  let ?os = "quiet_os\<lparr>os_fuel := \<lambda>_. 1000\<rparr>"
  have q: "quiet ?os" by (simp add: quiet_def quiet_os_def)
  have "\<And>p. os_kill ?os p 99 \<noteq> Some ESRCH" by (simp add: quiet_os_def)
  from lock_waits_for_live_holder [OF q _ _ this, of ?w] show ?thesis
    by (intro exI [of _ ?w]) simp
qed

section \<open>Interleaved processes\<close>

text \<open>
  The processes that use one mutex, each at a point of \<^verbatim>\<open>reqrep_mutex_lock\<close>,
  \<^verbatim>\<open>reqrep_recover_stale_mutex\<close> or \<^verbatim>\<open>reqrep_mutex_unlock\<close>: about to try the compare-and-exchange
  of line 234, having timed out with the value of line 250, having found its holder dead (line
  253), or inside the critical section. Threads of one process share its pid. A process may die
  anywhere; its pid is not given to another process. A thread may always go back and try again:
  \<^verbatim>\<open>kill\<close> still succeeds for a while after a death.
\<close>

datatype lock_pc = PIdle | PTry | PVal u32 | PDead_holder u32 | PCrit

record lock_sys =
  ls_mutex :: u32
  ls_dead :: "u32 set"
  ls_pc :: "nat \<Rightarrow> lock_pc"

inductive lock_step :: "(nat \<Rightarrow> u32) \<Rightarrow> lock_sys \<Rightarrow> lock_sys \<Rightarrow> bool" for pid_of where
  enter: "pid_of t \<notin> ls_dead s \<Longrightarrow> ls_pc s t = PIdle \<Longrightarrow>
    lock_step pid_of s (s\<lparr>ls_pc := (ls_pc s)(t := PTry)\<rparr>)"
| acquire: "pid_of t \<notin> ls_dead s \<Longrightarrow> ls_pc s t = PTry \<Longrightarrow> ls_mutex s = 0 \<Longrightarrow>
    lock_step pid_of s (s\<lparr>ls_mutex := REQREP_MUTEX_VAL (pid_of t), ls_pc := (ls_pc s)(t := PCrit)\<rparr>)"
| timeout: "pid_of t \<notin> ls_dead s \<Longrightarrow> ls_pc s t = PTry \<Longrightarrow>
    lock_step pid_of s (s\<lparr>ls_pc := (ls_pc s)(t := PVal (ls_mutex s))\<rparr>)"
| retry: "pid_of t \<notin> ls_dead s \<Longrightarrow> ls_pc s t = PVal v \<Longrightarrow>
    lock_step pid_of s (s\<lparr>ls_pc := (ls_pc s)(t := PTry)\<rparr>)"
| found_dead: "pid_of t \<notin> ls_dead s \<Longrightarrow> ls_pc s t = PVal v \<Longrightarrow> v \<ge> REQREP_MUTEX_WRITER_BIT \<Longrightarrow>
    v AND REQREP_MUTEX_PID_MASK \<in> ls_dead s \<Longrightarrow>
    lock_step pid_of s (s\<lparr>ls_pc := (ls_pc s)(t := PDead_holder v)\<rparr>)"
| recover: "pid_of t \<notin> ls_dead s \<Longrightarrow> ls_pc s t = PDead_holder v \<Longrightarrow>
    lock_step pid_of s (s\<lparr>ls_mutex := (if ls_mutex s = v then 0 else ls_mutex s),
                          ls_pc := (ls_pc s)(t := PTry)\<rparr>)"
| unlock: "pid_of t \<notin> ls_dead s \<Longrightarrow> ls_pc s t = PCrit \<Longrightarrow>
    lock_step pid_of s (s\<lparr>ls_mutex := 0, ls_pc := (ls_pc s)(t := PIdle)\<rparr>)"
| die: "lock_step pid_of s (s\<lparr>ls_dead := insert p (ls_dead s)\<rparr>)"

definition lock_init :: "lock_sys \<Rightarrow> bool" where
  "lock_init s \<longleftrightarrow> ls_mutex s = 0 \<and> ls_dead s = {} \<and> (\<forall>t. ls_pc s t = PIdle)"

text \<open>A live thread in the critical section owns the mutex word, and no other live thread is
  inside; a value remembered as a dead holder's names a dead process.\<close>

definition lock_inv :: "(nat \<Rightarrow> u32) \<Rightarrow> lock_sys \<Rightarrow> bool" where
  "lock_inv pid_of s \<longleftrightarrow>
     (\<forall>t. ls_pc s t = PCrit \<and> pid_of t \<notin> ls_dead s \<longrightarrow>
        ls_mutex s = REQREP_MUTEX_VAL (pid_of t) \<and>
        (\<forall>t'. ls_pc s t' = PCrit \<and> pid_of t' \<notin> ls_dead s \<longrightarrow> t' = t)) \<and>
     (\<forall>t v. ls_pc s t = PDead_holder v \<longrightarrow> v AND REQREP_MUTEX_PID_MASK \<in> ls_dead s)"

definition lock_pids :: "(nat \<Rightarrow> u32) \<Rightarrow> bool" where
  "lock_pids pid_of \<longleftrightarrow> (\<forall>t. unat (pid_of t) < 2 ^ 31)"

lemma lock_inv_step:
  assumes "lock_pids pid_of" "lock_inv pid_of s" "lock_step pid_of s s'"
  shows "lock_inv pid_of s'"
proof -
  have dec: "REQREP_MUTEX_VAL (pid_of t) AND REQREP_MUTEX_PID_MASK = pid_of t" for t
    using assms(1) mutex_val_decode by (simp add: lock_pids_def)
  from assms(3) show ?thesis
  proof cases
    case (recover t v)
    then have "v AND REQREP_MUTEX_PID_MASK \<in> ls_dead s" using assms(2) by (auto simp: lock_inv_def)
    then have "ls_mutex s \<noteq> v" if "ls_pc s t' = PCrit" "pid_of t' \<notin> ls_dead s" for t'
      using that assms(2) dec [of t'] by (auto simp: lock_inv_def)
    then have "\<not> (ls_pc s t' = PCrit \<and> pid_of t' \<notin> ls_dead s)" if "ls_mutex s = v" for t'
      using that by blast
    with recover assms(2) show ?thesis
      by (cases "ls_mutex s = v") (auto simp: lock_inv_def)
  qed (use assms(2) in \<open>auto simp: lock_inv_def\<close>)
qed

interpretation mutex: invariant_system lock_init "lock_step pid_of"
    "\<lambda>s. lock_pids pid_of \<longrightarrow> lock_inv pid_of s"
proof
  show "lock_init s \<Longrightarrow> lock_pids pid_of \<longrightarrow> lock_inv pid_of s" for s
    by (auto simp: lock_init_def lock_inv_def)
  show "lock_pids pid_of \<longrightarrow> lock_inv pid_of s \<Longrightarrow> lock_step pid_of s t \<Longrightarrow>
      lock_pids pid_of \<longrightarrow> lock_inv pid_of t" for s t
    using lock_inv_step by blast
qed

text \<open>
  Property C2. Mutual exclusion, for any number of processes and threads, any interleaving of
  their atomic accesses and deaths at any point, the recovery of dead holders included: two live
  threads are never in the critical section together, and the one inside is the one whose pid
  is in the mutex word.
\<close>

theorem mutual_exclusion:
  assumes "lock_pids pid_of" and "reach lock_init (lock_step pid_of) s"
    and "ls_pc s t = PCrit" "pid_of t \<notin> ls_dead s"
  shows "ls_mutex s = REQREP_MUTEX_VAL (pid_of t) \<and>
         (\<forall>t'. ls_pc s t' = PCrit \<and> pid_of t' \<notin> ls_dead s \<longrightarrow> t' = t)"
  using mutex.reach_inv [OF assms(2)] assms(1,3,4) unfolding lock_inv_def by blast

theorem mutual_exclusion_witness:
  "\<exists>s. reach lock_init (lock_step (\<lambda>t. if t = 0 then 5 else 6)) s \<and> ls_pc s 1 = PCrit \<and>
     5 \<in> ls_dead s \<and> ls_mutex s = REQREP_MUTEX_VAL 6 \<and>
     (\<forall>t'. ls_pc s t' = PCrit \<and> (if t' = 0 then 5 else 6) \<notin> ls_dead s \<longrightarrow> t' = 1)"
proof -
  let ?p = "\<lambda>t :: nat. if t = 0 then 5 else 6 :: u32"
  let ?R = "reach lock_init (lock_step ?p)"
  let ?st = "\<lambda>m d a b. \<lparr>ls_mutex = m, ls_dead = d, ls_pc = (\<lambda>_. PIdle)(0 := a, Suc 0 := b)\<rparr>"
  let ?v = "REQREP_MUTEX_VAL 5"
  have dec: "?v AND REQREP_MUTEX_PID_MASK = 5" by (rule mutex_val_decode) simp
  have "lock_init (?st 0 {} PIdle PIdle)" by (simp add: lock_init_def)
  then have "?R (?st 0 {} PIdle PIdle)" by (rule reach_init)
  then have "?R (?st 0 {} PTry PIdle)"
    by (rule reach_step) (use lock_step.enter [of ?p 0 "?st 0 {} PIdle PIdle"] in \<open>simp add: fun_upd_twist\<close>)
  then have "?R (?st ?v {} PCrit PIdle)"
    by (rule reach_step) (use lock_step.acquire [of ?p 0 "?st 0 {} PTry PIdle"] in \<open>simp add: fun_upd_twist\<close>)
  then have "?R (?st ?v {5} PCrit PIdle)"
    by (rule reach_step) (use lock_step.die [of ?p "?st ?v {} PCrit PIdle" 5] in \<open>simp\<close>)
  then have "?R (?st ?v {5} PCrit PTry)"
    by (rule reach_step) (use lock_step.enter [of ?p 1 "?st ?v {5} PCrit PIdle"] in \<open>simp\<close>)
  then have "?R (?st ?v {5} PCrit (PVal ?v))"
    by (rule reach_step) (use lock_step.timeout [of ?p 1 "?st ?v {5} PCrit PTry"] in \<open>simp\<close>)
  then have "?R (?st ?v {5} PCrit (PDead_holder ?v))"
    by (rule reach_step) (use lock_step.found_dead [of ?p 1 "?st ?v {5} PCrit (PVal ?v)" ?v] dec in \<open>simp add: mutex_val_ge\<close>)
  then have "?R (?st 0 {5} PCrit PTry)"
    by (rule reach_step) (use lock_step.recover [of ?p 1 "?st ?v {5} PCrit (PDead_holder ?v)" ?v] in \<open>simp\<close>)
  then have "?R (?st (REQREP_MUTEX_VAL 6) {5} PCrit PCrit)"
    by (rule reach_step) (use lock_step.acquire [of ?p 1 "?st 0 {5} PCrit PTry"] in \<open>simp\<close>)
  note r = this
  let ?s = "?st (REQREP_MUTEX_VAL 6) {5} PCrit PCrit"
  have p: "lock_pids ?p" by (simp add: lock_pids_def)
  have c: "ls_pc ?s 1 = PCrit" "?p 1 \<notin> ls_dead ?s" by simp_all
  note m = mutual_exclusion [OF p r c]
  show ?thesis
  proof (intro exI conjI)
    show "?R ?s" "ls_pc ?s 1 = PCrit" by (fact r, fact c)
    show "5 \<in> ls_dead ?s" "ls_mutex ?s = REQREP_MUTEX_VAL 6" by simp_all
    show "\<forall>t'. ls_pc ?s t' = PCrit \<and> ?p t' \<notin> ls_dead ?s \<longrightarrow> t' = 1" using m by (rule conjunct2)
  qed
qed

end
