(* ===== verification/RR_Transport.thy ===== *)
theory RR_Transport
  imports RR_Mutex
begin

text \<open>
  The operations of string mode that applications call (\<^verbatim>\<open>gen/reqrep.h\<close>, lines 774 to 832, 872
  to 917, 982 to 1029, 1053 to 1084 and 1111 to 1141): sending and receiving, each immediately
  or with a wait, fetching with a wait, the combined request, and clearing. They compose the
  mutex, the request queue and the response slots as the code does.

  Between \<^verbatim>\<open>reqrep_mutex_lock\<close> and \<^verbatim>\<open>reqrep_mutex_unlock\<close> no other process touches the queue
  (\<^verbatim>\<open>RR_Mutex\<close>), and the queue functions touch nothing else but two counters, so the locked part
  is one step. A waiting loop that goes on for ever has the value \<^term>\<open>None\<close>, and the fuel of the
  environment bounds the rounds that are followed.
\<close>

section \<open>Immediate operations\<close>

definition reqrep_try_send ::
  "os \<Rightarrow> ReqRepHandle \<Rightarrow> bytes \<Rightarrow> u32 \<Rightarrow> bool \<Rightarrow> shm \<Rightarrow>
   (int \<times> u64 option \<times> ReqRepHandle \<times> shm) option" where
  "reqrep_try_send os h str len utf8 w = do {
     (slot, w) \<leftarrow> reqrep_slot_acquire (sub os 0) h w;
     if slot < 0 then Some (-3, None, h, w)
     else do {
       let idx = (of_int slot :: u32);
       let w = others os 1 w;
       s \<leftarrow> reqrep_resp_slot w idx;
       let gen = rs_generation s;
       w \<leftarrow> reqrep_mutex_lock (sub os 2) w;
       (r, w) \<leftarrow> reqrep_send_locked h str len utf8 idx gen w;
       let w = reqrep_mutex_unlock (sub os 3) w;
       if r = 1 then Some (1, Some (REQREP_MAKE_ID idx gen), h, reqrep_wake_consumers (others os 4 w))
       else do {
         w \<leftarrow> reqrep_slot_release (sub os 5) idx w;
         Some (r, None, h, w) } } }"

definition reqrep_try_recv ::
  "os \<Rightarrow> ReqRepHandle \<Rightarrow> shm \<Rightarrow> (int \<times> recv_out option \<times> ReqRepHandle \<times> shm) option" where
  "reqrep_try_recv os h w = do {
     w \<leftarrow> reqrep_mutex_lock (sub os 0) w;
     (r, out, h, w) \<leftarrow> reqrep_recv_locked (sub os 1) h w;
     let w = reqrep_mutex_unlock (sub os 2) w;
     if r = 1 then Some (r, out, h, reqrep_wake_producers (others os 3 w))
     else Some (r, out, h, w) }"

section \<open>Waiting\<close>

text \<open>The three pairs of a futex word and a waiter count in the header.\<close>

datatype wait_on = Wslot | Wsend | Wrecv

fun futex_value :: "wait_on \<Rightarrow> shm \<Rightarrow> u32" where
  "futex_value Wslot w = h_slot_futex (hdr w)"
| "futex_value Wsend w = h_send_futex (hdr w)"
| "futex_value Wrecv w = h_recv_futex (hdr w)"

fun waiters_of :: "wait_on \<Rightarrow> shm \<Rightarrow> u32" where
  "waiters_of Wslot w = h_slot_waiters (hdr w)"
| "waiters_of Wsend w = h_send_waiters (hdr w)"
| "waiters_of Wrecv w = h_recv_waiters (hdr w)"

fun add_waiters :: "wait_on \<Rightarrow> u32 \<Rightarrow> shm \<Rightarrow> shm" where
  "add_waiters Wslot n w = hdr_update (\<lambda>h. h\<lparr>h_slot_waiters := h_slot_waiters h + n\<rparr>) w"
| "add_waiters Wsend n w = hdr_update (\<lambda>h. h\<lparr>h_send_waiters := h_send_waiters h + n\<rparr>) w"
| "add_waiters Wrecv n w = hdr_update (\<lambda>h. h\<lparr>h_recv_waiters := h_recv_waiters h + n\<rparr>) w"

text \<open>A deadline is taken only for a positive timeout; a negative one waits without limit.\<close>

definition make_deadline_opt :: "timespec \<Rightarrow> real \<Rightarrow> timespec option" where
  "make_deadline_opt now timeout =
     (if timeout > 0 then Some (reqrep_make_deadline now timeout) else None)"

definition expired :: "timespec \<Rightarrow> timespec option \<Rightarrow> bool" where
  "expired now deadline =
     (case deadline of None \<Rightarrow> False | Some d \<Rightarrow> \<not> fst (reqrep_remaining_time now d))"

text \<open>The loops look at \<^verbatim>\<open>errno\<close> only after another attempt has run: what they see is the error of
  the last failing system call of that attempt, if there was one, and else that of the wait.\<close>

definition errno_after :: "errno option \<Rightarrow> errno option \<Rightarrow> errno option" where
  "errno_after rc later = (case later of None \<Rightarrow> rc | Some e \<Rightarrow> Some e)"

text \<open>The loop the four waiting functions share (lines 809 to 831, 895 to 916, 1393 to 1416 and
  1454 to 1470): read the futex word, try, register as a waiter, give up at the deadline, wait
  unless the word has changed, deregister, try again. \<open>sel\<close> chooses the word from the last
  answer, \<open>stop\<close> says which answers end the call.\<close>

type_synonym 'o attempt =
  "os \<Rightarrow> ReqRepHandle \<Rightarrow> shm \<Rightarrow> (int \<times> 'o option \<times> ReqRepHandle \<times> shm) option"

fun wait_loop ::
  "'o attempt \<Rightarrow> (int \<Rightarrow> bool) \<Rightarrow> (int \<Rightarrow> wait_on) \<Rightarrow> os \<Rightarrow> nat \<Rightarrow> nat \<Rightarrow> timespec option \<Rightarrow> int \<Rightarrow>
   ReqRepHandle \<Rightarrow> shm \<Rightarrow> (int \<times> 'o option \<times> ReqRepHandle \<times> shm) option" where
  "wait_loop attempt stop sel os 0 k deadline r h w = None"
| "wait_loop attempt stop sel os (Suc fuel) k deadline r h w = do {
     let o' = sub os k;
     let wt = sel r;
     let w = others o' 0 w;
     let fseq = futex_value wt w;
     (r, out, h, w) \<leftarrow> attempt (sub o' 1) h w;
     if stop r then Some (r, out, h, w)
     else do {
       let w = add_waiters wt 1 (others o' 2 w);
       if expired (os_clock o' [3]) deadline
       then Some (r, out, h, add_waiters wt (-1) (others o' 4 w))
       else do {
         let w = others o' 5 w;
         let rc = (if futex_value wt w \<noteq> fseq then Some EAGAIN else os_futex o' [6]);
         let w = add_waiters wt (-1) (others o' 7 w);
         (r, out, h, w) \<leftarrow> attempt (sub o' 8) h w;
         if stop r then Some (r, out, h, w)
         else if rc \<noteq> None \<and> errno_after rc (os_futex o' [9]) = Some ETIMEDOUT
         then Some (r, out, h, w)
         else wait_loop attempt stop sel os fuel (Suc k) deadline r h w } } }"

text \<open>The common frame of the four functions: a first attempt, no waiting for a zero timeout.\<close>

definition waiting ::
  "'o attempt \<Rightarrow> (int \<Rightarrow> bool) \<Rightarrow> (int \<Rightarrow> wait_on) \<Rightarrow> os \<Rightarrow> real \<Rightarrow> ReqRepHandle \<Rightarrow> shm \<Rightarrow>
   (int \<times> 'o option \<times> ReqRepHandle \<times> shm) option" where
  "waiting attempt stop sel os timeout h w = do {
     (r, out, h, w) \<leftarrow> attempt (sub os 0) h w;
     if stop r then Some (r, out, h, w)
     else if timeout = 0 then Some (r, out, h, w)
     else wait_loop attempt stop sel (sub os 2) (os_fuel os []) 0
            (make_deadline_opt (os_clock os [1]) timeout) r h w }"

definition reqrep_send_wait :: "bytes \<Rightarrow> u32 \<Rightarrow> bool \<Rightarrow> real \<Rightarrow> u64 attempt" where
  "reqrep_send_wait str len utf8 timeout os h w =
     waiting (\<lambda>os h. reqrep_try_send os h str len utf8) (\<lambda>r. r = 1 \<or> r = -2)
       (\<lambda>r. if r = -3 then Wslot else Wsend) os timeout h w"

definition reqrep_recv_wait :: "real \<Rightarrow> recv_out attempt" where
  "reqrep_recv_wait timeout os h w =
     waiting reqrep_try_recv (\<lambda>r. r \<noteq> 0) (\<lambda>_. Wrecv) os timeout h w"

section \<open>Fetching with a wait\<close>

text \<open>The loop of \<^verbatim>\<open>reqrep_get_wait\<close> (lines 995 to 1028), which waits on the state of the slot
  itself; integer mode has the same loop around its own fetch (lines 1523 to 1549).\<close>

definition slot_waiters :: "u64 \<Rightarrow> u32 \<Rightarrow> shm \<Rightarrow> shm option" where
  "slot_waiters id' n w =
     upd_resp (REQREP_ID_SLOT id') (\<lambda>x. x\<lparr>rs_waiters := rs_waiters x + n\<rparr>) w"

fun get_loop ::
  "'o attempt \<Rightarrow> u64 \<Rightarrow> os \<Rightarrow> nat \<Rightarrow> nat \<Rightarrow> timespec option \<Rightarrow>
   ReqRepHandle \<Rightarrow> shm \<Rightarrow> (int \<times> 'o option \<times> ReqRepHandle \<times> shm) option" where
  "get_loop fetch id' os 0 k deadline h w = None"
| "get_loop fetch id' os (Suc fuel) k deadline h w = do {
     let o' = sub os k;
     let idx = REQREP_ID_SLOT id';
     let w = others o' 0 w;
     x \<leftarrow> reqrep_resp_slot w idx;
     if rs_state x = RESP_READY then fetch (sub o' 1) h w
     else do {
       w \<leftarrow> slot_waiters id' 1 (others o' 2 w);
       let w = others o' 3 w;
       x \<leftarrow> reqrep_resp_slot w idx;
       if rs_generation x \<noteq> REQREP_ID_GEN id' then do {
         w \<leftarrow> slot_waiters id' (-1) (others o' 4 w);
         Some (-4, None, h, w) }
       else do {
         let w = others o' 5 w;
         x \<leftarrow> reqrep_resp_slot w idx;
         if rs_state x = RESP_READY then do {
           w \<leftarrow> slot_waiters id' (-1) (others o' 6 w);
           fetch (sub o' 7) h w }
         else if expired (os_clock o' [8]) deadline then do {
           w \<leftarrow> slot_waiters id' (-1) (others o' 9 w);
           Some (0, None, h, w) }
         else do {
           w \<leftarrow> slot_waiters id' (-1) (others o' 11 (others o' 10 w));
           (r, out, h, w) \<leftarrow> fetch (sub o' 12) h w;
           if r \<noteq> 0 then Some (r, out, h, w)
           else get_loop fetch id' os fuel (Suc k) deadline h w } } } }"

definition getting :: "'o attempt \<Rightarrow> u64 \<Rightarrow> real \<Rightarrow> 'o attempt" where
  "getting fetch id' timeout os h w = do {
     (r, out, h, w) \<leftarrow> fetch (sub os 0) h w;
     if r \<noteq> 0 then Some (r, out, h, w)
     else if timeout = 0 then Some (0, out, h, w)
     else get_loop fetch id' (sub os 2) (os_fuel os [])
            0 (make_deadline_opt (os_clock os [1]) timeout) h w }"

definition reqrep_get_wait :: "u64 \<Rightarrow> real \<Rightarrow> get_out attempt" where
  "reqrep_get_wait id' timeout = getting (\<lambda>os h. reqrep_try_get os h id') id' timeout"

section \<open>The combined request\<close>

text \<open>The body \<^verbatim>\<open>reqrep_request\<close> and \<^verbatim>\<open>reqrep_int_request\<close> share (lines 1056 to 1084 and 1554 to
  1575): send, compute what is left of the deadline, fetch, and on failure cancel and drain.\<close>

definition time_left :: "timespec \<Rightarrow> timespec option \<Rightarrow> real \<Rightarrow> real" where
  "time_left now deadline timeout = (case deadline of None \<Rightarrow> timeout
     | Some d \<Rightarrow> rnd64 (rnd64 (real_of_int (tv_sec d - tv_sec now)) +
                        rnd64 (rnd64 (real_of_int (tv_nsec d - tv_nsec now)) / 1000000000)))"

definition requesting ::
  "u64 attempt \<Rightarrow> (u64 \<Rightarrow> real \<Rightarrow> 'o attempt) \<Rightarrow> (u64 \<Rightarrow> 'o attempt) \<Rightarrow> real \<Rightarrow> 'o attempt" where
  "requesting send get_wait try_get timeout os h w = do {
     let deadline = make_deadline_opt (os_clock os [0]) timeout;
     (r, oid, h, w) \<leftarrow> send (sub os 1) h w;
     if r \<noteq> 1 then Some (r, None, h, w)
     else do {
         id' \<leftarrow> oid;
         let get_timeout = time_left (os_clock os [2]) deadline timeout;
         if deadline \<noteq> None \<and> get_timeout \<le> 0 then do {
           w \<leftarrow> reqrep_cancel (sub os 3) h id' w;
           Some (0, None, h, w) }
         else do {
           (r, out, h, w) \<leftarrow> get_wait id' get_timeout (sub os 4) h w;
           if r \<noteq> 1 then do {
             w \<leftarrow> reqrep_cancel (sub os 5) h id' w;
             (_, _, h, w) \<leftarrow> try_get id' (sub os 6) h w;
             Some (r, None, h, w) }
           else Some (r, out, h, w) } } }"

definition reqrep_request :: "bytes \<Rightarrow> u32 \<Rightarrow> bool \<Rightarrow> real \<Rightarrow> get_out attempt" where
  "reqrep_request req_str req_len req_utf8 timeout =
     requesting (reqrep_send_wait req_str req_len req_utf8 timeout) reqrep_get_wait
       (\<lambda>id' os h. reqrep_try_get os h id') timeout"

section \<open>Clearing\<close>

text \<open>The retry loop around the compare-and-exchange (lines 1125 to 1135); \<open>state\<close> is the value
  the code compares with, updated by a failure.\<close>

fun clear_slot_loop :: "os \<Rightarrow> u32 \<Rightarrow> nat \<Rightarrow> nat \<Rightarrow> u32 \<Rightarrow> shm \<Rightarrow> shm option" where
  "clear_slot_loop os idx 0 k state w = None"
| "clear_slot_loop os idx (Suc fuel) k state w =
     (if state = RESP_ACQUIRED \<or> state = RESP_READY then do {
        let o' = sub os k;
        let w = others o' 0 w;
        x \<leftarrow> reqrep_resp_slot w idx;
        if rs_state x = state then do {
          let w = set_resp_slot idx (x\<lparr>rs_state := RESP_FREE\<rparr>) w;
          w \<leftarrow> upd_resp idx (\<lambda>s. s\<lparr>rs_owner_pid := 0\<rparr>) (others o' 1 w);
          w \<leftarrow> upd_resp idx (\<lambda>s. s\<lparr>rs_generation := rs_generation s + 1\<rparr>) (others o' 2 w);
          let w = others o' 3 w;
          x \<leftarrow> reqrep_resp_slot w idx;
          Some (if rs_waiters x > 0 then kcall (FUTEX_WAKE (Fresp idx) INT_MAX) w else w) }
        else clear_slot_loop os idx fuel (Suc k) (rs_state x) w }
      else Some w)"

fun clear_slots :: "os \<Rightarrow> nat list \<Rightarrow> shm \<Rightarrow> shm option" where
  "clear_slots os [] w = Some w"
| "clear_slots os (i # rest) w = do {
     let o' = sub os i;
     let w = others o' 0 w;
     x \<leftarrow> reqrep_resp_slot w (of_nat i);
     w \<leftarrow> clear_slot_loop (sub o' 1) (of_nat i) (os_fuel o' []) 0 (rs_state x) w;
     clear_slots os rest w }"

text \<open>Lines 1122 to 1141 (and 1596 to 1615 of integer mode): free every slot, wake everybody.\<close>

definition clear_responses :: "os \<Rightarrow> ReqRepHandle \<Rightarrow> shm \<Rightarrow> shm option" where
  "clear_responses os h w = do {
     w \<leftarrow> clear_slots (sub os 0) [0..<unat (hn_resp_slots h)] w;
     let w = reqrep_wake_slot_waiters (others os 1 w);
     let w = reqrep_wake_producers (others os 2 w);
     Some (reqrep_wake_consumers (others os 3 w)) }"

definition reqrep_clear :: "os \<Rightarrow> ReqRepHandle \<Rightarrow> shm \<Rightarrow> shm option" where
  "reqrep_clear os h w = do {
     w \<leftarrow> reqrep_mutex_lock (sub os 0) w;
     let w = hdr_update (\<lambda>x. x\<lparr>h_req_head := 0, h_req_tail := 0, h_arena_wpos := 0,
                               h_arena_used := 0\<rparr>) w;
     clear_responses (sub os 2) h (reqrep_mutex_unlock (sub os 1) w) }"

section \<open>The contract of a waiting call\<close>

text \<open>What an attempt must satisfy for the waiting loop around it to be in order: it returns,
  keeps an invariant that does not depend on the waiter counts, and keeps these counts.\<close>

lemma waiters_of_add [simp]:
  "waiters_of wt (add_waiters wt' n w) = waiters_of wt w + (if wt = wt' then n else 0)"
  by (cases wt; cases wt') simp_all

locale waiting_call =
  fixes attempt :: "'o attempt" and stop :: "int \<Rightarrow> bool" and sel :: "int \<Rightarrow> wait_on"
    and inv :: "ReqRepHandle \<Rightarrow> shm \<Rightarrow> bool"
  assumes attempt_returns: "quiet os \<Longrightarrow> inv h w \<Longrightarrow> returns (attempt os h w)
      (\<lambda>(r, out, h', w'). inv h' w' \<and> (\<forall>wt. waiters_of wt w' = waiters_of wt w))"
    and inv_waiters: "inv h w \<Longrightarrow> inv h (add_waiters wt n w)"
begin

text \<open>Alone, with waits that time out, the call returns after at most three attempts; the
  invariant holds and no waiter is left registered.\<close>

lemma waiting_returns:
  assumes "quiet os" and "\<And>p. os_futex os p = Some ETIMEDOUT" and "inv h w"
  shows "returns (waiting attempt stop sel os timeout h w)
     (\<lambda>(r, out, h', w'). inv h' w' \<and> (\<forall>wt. waiters_of wt w' = waiters_of wt w))"
proof -
  let ?post = "\<lambda>w0 (r, out, h', w'). inv h' w' \<and> (\<forall>wt. waiters_of wt w' = waiters_of wt w0)"
  obtain f where f: "os_fuel os [] = Suc f" using quiet_fuel [OF assms(1)] by blast
  have att: "returns (attempt (sub os' k) h w) (?post w)" if "quiet os'" "inv h w" for os' k h w
    using that by (intro attempt_returns) simp_all
  have loop: "returns (wait_loop attempt stop sel (sub os 2) (Suc f) 0 dl r h1 w1) (?post w1)"
    if inv1: "inv h1 w1" for dl r h1 w1
  proof -
    have q: "quiet (sub (sub os 2) 0)" using assms(1) by simp
    obtain r2 out2 h2 w2 where a2: "attempt (sub (sub (sub os 2) 0) 1) h1 w1 = Some (r2, out2, h2, w2)"
      "inv h2 w2" "\<forall>wt. waiters_of wt w2 = waiters_of wt w1"
      using att [OF q inv1, of 1] by (auto elim!: returnsE)
    let ?w3 = "add_waiters (sel r) (-1) (add_waiters (sel r) 1 w2)"
    have w3: "inv h2 ?w3" "\<forall>wt. waiters_of wt ?w3 = waiters_of wt w1"
      using a2 inv_waiters by simp_all
    obtain r4 out4 h4 w4 where a4: "attempt (sub (sub (sub os 2) 0) 8) h2 ?w3 = Some (r4, out4, h4, w4)"
      "inv h4 w4" "\<forall>wt. waiters_of wt w4 = waiters_of wt w1"
      using att [OF q w3(1), of 8] w3(2) by (auto elim!: returnsE)
    show ?thesis
      using assms(1,2) a2 a4 w3 by (simp add: Let_def errno_after_def)
  qed
  show ?thesis
    unfolding waiting_def f
    by (rule returns_bind [OF att [OF assms(1,3)]])
      (auto intro!: returns_if returns_mono [OF loop])
qed

end

section \<open>Calls that run alone\<close>

text \<open>What the operations on the mutex, the slots and the waiters leave of the queue.\<close>

lemma queue_frames [simp]:
  "queue_ok h (kcall c w) = queue_ok h w" "queue_abs h (kcall c w) = queue_abs h w"
  "queue_ok h (set_resp_slot i s w) = queue_ok h w"
  "queue_abs h (set_resp_slot i s w) = queue_abs h w"
  "queue_ok h (take_slot p i w) = queue_ok h w" "queue_abs h (take_slot p i w) = queue_abs h w"
  "queue_ok h (hdr_update (\<lambda>x. x\<lparr>h_mutex := v\<rparr>) w) = queue_ok h w"
  "queue_abs h (hdr_update (\<lambda>x. x\<lparr>h_mutex := v\<rparr>) w) = queue_abs h w"
  "queue_ok h (hdr_update (\<lambda>x. x\<lparr>h_resp_hint := v\<rparr>) w) = queue_ok h w"
  "queue_abs h (hdr_update (\<lambda>x. x\<lparr>h_resp_hint := v\<rparr>) w) = queue_abs h w"
  "queue_ok h (hdr_update (\<lambda>x. x\<lparr>h_stat_recoveries := h_stat_recoveries x + 1\<rparr>) w) = queue_ok h w"
  "queue_abs h (hdr_update (\<lambda>x. x\<lparr>h_stat_recoveries := h_stat_recoveries x + 1\<rparr>) w) = queue_abs h w"
  "queue_ok h (hdr_update (\<lambda>x. x\<lparr>h_stat_recv_empty := h_stat_recv_empty x + 1\<rparr>) w) = queue_ok h w"
  "queue_abs h (hdr_update (\<lambda>x. x\<lparr>h_stat_recv_empty := h_stat_recv_empty x + 1\<rparr>) w) = queue_abs h w"
  "queue_ok h (hdr_update (\<lambda>x. x\<lparr>h_stat_replies := h_stat_replies x + 1\<rparr>) w) = queue_ok h w"
  "queue_abs h (hdr_update (\<lambda>x. x\<lparr>h_stat_replies := h_stat_replies x + 1\<rparr>) w) = queue_abs h w"
  by (rule queue_frame; simp)+

lemma queue_wakes [simp]:
  "queue_ok h (reqrep_wake_consumers w) = queue_ok h w"
  "queue_abs h (reqrep_wake_consumers w) = queue_abs h w"
  "queue_ok h (reqrep_wake_producers w) = queue_ok h w"
  "queue_abs h (reqrep_wake_producers w) = queue_abs h w"
  "queue_ok h (reqrep_wake_slot_waiters w) = queue_ok h w"
  "queue_abs h (reqrep_wake_slot_waiters w) = queue_abs h w"
  "queue_ok h (add_waiters wt n w) = queue_ok h w" "queue_abs h (add_waiters wt n w) = queue_abs h w"
  "queue_ok h (released i w) = queue_ok h w" "queue_abs h (released i w) = queue_abs h w"
  "queue_ok h (wake_slot i m w) = queue_ok h w" "queue_abs h (wake_slot i m w) = queue_abs h w"
  "queue_ok h (replied i str len utf8 w) = queue_ok h w"
  "queue_abs h (replied i str len utf8 w) = queue_abs h w"
  by (rule queue_frame; cases wt; simp add: wake_defs released_def wake_slot_def replied_def)+

text \<open>A mapping between two calls: queue and slots in order, the mutex free.\<close>

definition str_ok :: "ReqRepHandle \<Rightarrow> shm \<Rightarrow> bool" where
  "str_ok h w \<longleftrightarrow> queue_ok h w \<and> slots_ok h w \<and> h_mutex (hdr w) = 0 \<and>
     unat (hn_resp_slots h) \<le> 2 ^ 31 \<and> h_resp_hint (hdr w) < hn_resp_slots h"


definition acquired :: "ReqRepHandle \<Rightarrow> u32 \<Rightarrow> u32 \<Rightarrow> shm \<Rightarrow> shm \<Rightarrow> bool" where
  "acquired h pid idx w w1 \<longleftrightarrow> resp_area w1 = resp_area (take_slot pid idx w) \<and>
     req_slots w1 = req_slots w \<and> int_slots w1 = int_slots w \<and> req_arena w1 = req_arena w \<and>
     kcalls w1 = kcalls w \<and>
     (\<exists>a b. hdr w1 = (hdr w)\<lparr>h_resp_hint := a, h_stat_recoveries := b\<rparr> \<and>
        (h_resp_hint (hdr w) < hn_resp_slots h \<longrightarrow> a < hn_resp_slots h))"

lemma acquired_keeps:
  assumes "acquired h pid idx w w1"
  shows "queue_ok h w1 = queue_ok h w" "queue_abs h w1 = queue_abs h w"
    "h_mutex (hdr w1) = h_mutex (hdr w)"
    "h_resp_hint (hdr w) < hn_resp_slots h \<Longrightarrow> h_resp_hint (hdr w1) < hn_resp_slots h"
    "h_recv_waiters (hdr w1) = h_recv_waiters (hdr w)" "h_recv_futex (hdr w1) = h_recv_futex (hdr w)"
    "h_mutex_waiters (hdr w1) = h_mutex_waiters (hdr w)" "waiters_of wt w1 = waiters_of wt w"
    "slots_ok h w \<Longrightarrow> unat idx < unat (hn_resp_slots h) \<Longrightarrow> slots_ok h w1"
proof -
  obtain a b where hd: "hdr w1 = (hdr w)\<lparr>h_resp_hint := a, h_stat_recoveries := b\<rparr>"
    "h_resp_hint (hdr w) < hn_resp_slots h \<longrightarrow> a < hn_resp_slots h"
    using assms unfolding acquired_def by blast
  have same: "req_slots w1 = req_slots w" "req_arena w1 = req_arena w"
    "resp_area w1 = resp_area (take_slot pid idx w)"
    using assms unfolding acquired_def by blast+
  show "queue_ok h w1 = queue_ok h w" "queue_abs h w1 = queue_abs h w"
    by (rule queue_frame; simp add: hd same)+
  show "h_mutex (hdr w1) = h_mutex (hdr w)" "h_recv_waiters (hdr w1) = h_recv_waiters (hdr w)"
    "h_recv_futex (hdr w1) = h_recv_futex (hdr w)"
    "h_mutex_waiters (hdr w1) = h_mutex_waiters (hdr w)" "waiters_of wt w1 = waiters_of wt w"
    using hd(1) by (cases wt; simp)+
  show "h_resp_hint (hdr w) < hn_resp_slots h \<Longrightarrow> h_resp_hint (hdr w1) < hn_resp_slots h"
    using hd by simp
  assume "slots_ok h w" "unat idx < unat (hn_resp_slots h)"
  then have "slots_ok h (take_slot pid idx w)" by (intro slots_ok_take) (auto simp: slots_ok_def)
  then show "slots_ok h w1"
    using slots_ok_frame [of w1 "take_slot pid idx w"] same(3) by simp
qed

text \<open>The scan order visits every slot, provided the hint is an index of the table: then the
  32-bit sum of hint and counter does not wrap around.\<close>

lemma scan_order_complete:
  assumes "h_resp_hint (hdr w) < hn_resp_slots h" and "unat (hn_resp_slots h) \<le> 2 ^ 31"
    and "j < unat (hn_resp_slots h)"
  shows "j \<in> set (scan_order h w)"
proof -
  let ?n = "unat (hn_resp_slots h)" and ?h = "unat (h_resp_hint (hdr w))"
  have lt: "?h < ?n" using assms(1) by (simp add: word_less_nat_alt)
  define i where "i = (j + ?n - ?h) mod ?n"
  have i: "i < ?n" using assms(3) by (simp add: i_def)
  have "(?h + i) mod ?n = (?h + (j + ?n - ?h)) mod ?n" unfolding i_def by (simp add: mod_add_right_eq)
  also have "\<dots> = j" using lt assms(3) by simp
  finally have "(?h + i) mod ?n = j" .
  moreover have "unat (h_resp_hint (hdr w) + of_nat i) = ?h + i"
  proof -
    have "unat (of_nat i :: u32) = i" using of_nat_in_range [OF i] .
    moreover have "?h + i < 2 ^ LENGTH(32)" using lt i assms(2) by simp
    ultimately show ?thesis by (subst unat_add_lem [THEN iffD1]) simp_all
  qed
  ultimately have "unat ((h_resp_hint (hdr w) + of_nat i) mod hn_resp_slots h) = j"
    by (simp add: unat_mod)
  with i show ?thesis unfolding scan_order_def by force
qed

lemma acquire_cases:
  assumes "quiet os" and "slots_ok h w" and "unat (hn_resp_slots h) \<le> 2 ^ 31"
    and "h_resp_hint (hdr w) < hn_resp_slots h"
  obtains (none) "reqrep_slot_acquire os h w = Some (-1, w)"
      "\<forall>s \<in> set (resp_area w). rs_state s \<noteq> RESP_FREE"
    | (slot) idx w1 where "unat idx < unat (hn_resp_slots h)"
      "reqrep_slot_acquire os h w = Some (int (unat idx), w1)" "acquired h (os_pid os) idx w w1"
proof -
  let ?n = "unat (hn_resp_slots h)"
  let ?f = "find (\<lambda>i. rs_state (resp_area w ! i) = RESP_FREE) (scan_order h w)"
  let ?d = "find (dead_at (sub os 2) w) [0..<?n]"
  have n: "hn_resp_slots h \<noteq> 0" "length (resp_area w) = ?n" using assms(2) by (auto simp: slots_ok_def)
  note eq = slot_acquire_eq [OF assms(1-3)]
  have mod: "x mod hn_resp_slots h < hn_resp_slots h" for x
    using mod_in_range [OF n(1)] by (simp add: word_less_nat_alt)
  show thesis
  proof (cases ?f)
    case (Some i)
    then have "i \<in> set (scan_order h w)" by (auto simp: find_Some_iff)
    then have "i < ?n" using mod_in_range [OF n(1)] by (auto simp: scan_order_def)
    then have i: "unat (of_nat i :: u32) = i" "i < ?n" using of_nat_in_range by auto
    let ?w1 = "hdr_update (\<lambda>x. x\<lparr>h_resp_hint := (of_nat i + 1) mod hn_resp_slots h\<rparr>)
        (take_slot (os_pid os) (of_nat i) w)"
    have "acquired h (os_pid os) (of_nat i) w ?w1"
      unfolding acquired_def
      by (intro conjI exI [of _ "(of_nat i + 1) mod hn_resp_slots h"]
          exI [of _ "h_stat_recoveries (hdr w)"]) (simp_all add: mod)
    with slot [of "of_nat i" ?w1] eq Some i show thesis by simp
  next
    case None
    show thesis
    proof (cases ?d)
      case (Some i)
      then have "i < ?n" by (auto simp: find_Some_iff)
      then have i: "unat (of_nat i :: u32) = i" "i < ?n" using of_nat_in_range by auto
      let ?w1 = "take_slot (os_pid os) (of_nat i)
          (hdr_update (\<lambda>x. x\<lparr>h_stat_recoveries := h_stat_recoveries x + 1\<rparr>) w)"
      have "acquired h (os_pid os) (of_nat i) w ?w1"
        unfolding acquired_def
        by (intro conjI exI [of _ "h_resp_hint (hdr w)"]
            exI [of _ "h_stat_recoveries (hdr w) + 1"]) simp_all
      with slot [of "of_nat i" ?w1] eq None Some i show thesis by simp
    next
      case none': None
      have "rs_state (resp_area w ! j) \<noteq> RESP_FREE" if "j < ?n" for j
        using None scan_order_complete [OF assms(4,3) that] by (auto simp: find_None_iff)
      then have "\<forall>s \<in> set (resp_area w). rs_state s \<noteq> RESP_FREE"
        using n(2) by (auto simp: in_set_conv_nth)
      with none eq None none' show thesis by simp
    qed
  qed
qed

lemma queue_abs_Nil: "queue_abs h w = [] \<longleftrightarrow> h_req_tail (hdr w) = h_req_head (hdr w)"
  using live_Nil [of h w] by (simp add: queue_abs_def)

lemma send_locked_cases:
  assumes "queue_ok h w" and "\<not> len > REQREP_STR_LEN_MASK" "length str = unat len"
    and "unat len \<le> unat (hn_req_arena_cap h)"
  obtains (full) "reqrep_send_locked h str len utf8 rs rg w = Some (0, send_full w)" "queue_abs h w \<noteq> []"
    | (sent) w' where "reqrep_send_locked h str len utf8 rs rg w = Some (1, w')"
      "sent h (str, utf8, REQREP_MAKE_ID rs rg) w w'"
proof (cases "h_req_tail (hdr w) = h_req_head (hdr w)")
  case True
  from send_locked_empty(1) [OF assms(1-3) True assms(4), of utf8 rs rg] sent show thesis by blast
next
  case False
  from False have "queue_abs h w \<noteq> []" by (simp add: queue_abs_Nil)
  with send_locked_nonempty [OF assms(1-3) False, of utf8 rs rg] full sent show thesis by blast
qed

text \<open>Locking, sending and unlocking, alone.\<close>

lemma unlock_keeps:
  assumes "quiet os"
  shows "resp_area (reqrep_mutex_unlock os w) = resp_area w"
    "queue_ok h (reqrep_mutex_unlock os w) = queue_ok h w"
    "queue_abs h (reqrep_mutex_unlock os w) = queue_abs h w"
    "slots_ok h (reqrep_mutex_unlock os w) = slots_ok h w"
    "hdr (reqrep_mutex_unlock os w) = (hdr w)\<lparr>h_mutex := 0\<rparr>"
    "int_slots (reqrep_mutex_unlock os w) = int_slots w"
    "h_mutex_waiters (hdr w) = 0 \<Longrightarrow> kcalls (reqrep_mutex_unlock os w) = kcalls w"
  using assms by (simp_all add: unlock_alone Let_def)

lemma wake_consumers_keeps:
  "resp_area (reqrep_wake_consumers w) = resp_area w"
  "h_mutex (hdr (reqrep_wake_consumers w)) = h_mutex (hdr w)"
  "h_resp_hint (hdr (reqrep_wake_consumers w)) = h_resp_hint (hdr w)"
  "h_recv_waiters (hdr w) = 0 \<Longrightarrow> reqrep_wake_consumers w = w"
  by (simp_all add: wake_defs)

lemma released_keeps:
  "h_mutex (hdr (released i w)) = h_mutex (hdr w)"
  "h_resp_hint (hdr (released i w)) = h_resp_hint (hdr w)"
  by (simp_all add: released_def wake_defs)

lemma slots_ok_released:
  assumes "slots_ok h w" "unat i < length (resp_area w)"
  shows "slots_ok h (released i w)"
proof -
  have "slot_ok h (resp_area w ! unat i)" using assms by (simp add: slots_ok_def)
  then show ?thesis
    unfolding released_def slots_ok_simps
    by (intro slots_ok_set [OF assms(1)]) (simp add: slot_ok_def)
qed

definition no_wakeups :: "shm \<Rightarrow> shm \<Rightarrow> bool" where
  "no_wakeups w w' \<longleftrightarrow> kcalls w' = kcalls w \<and> h_recv_futex (hdr w') = h_recv_futex (hdr w) \<and>
     h_recv_waiters (hdr w') = 0"

text \<open>A slot taken for a send that was refused: free again, without an owner, one generation on,
  and no other slot touched.\<close>

definition gave_back :: "nat \<Rightarrow> shm \<Rightarrow> shm \<Rightarrow> bool" where
  "gave_back i w w' \<longleftrightarrow> i < length (resp_area w) \<and> length (resp_area w') = length (resp_area w) \<and>
     rs_state (resp_area w' ! i) = RESP_FREE \<and> rs_owner_pid (resp_area w' ! i) = 0 \<and>
     rs_generation (resp_area w' ! i) = rs_generation (resp_area w ! i) + 1 \<and>
     (\<forall>j < length (resp_area w). j \<noteq> i \<longrightarrow> resp_area w' ! j = resp_area w ! j)"

text \<open>The first half of a send: the mapping with the slot acquired and the mutex taken.\<close>

definition send_ready :: "ReqRepHandle \<Rightarrow> u32 \<Rightarrow> u32 \<Rightarrow> u32 \<Rightarrow> shm \<Rightarrow> shm \<Rightarrow> bool" where
  "send_ready h pid idx gen w w2 \<longleftrightarrow> unat idx < unat (hn_resp_slots h) \<and>
     unat idx < length (resp_area w) \<and> gen = rs_generation (resp_area w ! unat idx) + 1 \<and>
     resp_area w2 = (resp_area w)[unat idx := (resp_area w ! unat idx)\<lparr>
       rs_state := RESP_ACQUIRED, rs_owner_pid := pid, rs_generation := gen\<rparr>] \<and>
     queue_ok h w2 \<and> queue_abs h w2 = queue_abs h w \<and> slots_ok h w2 \<and>
     h_resp_hint (hdr w2) < hn_resp_slots h \<and> kcalls w2 = kcalls w \<and>
     h_recv_waiters (hdr w2) = h_recv_waiters (hdr w) \<and> h_recv_futex (hdr w2) = h_recv_futex (hdr w) \<and>
     h_mutex_waiters (hdr w2) = h_mutex_waiters (hdr w) \<and>
     (\<forall>wt. waiters_of wt w2 = waiters_of wt w)"

lemma try_send_start:
  assumes os: "quiet os" and ok: "str_ok h w"
  obtains (no_slot) "reqrep_slot_acquire (sub os 0) h w = Some (-1, w)"
      "reqrep_try_send os h str len utf8 w = Some (-3, None, h, w)"
      "\<forall>s \<in> set (resp_area w). rs_state s \<noteq> RESP_FREE"
    | (ready) idx gen w2 w1 where "reqrep_slot_acquire (sub os 0) h w = Some (int (unat idx), w1)"
      "reqrep_try_send os h str len utf8 w =
      (case reqrep_send_locked h str len utf8 idx gen w2 of None \<Rightarrow> None
       | Some (r, w3) \<Rightarrow> (if r = 1 then Some (1, Some (REQREP_MAKE_ID idx gen), h,
             reqrep_wake_consumers (reqrep_mutex_unlock (sub os 3) w3))
           else reqrep_slot_release (sub os 5) idx (reqrep_mutex_unlock (sub os 3) w3) \<bind>
                  (\<lambda>w. Some (r, None, h, w))))"
      "send_ready h (os_pid os) idx gen w w2"
proof -
  have parts: "queue_ok h w" "slots_ok h w" "h_mutex (hdr w) = 0" "unat (hn_resp_slots h) \<le> 2 ^ 31"
    "h_resp_hint (hdr w) < hn_resp_slots h"
    using ok by (auto simp: str_ok_def)
  have q: "quiet (sub os k)" for k using os by simp
  from q parts(2,4,5) show thesis
  proof (cases rule: acquire_cases [of "sub os 0"])
    case none
    then show thesis using no_slot by (simp add: reqrep_try_send_def)
  next
    case (slot idx w1)
    note keep = acquired_keeps [OF slot(3)]
    define gen where "gen = rs_generation (resp_area w ! unat idx) + 1"
    have area: "resp_area w1 = (resp_area w)[unat idx := (resp_area w ! unat idx)\<lparr>
        rs_state := RESP_ACQUIRED, rs_owner_pid := os_pid os, rs_generation := gen\<rparr>]"
      using slot(3) by (simp add: acquired_def gen_def)
    have l: "unat idx < length (resp_area w)" using slot(1) parts(2) by (simp add: slots_ok_def)
    have s1: "reqrep_resp_slot w1 idx = Some ((resp_area w ! unat idx)\<lparr>
        rs_state := RESP_ACQUIRED, rs_owner_pid := os_pid os, rs_generation := gen\<rparr>)"
      using l by (simp add: reqrep_resp_slot_def area)
    let ?w2 = "hdr_update (\<lambda>x. x\<lparr>h_mutex := REQREP_MUTEX_VAL (os_pid os)\<rparr>) w1"
    have lk: "reqrep_mutex_lock (sub os 2) w1 = Some ?w2"
      using lock_alone [OF q, of w1] keep(3) parts(3) by simp
    have w2: "queue_ok h ?w2" "queue_abs h ?w2 = queue_abs h w" "slots_ok h ?w2"
      using parts(1,2) slot(1) keep(1,2,9) by auto
    have wts: "waiters_of wt ?w2 = waiters_of wt w" for wt
      using keep(8) [of wt] by (cases wt) simp_all
    have kc: "kcalls w1 = kcalls w" using slot(3) by (simp add: acquired_def)
    have rdy: "send_ready h (os_pid os) idx gen w ?w2"
      unfolding send_ready_def using slot(1) l w2 keep(4) [OF parts(5)] keep(5-7) wts kc
      by (simp add: gen_def area)
    show thesis
      by (rule ready [OF slot(2) _ rdy])
        (use os slot(2) s1 lk in \<open>simp add: reqrep_try_send_def Let_def split: option.splits prod.splits\<close>)
  qed
qed

text \<open>The second half of a refused send, with the queue as it was but for a statistics counter.\<close>

lemma refused_send:
  assumes os: "quiet os" and ok: "str_ok h w" and rdy: "send_ready h (os_pid os) idx gen w w2"
    and w3: "w3 = w2 \<or> w3 = send_full w2"
  obtains w' where "reqrep_slot_release (sub os 5) idx (reqrep_mutex_unlock (sub os 3) w3) = Some w'"
    "str_ok h w'" "queue_abs h w' = queue_abs h w" "gave_back (unat idx) w w'"
    "\<And>wt. waiters_of wt w' = waiters_of wt w"
proof -
  have q: "quiet (sub os k)" for k using os by simp
  let ?w4 = "reqrep_mutex_unlock (sub os 3) w3"
  note u = unlock_keeps [OF q [of 3], where w = w3]
  have w2: "queue_ok h w2" "queue_abs h w2 = queue_abs h w" "slots_ok h w2"
    "h_resp_hint (hdr w2) < hn_resp_slots h" "unat idx < length (resp_area w)"
    "resp_area w2 = (resp_area w)[unat idx := (resp_area w ! unat idx)\<lparr>
       rs_state := RESP_ACQUIRED, rs_owner_pid := os_pid os, rs_generation := gen\<rparr>]"
    "gen = rs_generation (resp_area w ! unat idx) + 1" "\<And>wt. waiters_of wt w2 = waiters_of wt w"
    using rdy by (simp_all add: send_ready_def)
  have w3': "queue_ok h w3" "queue_abs h w3 = queue_abs h w" "slots_ok h w3" "resp_area w3 = resp_area w2"
    "h_resp_hint (hdr w3) < hn_resp_slots h"
    using w3 w2(1-4) slots_ok_frame [of "send_full w2" w2] by auto
  have l4: "unat idx < length (resp_area ?w4)" using w2(5,6) by (simp add: u w3'(4))
  have run: "reqrep_slot_release (sub os 5) idx ?w4 = Some (released idx ?w4)"
    by (rule release_alone [OF q l4])
  have ok': "str_ok h (released idx ?w4)"
    using w3'(1,3,5) ok slots_ok_released [OF _ l4] by (simp add: str_ok_def u released_keeps)
  have wts: "waiters_of wt (released idx ?w4) = waiters_of wt w" for wt
    using w3 w2(8) [of wt] by (cases wt) (auto simp: released_def wake_defs u)
  have freed: "gave_back (unat idx) w (released idx ?w4)"
    using w2(5-7) by (simp add: gave_back_def released_def wake_defs u w3'(4))
  show thesis
    by (rule that [OF run ok' _ freed wts]) (simp add: u w3'(2))
qed

lemma send_locked_outcomes:
  assumes ok: "queue_ok h w" and len: "length str = unat len"
  obtains (overrun) "reqrep_send_locked h str len utf8 rs rg w = None" "\<not> len > REQREP_STR_LEN_MASK"
      "unat (hn_req_arena_cap h) < unat len" "queue_abs h w = []"
    | (refused) r w' where "reqrep_send_locked h str len utf8 rs rg w = Some (r, w')"
      "r = -2 \<and> len > REQREP_STR_LEN_MASK \<or>
       r = 0 \<and> \<not> len > REQREP_STR_LEN_MASK \<and> queue_abs h w \<noteq> []"
      "w' = w \<or> w' = send_full w"
      "len > REQREP_STR_LEN_MASK \<or> unat len \<le> unat (hn_req_arena_cap h) \<or> queue_abs h w \<noteq> []"
    | (sent) w' where "reqrep_send_locked h str len utf8 rs rg w = Some (1, w')"
      "sent h (str, utf8, REQREP_MAKE_ID rs rg) w w'" "\<not> len > REQREP_STR_LEN_MASK"
      "unat len \<le> unat (hn_req_arena_cap h) \<or> queue_abs h w \<noteq> []"
proof (cases "len > REQREP_STR_LEN_MASK")
  case True
  with send_locked_too_long [OF True] refused show thesis by blast
next
  case False
  show thesis
  proof (cases "h_req_tail (hdr w) = h_req_head (hdr w)")
    case True
    then have nil: "queue_abs h w = []" by (simp add: queue_abs_Nil)
    note e = send_locked_empty [OF ok False len True, of utf8 rs rg]
    show thesis
    proof (cases "unat len \<le> unat (hn_req_arena_cap h)")
      case True
      with e(1) sent False show thesis by blast
    next
      case big: False
      with e(2) overrun [OF _ False _ nil] show thesis by simp
    qed
  next
    case ne: False
    then have "queue_abs h w \<noteq> []" by (simp add: queue_abs_Nil)
    with send_locked_nonempty [OF ok False len ne, of utf8 rs rg] refused sent False show thesis by blast
  qed
qed

lemma accepted_send:
  assumes os: "quiet os" and ok: "str_ok h w" and rdy: "send_ready h (os_pid os) idx gen w w2"
    and snt: "sent h (str, utf8, REQREP_MAKE_ID idx gen) w2 w3"
  defines "id' \<equiv> REQREP_MAKE_ID idx gen"
    and "w' \<equiv> reqrep_wake_consumers (reqrep_mutex_unlock (sub os 3) w3)"
  shows "str_ok h w'" "queue_abs h w' = queue_abs h w @ [(str, utf8, id')]" "awaiting h id' w'"
    "\<forall>j < length (resp_area w). j \<noteq> unat (REQREP_ID_SLOT id') \<longrightarrow> resp_area w' ! j = resp_area w ! j"
    "h_recv_waiters (hdr w) = 0 \<Longrightarrow> h_mutex_waiters (hdr w) = 0 \<Longrightarrow> no_wakeups w w'"
    "waiters_of wt w' = waiters_of wt w"
proof -
  have q: "quiet (sub os k)" for k using os by simp
  note u = unlock_keeps [OF q [of 3], where w = w3]
  have l: "unat idx < unat (hn_resp_slots h)" "unat idx < length (resp_area w)"
    and area: "resp_area w2 = (resp_area w)[unat idx := (resp_area w ! unat idx)\<lparr>
       rs_state := RESP_ACQUIRED, rs_owner_pid := os_pid os, rs_generation := gen\<rparr>]"
    and w2: "queue_abs h w2 = queue_abs h w" "slots_ok h w2" "h_resp_hint (hdr w2) < hn_resp_slots h"
      "kcalls w2 = kcalls w" "h_recv_waiters (hdr w2) = h_recv_waiters (hdr w)"
      "h_recv_futex (hdr w2) = h_recv_futex (hdr w)" "h_mutex_waiters (hdr w2) = h_mutex_waiters (hdr w)"
      "waiters_of wt w2 = waiters_of wt w"
    using rdy by (simp_all add: send_ready_def)
  obtain p u' where hd3: "hdr w3 = (hdr w2)\<lparr>h_arena_wpos := p, h_arena_used := u',
      h_req_tail := h_req_tail (hdr w2) + 1, h_stat_requests := h_stat_requests (hdr w2) + 1\<rparr>"
    using snt unfolding sent_def by blast
  have w3: "queue_ok h w3" "queue_abs h w3 = queue_abs h w @ [(str, utf8, id')]"
    "resp_area w3 = resp_area w2" "kcalls w3 = kcalls w2"
    using snt w2(1) by (simp_all add: sent_def id'_def)
  have s3: "slots_ok h w3" using w2(2) w3(3) slots_ok_frame [of w3 w2] by simp
  show "str_ok h w'"
    using w3(1) s3 ok w2(3) by (simp add: str_ok_def w'_def u wake_consumers_keeps hd3)
  show "queue_abs h w' = queue_abs h w @ [(str, utf8, id')]" by (simp add: w'_def u w3(2))
  show "awaiting h id' w'"
    using l by (simp add: awaiting_def w'_def id'_def wake_consumers_keeps u w3(3) area word_less_nat_alt)
  show "\<forall>j < length (resp_area w). j \<noteq> unat (REQREP_ID_SLOT id') \<longrightarrow> resp_area w' ! j = resp_area w ! j"
    by (simp add: w'_def id'_def wake_consumers_keeps u w3(3) area)
  show "no_wakeups w w'" if "h_recv_waiters (hdr w) = 0" "h_mutex_waiters (hdr w) = 0"
  proof -
    have "h_mutex_waiters (hdr w3) = 0" "h_recv_waiters (hdr w3) = 0"
      using that w2(5,7) by (simp_all add: hd3)
    with w2(4,6) show ?thesis
      by (simp add: no_wakeups_def w'_def wake_consumers_keeps u hd3 w3(4))
  qed
  show "waiters_of wt w' = waiters_of wt w"
    using w2(8) by (cases wt) (simp_all add: w'_def wake_defs u hd3)
qed

lemma try_send_cases:
  assumes os: "quiet os" and ok: "str_ok h w"
    and len: "\<not> len > REQREP_STR_LEN_MASK" "length str = unat len"
      "unat len \<le> unat (hn_req_arena_cap h)"
  obtains (no_slot) "reqrep_try_send os h str len utf8 w = Some (-3, None, h, w)"
      "\<forall>s \<in> set (resp_area w). rs_state s \<noteq> RESP_FREE"
    | (full) w' where "reqrep_try_send os h str len utf8 w = Some (0, None, h, w')"
      "str_ok h w'" "queue_abs h w' = queue_abs h w" "queue_abs h w \<noteq> []"
      "\<And>wt. waiters_of wt w' = waiters_of wt w"
    | (sent) id' w' where "reqrep_try_send os h str len utf8 w = Some (1, Some id', h, w')"
      "str_ok h w'" "queue_abs h w' = queue_abs h w @ [(str, utf8, id')]" "awaiting h id' w'"
      "\<forall>j < length (resp_area w). j \<noteq> unat (REQREP_ID_SLOT id') \<longrightarrow> resp_area w' ! j = resp_area w ! j"
      "h_recv_waiters (hdr w) = 0 \<Longrightarrow> h_mutex_waiters (hdr w) = 0 \<Longrightarrow> no_wakeups w w'"
      "\<And>wt. waiters_of wt w' = waiters_of wt w"
  using os ok
proof (cases rule: try_send_start [where ?str.0 = str and ?len.0 = len and ?utf8.0 = utf8])
  case no_slot': no_slot
  then show thesis using no_slot by blast
next
  case (ready idx gen w2 w1)
  have w2: "queue_ok h w2" "queue_abs h w2 = queue_abs h w"
    using ready(3) by (simp_all add: send_ready_def)
  from w2(1) len show thesis
  proof (cases rule: send_locked_cases [of h w2 len str utf8 idx gen])
    case full': full
    obtain w' where w': "reqrep_slot_release (sub os 5) idx (reqrep_mutex_unlock (sub os 3) (send_full w2)) = Some w'"
      "str_ok h w'" "queue_abs h w' = queue_abs h w" "\<And>wt. waiters_of wt w' = waiters_of wt w"
      using refused_send [OF os ok ready(3) disjI2 [OF refl]] by metis
    have "reqrep_try_send os h str len utf8 w = Some (0, None, h, w')"
      using ready(2) full'(1) w'(1) by simp
    then show thesis using full [OF _ w'(2,3) _ w'(4)] full'(2) w2(2) by simp
  next
    case sent': (sent w3)
    then have "reqrep_try_send os h str len utf8 w = Some (1, Some (REQREP_MAKE_ID idx gen), h,
        reqrep_wake_consumers (reqrep_mutex_unlock (sub os 3) w3))"
      using ready(2) by simp
    with accepted_send [OF os ok ready(3) sent'(2)] show thesis using sent by blast
  qed
qed

lemma wake_producers_keeps:
  "resp_area (reqrep_wake_producers w) = resp_area w"
  "h_mutex (hdr (reqrep_wake_producers w)) = h_mutex (hdr w)"
  "h_resp_hint (hdr (reqrep_wake_producers w)) = h_resp_hint (hdr w)"
  by (simp_all add: wake_defs)

lemma try_recv_cases:
  assumes os: "quiet os" and ok: "str_ok h w" "copy_buf_ok h"
  obtains (empty) w' where "reqrep_try_recv os h w = Some (0, None, h, w')" "queue_abs h w = []"
      "str_ok h w'" "queue_abs h w' = []" "resp_area w' = resp_area w"
      "h_recv_futex (hdr w') = h_recv_futex (hdr w)" "h_recv_waiters (hdr w') = h_recv_waiters (hdr w)"
      "h_mutex_waiters (hdr w') = h_mutex_waiters (hdr w)"
      "h_mutex_waiters (hdr w) = 0 \<Longrightarrow> kcalls w' = kcalls w"
      "\<And>wt. waiters_of wt w' = waiters_of wt w"
    | (oom) w' where "reqrep_try_recv os h w = Some (-1, None, h, w')" "\<exists>n. \<not> os_realloc os [1] n"
      "queue_abs h w \<noteq> []"
      "str_ok h w'" "queue_abs h w' = queue_abs h w" "\<And>wt. waiters_of wt w' = waiters_of wt w"
    | (received) r h' w' where "reqrep_try_recv os h w = Some (1, Some r, h', w')"
      "queue_abs h w = (ro_str r, ro_utf8 r, ro_id r) # queue_abs h' w'"
      "length (ro_str r) = unat (ro_len r)" "str_ok h' w'" "copy_buf_ok h'" "rebuffered h h'"
      "resp_area w' = resp_area w" "\<And>wt. waiters_of wt w' = waiters_of wt w"
proof -
  have parts: "queue_ok h w" "slots_ok h w" "h_mutex (hdr w) = 0" "unat (hn_resp_slots h) \<le> 2 ^ 31"
    "h_resp_hint (hdr w) < hn_resp_slots h"
    using ok by (auto simp: str_ok_def)
  have q: "quiet (sub os k)" for k using os by simp
  let ?w1 = "hdr_update (\<lambda>x. x\<lparr>h_mutex := REQREP_MUTEX_VAL (os_pid os)\<rparr>) w"
  have lk: "reqrep_mutex_lock (sub os 0) w = Some ?w1"
    using lock_alone [OF q, of w] parts(3) by simp
  have w1: "queue_ok h ?w1" "queue_abs h ?w1 = queue_abs h w" "slots_ok h ?w1"
    using parts(1,2) by auto
  show thesis
  proof (cases "h_req_tail (hdr w) = h_req_head (hdr w)")
    case True
    define w2 where "w2 = hdr_update (\<lambda>x. x\<lparr>h_stat_recv_empty := h_stat_recv_empty x + 1\<rparr>) ?w1"
    have w2: "queue_ok h w2" "queue_abs h w2 = queue_abs h w" "slots_ok h w2" "resp_area w2 = resp_area w"
      "kcalls w2 = kcalls w" "hdr w2 = (hdr w)\<lparr>h_mutex := REQREP_MUTEX_VAL (os_pid os),
        h_stat_recv_empty := h_stat_recv_empty (hdr w) + 1\<rparr>"
      unfolding w2_def queue_frames slots_ok_simps using w1 by simp_all
    note u = unlock_keeps [OF q [of 2], where w = w2]
    have "reqrep_recv_locked (sub os 1) h ?w1 = Some (0, None, h, w2)"
      unfolding w2_def using True by (intro recv_locked_empty) simp
    then have run: "reqrep_try_recv os h w = Some (0, None, h, reqrep_mutex_unlock (sub os 2) w2)"
      using lk by (simp add: reqrep_try_recv_def)
    have nil: "queue_abs h w = []" using True by (simp add: queue_abs_Nil)
    have "waiters_of wt (reqrep_mutex_unlock (sub os 2) w2) = waiters_of wt w" for wt
      by (cases wt) (simp_all add: u w2)
    then show thesis
      using w2 parts nil by (intro empty [OF run]) (simp_all add: str_ok_def u)
  next
    case False
    then have ne: "h_req_tail (hdr ?w1) \<noteq> h_req_head (hdr ?w1)" by simp
    from recv_locked_nonempty [OF w1(1) ok(2) ne, of "sub os 1"] consider
      (a) "\<exists>n. \<not> os_realloc (sub os 1) [] n" "reqrep_recv_locked (sub os 1) h ?w1 = Some (-1, None, h, ?w1)"
      | (b) r h' w2 where "reqrep_recv_locked (sub os 1) h ?w1 = Some (1, Some r, h', w2)"
        "received h ?w1 r h' w2" by blast
    then show thesis
    proof cases
      case a
      note u = unlock_keeps [OF q [of 2], where w = ?w1]
      have run: "reqrep_try_recv os h w = Some (-1, None, h, reqrep_mutex_unlock (sub os 2) ?w1)"
        using lk a(2) by (simp add: reqrep_try_recv_def)
      have "waiters_of wt (reqrep_mutex_unlock (sub os 2) ?w1) = waiters_of wt w" for wt
        by (cases wt) (simp_all add: u)
      then show thesis
        using a(1) w1 parts False by (intro oom [OF run]) (simp_all add: str_ok_def u queue_abs_Nil)
    next
      case b
      note u = unlock_keeps [OF q [of 2], where w = w2]
      have rc: "queue_ok h' w2" "copy_buf_ok h'"
        "queue_abs h w = (ro_str r, ro_utf8 r, ro_id r) # queue_abs h' w2"
        "length (ro_str r) = unat (ro_len r)" "resp_area w2 = resp_area w"
        using b(2) w1(2) by (simp_all add: received_def)
      obtain v p where hd: "hdr w2 = (hdr ?w1)\<lparr>h_arena_used := v, h_arena_wpos := p,
          h_req_head := h_req_head (hdr ?w1) + 1\<rparr>"
        using b(2) unfolding received_def by blast
      have rb: "rebuffered h h'" using b(2) unfolding received_def rebuffered_def by blast
      have s2: "slots_ok h w2" using w1(3) rc(5) slots_ok_frame [of w2 ?w1] by simp
      have run: "reqrep_try_recv os h w = Some (1, Some r, h',
          reqrep_wake_producers (reqrep_mutex_unlock (sub os 2) w2))"
        using os lk b(1) by (simp add: reqrep_try_recv_def)
      have "str_ok h' (reqrep_wake_producers (reqrep_mutex_unlock (sub os 2) w2))"
        using rc(1) s2 parts(4,5) rebuffered_same [OF rb]
        by (simp add: str_ok_def u wake_producers_keeps hd)
      moreover have "waiters_of wt (reqrep_wake_producers (reqrep_mutex_unlock (sub os 2) w2)) =
          waiters_of wt w" for wt
        by (cases wt) (simp_all add: u wake_defs hd)
      ultimately show thesis
        by (intro received [OF run]) (simp_all add: u wake_producers_keeps rc rb)
    qed
  qed
qed

lemma demo_str:
  obtains h w where "str_ok h w" "queue_abs h w = []" "copy_buf_ok h" "hn_resp_slots h = 1"
    "hn_resp_data_max h = 16" "hn_req_arena_cap h = 4096" "resp_area w = [zero_resp_slot 64]"
    "h_recv_waiters (hdr w) = 0" "h_mutex_waiters (hdr w) = 0"
proof -
  obtain h w where d: "queue_ok h w" "queue_abs h w = []" "copy_buf_ok h" "slots_ok h w"
    "hn_resp_slots h = 1" "hn_resp_data_max h = 16" "hn_req_arena_cap h = 4096"
    "resp_area w = [zero_resp_slot 64]" "h_resp_hint (hdr w) = 0" "h_mutex (hdr w) = 0"
    "h_recv_waiters (hdr w) = 0" "h_mutex_waiters (hdr w) = 0"
    using demo_slots by metis
  moreover have "str_ok h w" using d by (simp add: str_ok_def)
  ultimately show ?thesis using that by metis
qed

text \<open>
  Property C17. Sending alone, between calls of other processes, on every branch: with the mutex
  free and queue and slots in order, a request is queued last (1) with a response slot, and no
  other, waiting for its reply under the identifier returned; or refused because it is 2 GiB or
  longer (-2) or the queue is full (0), and then the slot taken for it is free again, without an
  owner, and no other slot has changed; or refused because no slot is free (-3) without touching
  anything. A refusal leaves the queue as it was, and the mutex is free again in every case. The
  only requests with no result are those longer than the whole arena sent to an empty queue,
  which overrun the arena.
\<close>

theorem try_send_alone:
  assumes "quiet os" and "str_ok h w" and "length str = unat len"
  shows "(reqrep_try_send os h str len utf8 w = None \<longleftrightarrow>
            \<not> len > REQREP_STR_LEN_MASK \<and> unat (hn_req_arena_cap h) < unat len \<and>
            queue_abs h w = [] \<and> reqrep_slot_acquire (sub os 0) h w \<noteq> Some (-1, w)) \<and>
    (\<forall>r oid h' w'. reqrep_try_send os h str len utf8 w = Some (r, oid, h', w') \<longrightarrow>
       h' = h \<and> str_ok h w' \<and>
       (case oid of
          Some id' \<Rightarrow> r = 1 \<and> \<not> len > REQREP_STR_LEN_MASK \<and>
            queue_abs h w' = queue_abs h w @ [(str, utf8, id')] \<and> awaiting h id' w' \<and>
            (\<forall>j < length (resp_area w). j \<noteq> unat (REQREP_ID_SLOT id') \<longrightarrow>
               resp_area w' ! j = resp_area w ! j)
        | None \<Rightarrow> queue_abs h w' = queue_abs h w \<and>
            (r = -2 \<and> len > REQREP_STR_LEN_MASK \<and> (\<exists>i. gave_back i w w') \<or>
             r = 0 \<and> \<not> len > REQREP_STR_LEN_MASK \<and> queue_abs h w \<noteq> [] \<and> (\<exists>i. gave_back i w w') \<or>
             r = -3 \<and> w' = w \<and> (\<forall>s \<in> set (resp_area w). rs_state s \<noteq> RESP_FREE))))"
  using assms(1,2)
proof (cases rule: try_send_start [where ?str.0 = str and ?len.0 = len and ?utf8.0 = utf8])
  case no_slot
  with assms(2) show ?thesis by simp
next
  case (ready idx gen w2 w1)
  have w2: "queue_ok h w2" "queue_abs h w2 = queue_abs h w"
    using ready(3) by (simp_all add: send_ready_def)
  have acq: "reqrep_slot_acquire (sub os 0) h w \<noteq> Some (-1, w)"
  proof -
    have "int (unat idx) \<noteq> -1" by linarith
    with ready(1) show ?thesis by (metis option.inject prod.inject)
  qed
  from w2(1) assms(3) show ?thesis
  proof (cases rule: send_locked_outcomes [of h w2 str len utf8 idx gen])
    case overrun
    then show ?thesis using ready(2) acq w2(2) by simp
  next
    case (refused r w3)
    obtain w' where w': "reqrep_slot_release (sub os 5) idx (reqrep_mutex_unlock (sub os 3) w3) = Some w'"
      "str_ok h w'" "queue_abs h w' = queue_abs h w" "gave_back (unat idx) w w'"
      using refused_send [OF assms(1,2) ready(3) refused(3)] by metis
    have "reqrep_try_send os h str len utf8 w = Some (r, None, h, w')"
      using ready(2) refused(1,2) w'(1) by auto
    then show ?thesis using w'(2-4) refused(2) w2(2) by auto
  next
    case (sent w3)
    then have "reqrep_try_send os h str len utf8 w = Some (1, Some (REQREP_MAKE_ID idx gen), h,
        reqrep_wake_consumers (reqrep_mutex_unlock (sub os 3) w3))"
      using ready(2) by simp
    with accepted_send [OF assms(1,2) ready(3) sent(2)] sent(3,4) w2(2) show ?thesis by auto
  qed
qed

theorem try_send_alone_witness:
  "\<exists>h w w'. str_ok h w \<and>
     (\<exists>id'. reqrep_try_send quiet_os h [1, 2, 3] 3 True w = Some (1, Some id', h, w') \<and>
        queue_abs h w' = [([1, 2, 3], True, id')] \<and> awaiting h id' w')"
proof -
  obtain h w where d: "str_ok h w" "queue_abs h w = []" "hn_req_arena_cap h = 4096"
    "resp_area w = [zero_resp_slot 64]" using demo_str by metis
  have len: "length [1, 2, 3 :: u8] = unat (3 :: u32)" "\<not> (3 :: u32) > REQREP_STR_LEN_MASK"
    by (simp_all add: reqrep_consts)
  note t = try_send_alone [OF quiet_quiet_os d(1) len(1), of True]
  obtain r oid h' w' where e: "reqrep_try_send quiet_os h [1, 2, 3] 3 True w = Some (r, oid, h', w')"
    using t d(3) by (cases "reqrep_try_send quiet_os h [1, 2, 3] 3 True w") auto
  have "\<exists>s \<in> set (resp_area w). rs_state s = RESP_FREE"
    by (simp add: d(4) zero_resp_slot_def reqrep_consts)
  with t e d(2) len(2) have "h' = h" "\<exists>id'. oid = Some id' \<and> r = 1 \<and>
      queue_abs h w' = [([1, 2, 3], True, id')] \<and> awaiting h id' w'"
    by (auto split: option.splits)
  with e d(1) show ?thesis by blast
qed

section \<open>One request, end to end\<close>

text \<open>Two handles of one mapping, of a client and of a server.\<close>

definition same_map :: "ReqRepHandle \<Rightarrow> ReqRepHandle \<Rightarrow> bool" where
  "same_map h g \<longleftrightarrow> hn_req_cap g = hn_req_cap h \<and> hn_req_cap_mask g = hn_req_cap_mask h \<and>
     hn_req_arena_cap g = hn_req_arena_cap h \<and> hn_resp_slots g = hn_resp_slots h \<and>
     hn_resp_data_max g = hn_resp_data_max h"

lemma same_map_views:
  assumes "same_map h g"
  shows "queue_ok g w = queue_ok h w" "queue_abs g w = queue_abs h w" "slots_ok g w = slots_ok h w"
    "str_ok g w = str_ok h w" "awaiting g id' w = awaiting h id' w"
proof -
  have g: "hn_req_cap g = hn_req_cap h" "hn_req_cap_mask g = hn_req_cap_mask h"
    "hn_req_arena_cap g = hn_req_arena_cap h" "hn_resp_slots g = hn_resp_slots h"
    "hn_resp_data_max g = hn_resp_data_max h"
    using assms by (simp_all add: same_map_def)
  have idx: "ring_idx g = ring_idx h" by (simp add: fun_eq_iff ring_idx_def g)
  have ring: "ring_ok g = ring_ok h" by (simp add: ring_ok_def g)
  have lv: "live g w = live h w" by (simp add: live_def idx)
  show q: "queue_ok g w = queue_ok h w" "queue_abs g w = queue_abs h w"
    by (simp_all add: queue_ok_def queue_shape_def queue_abs_def lv ring g)
  have "slot_ok g = slot_ok h" by (simp add: fun_eq_iff slot_ok_def g)
  then show s: "slots_ok g w = slots_ok h w" by (simp add: slots_ok_def g)
  show "str_ok g w = str_ok h w" by (simp add: str_ok_def q s g)
  show "awaiting g id' w = awaiting h id' w" by (simp add: awaiting_def g)
qed

lemma rebuffered_same_map: "rebuffered h h' \<Longrightarrow> same_map h h'"
  by (simp add: same_map_def rebuffered_same)

text \<open>
  Property C6. One request, end to end, between a client and a server that run one after the
  other on the same mapping: when the queue is empty and a slot is free, sending succeeds,
  receiving yields the same bytes under the identifier the client holds, replying under it
  succeeds, and fetching gives the client the bytes of the reply; afterwards the queue is empty
  again, the slot is free and the mapping is in order.
\<close>

theorem request_reply_end_to_end:
  assumes "quiet oc" "quiet os'" and "\<And>p n. os_realloc oc p n" "\<And>p n. os_realloc os' p n"
    and "str_ok h w" "same_map h g" "copy_buf_ok h" "copy_buf_ok g"
    and "queue_abs h w = []" and "\<exists>s \<in> set (resp_area w). rs_state s = RESP_FREE"
    and "\<not> len > REQREP_STR_LEN_MASK" "length str = unat len" "unat len \<le> unat (hn_req_arena_cap h)"
    and "length ans = unat alen" "alen \<le> hn_resp_data_max h"
  shows "\<exists>id' w1 g' w2 w3 h' w4.
     reqrep_try_send oc h str len utf8 w = Some (1, Some id', h, w1) \<and>
     reqrep_try_recv os' g w1 =
       Some (1, Some \<lparr>ro_str = str, ro_len = len, ro_utf8 = utf8, ro_id = id'\<rparr>, g', w2) \<and>
     reqrep_reply os' g' id' ans alen autf8 w2 = Some (1, w3) \<and>
     reqrep_try_get oc h id' w3 =
       Some (1, Some \<lparr>gt_str = ans, gt_len = alen, gt_utf8 = autf8\<rparr>, h', w4) \<and>
     str_ok h w4 \<and> queue_abs h w4 = [] \<and>
     rs_state (resp_area w4 ! unat (REQREP_ID_SLOT id')) = RESP_FREE"
proof -
  obtain id' w1 where send: "reqrep_try_send oc h str len utf8 w = Some (1, Some id', h, w1)"
    "str_ok h w1" "queue_abs h w1 = [(str, utf8, id')]" "awaiting h id' w1"
    using try_send_cases [OF assms(1,5,11-13), where ?utf8.0 = utf8] assms(9,10)
    by (metis append_Nil)
  note view = same_map_views [OF assms(6)]
  obtain r g' w2 where recv: "reqrep_try_recv os' g w1 = Some (1, Some r, g', w2)"
    "queue_abs g w1 = (ro_str r, ro_utf8 r, ro_id r) # queue_abs g' w2"
    "length (ro_str r) = unat (ro_len r)" "str_ok g' w2" "copy_buf_ok g'" "rebuffered g g'"
    "resp_area w2 = resp_area w1"
    by (rule try_recv_cases [OF assms(2), of g w1]) (use send view assms(4,8) in auto)
  have r: "r = \<lparr>ro_str = str, ro_len = len, ro_utf8 = utf8, ro_id = id'\<rparr>" and nil: "queue_abs g' w2 = []"
  proof -
    have *: "ro_str r = str" "ro_utf8 r = utf8" "ro_id r = id'" "queue_abs g' w2 = []"
      using recv(2) send(3) view(2) by auto
    moreover have "ro_len r = len" using recv(3) *(1) assms(12) by (simp add: word_unat_eq_iff)
    ultimately show "r = \<lparr>ro_str = str, ro_len = len, ro_utf8 = utf8, ro_id = id'\<rparr>" by (cases r) simp
    show "queue_abs g' w2 = []" by (rule *(4))
  qed
  note view' = same_map_views [OF rebuffered_same_map [OF recv(6)]]
  let ?i = "REQREP_ID_SLOT id'" and ?w3 = "replied (REQREP_ID_SLOT id') ans alen autf8 w2"
  have ok2: "slots_ok g' w2" "str_ok h w2" using recv(4) view' view by (auto simp: str_ok_def)
  have aw: "awaiting h id' w2" using send(4) recv(7) by (simp add: awaiting_def)
  have lt: "?i < hn_resp_slots h" "\<not> hn_resp_data_max h < alen" using aw assms(15) by (auto simp: awaiting_def)
  have geo: "hn_resp_slots g' = hn_resp_slots h" "hn_resp_data_max g' = hn_resp_data_max h"
    using assms(6) rebuffered_same [OF recv(6)] by (simp_all add: same_map_def)
  have rep: "reqrep_reply os' g' id' ans alen autf8 w2 = Some (1, ?w3)"
    using reply_eq [OF assms(2) ok2(1) assms(14)] aw lt geo by (simp add: awaiting_def Let_def)
  have ok3: "slots_ok h ?w3"
    using ok2(2) by (intro slots_ok_replied lt assms(14)) (simp add: str_ok_def)
  have l: "unat ?i < length (resp_area w2)"
    using ok2(2) lt(1) slots_len [of h w2 ?i] by (simp add: str_ok_def not_le)
  define z where "z = resp_area ?w3 ! unat ?i"
  have z: "rs_generation z = REQREP_ID_GEN id'" "rs_state z = RESP_READY" "rs_resp_len z = alen"
    "take (unat alen) (rs_data z) = ans" "(rs_resp_flags z AND 1 \<noteq> 0) = autf8"
    using l aw assms(14) by (simp_all add: awaiting_def z_def)
  from try_get_after [OF assms(1) ok3 assms(7) assms(3) lt(1) z_def [symmetric] z(1,2)] obtain h' where
    get: "reqrep_try_get oc h id' ?w3 =
      Some (1, Some \<lparr>gt_str = ans, gt_len = alen, gt_utf8 = autf8\<rparr>, h', released ?i ?w3)"
    by (simp only: z) blast
  have l3: "unat ?i < length (resp_area ?w3)" using l by simp
  have ok4: "str_ok h (released ?i ?w3)"
    using ok2(2) slots_ok_released [OF ok3 l3]
    by (simp add: str_ok_def released_keeps) (simp add: replied_def wake_slot_def)
  have "queue_abs h (released ?i ?w3) = []" using nil view' view by simp
  moreover have "rs_state (resp_area (released ?i ?w3) ! unat ?i) = RESP_FREE" using l by simp
  ultimately show ?thesis using send(1) recv(1) rep get ok4 unfolding r by blast
qed

theorem request_reply_end_to_end_witness:
  "\<exists>h w id' w1 g' w2 w3 h' w4.
     reqrep_try_send quiet_os h [1, 2] 2 False w = Some (1, Some id', h, w1) \<and>
     reqrep_try_recv quiet_os h w1 =
       Some (1, Some \<lparr>ro_str = [1, 2], ro_len = 2, ro_utf8 = False, ro_id = id'\<rparr>, g', w2) \<and>
     reqrep_reply quiet_os g' id' [3] 1 True w2 = Some (1, w3) \<and>
     reqrep_try_get quiet_os h id' w3 =
       Some (1, Some \<lparr>gt_str = [3], gt_len = 1, gt_utf8 = True\<rparr>, h', w4)"
proof -
  obtain h w where d: "str_ok h w" "queue_abs h w = []" "copy_buf_ok h" "hn_resp_data_max h = 16"
    "hn_req_arena_cap h = 4096" "resp_area w = [zero_resp_slot 64]" using demo_str by metis
  have free: "\<exists>s \<in> set (resp_area w). rs_state s = RESP_FREE"
    using d(6) by (simp add: zero_resp_slot_def reqrep_consts)
  have m: "same_map h h" by (simp add: same_map_def)
  have g: "\<And>p n. os_realloc quiet_os p n" by (simp add: quiet_os_def)
  have len: "\<not> (2 :: u32) > REQREP_STR_LEN_MASK" "length [1, 2 :: u8] = unat (2 :: u32)"
    "unat (2 :: u32) \<le> unat (hn_req_arena_cap h)" "length [3 :: u8] = unat (1 :: u32)"
    "1 \<le> hn_resp_data_max h"
    using d(4,5) by (simp_all add: reqrep_consts)
  from request_reply_end_to_end [OF quiet_quiet_os quiet_quiet_os g g d(1) m d(3,3,2) free len,
      of False True] show ?thesis by blast
qed

section \<open>Waiting calls\<close>

definition send_inv :: "bytes \<Rightarrow> u32 \<Rightarrow> ReqRepHandle \<Rightarrow> shm \<Rightarrow> bool" where
  "send_inv str len h w \<longleftrightarrow> str_ok h w \<and> \<not> len > REQREP_STR_LEN_MASK \<and> length str = unat len \<and>
     unat len \<le> unat (hn_req_arena_cap h)"

lemma str_ok_add_waiters:
  assumes "str_ok h w"
  shows "str_ok h (add_waiters wt n w)"
proof -
  have hdr: "h_mutex (hdr (add_waiters wt n w)) = h_mutex (hdr w)"
    "h_resp_hint (hdr (add_waiters wt n w)) = h_resp_hint (hdr w)"
    "resp_area (add_waiters wt n w) = resp_area w"
    by (cases wt; simp)+
  show ?thesis
    using assms slots_ok_frame [OF hdr(3), of h] unfolding str_ok_def queue_wakes hdr by simp
qed

interpretation send_call: waiting_call "\<lambda>os h. reqrep_try_send os h str len utf8"
    "\<lambda>r. r = 1 \<or> r = -2" "\<lambda>r. if r = -3 then Wslot else Wsend" "send_inv str len"
proof
  fix os h w assume os: "quiet os" and i: "send_inv str len h w"
  then have "str_ok h w" "\<not> len > REQREP_STR_LEN_MASK" "length str = unat len"
    "unat len \<le> unat (hn_req_arena_cap h)" by (auto simp: send_inv_def)
  with os show "returns (reqrep_try_send os h str len utf8 w)
      (\<lambda>(r, out, h', w'). send_inv str len h' w' \<and> (\<forall>wt. waiters_of wt w' = waiters_of wt w))"
  proof (cases rule: try_send_cases [where ?utf8.0 = utf8])
    case no_slot
    then show ?thesis using i by simp
  next
    case (full w')
    then show ?thesis using i by (simp add: send_inv_def)
  next
    case (sent id' w')
    then show ?thesis using i by (simp add: send_inv_def)
  qed
next
  show "send_inv str len h w \<Longrightarrow> send_inv str len h (add_waiters wt n w)" for h w wt n
    by (simp add: send_inv_def str_ok_add_waiters)
qed

definition recv_inv :: "ReqRepHandle \<Rightarrow> shm \<Rightarrow> bool" where
  "recv_inv h w \<longleftrightarrow> str_ok h w \<and> copy_buf_ok h"

interpretation recv_call: waiting_call reqrep_try_recv "\<lambda>r. r \<noteq> 0" "\<lambda>_. Wrecv" recv_inv
proof
  fix os h w assume os: "quiet os" and i: "recv_inv h w"
  then have "str_ok h w" "copy_buf_ok h" by (auto simp: recv_inv_def)
  with os show "returns (reqrep_try_recv os h w)
      (\<lambda>(r, out, h', w'). recv_inv h' w' \<and> (\<forall>wt. waiters_of wt w' = waiters_of wt w))"
  proof (cases rule: try_recv_cases)
    case (empty w')
    then show ?thesis using i by (simp add: recv_inv_def)
  next
    case (oom w')
    then show ?thesis using i by (simp add: recv_inv_def)
  next
    case (received r h' w')
    then show ?thesis using i by (simp add: recv_inv_def)
  qed
next
  show "recv_inv h w \<Longrightarrow> recv_inv h (add_waiters wt n w)" for h w wt n
    by (simp add: recv_inv_def str_ok_add_waiters)
qed

text \<open>
  Property C23. The waiting send and the waiting receive return when the waits time out, whatever
  the timeout: within one round of the loop, with the mapping in order, the mutex free, and every
  waiter count as it was before the call.
\<close>

theorem waiting_calls_return:
  assumes "quiet os" and "\<And>p. os_futex os p = Some ETIMEDOUT"
    and "str_ok h w" and "copy_buf_ok h" and "\<not> len > REQREP_STR_LEN_MASK" "length str = unat len"
    and "unat len \<le> unat (hn_req_arena_cap h)"
  shows "returns (reqrep_send_wait str len utf8 timeout os h w)
           (\<lambda>(r, oid, h', w'). str_ok h' w' \<and> (\<forall>wt. waiters_of wt w' = waiters_of wt w)) \<and>
         returns (reqrep_recv_wait timeout os h w)
           (\<lambda>(r, out, h', w'). str_ok h' w' \<and> (\<forall>wt. waiters_of wt w' = waiters_of wt w))"
proof
  have s: "send_inv str len h w" and r: "recv_inv h w"
    using assms by (simp_all add: send_inv_def recv_inv_def)
  show "returns (reqrep_send_wait str len utf8 timeout os h w)
      (\<lambda>(r, oid, h', w'). str_ok h' w' \<and> (\<forall>wt. waiters_of wt w' = waiters_of wt w))"
    unfolding reqrep_send_wait_def
    by (rule returns_mono [OF send_call.waiting_returns [OF assms(1,2) s]]) (auto simp: send_inv_def)
  show "returns (reqrep_recv_wait timeout os h w)
      (\<lambda>(r, out, h', w'). str_ok h' w' \<and> (\<forall>wt. waiters_of wt w' = waiters_of wt w))"
    unfolding reqrep_recv_wait_def
    by (rule returns_mono [OF recv_call.waiting_returns [OF assms(1,2) r]]) (auto simp: recv_inv_def)
qed

theorem waiting_calls_return_witness:
  "\<exists>h w. str_ok h w \<and> returns (reqrep_recv_wait (1 / 2) quiet_os h w)
     (\<lambda>(r, out, h', w'). str_ok h' w' \<and> waiters_of Wrecv w' = 0)"
proof -
  obtain h w where d: "str_ok h w" "copy_buf_ok h" "hn_req_arena_cap h = 4096" "h_recv_waiters (hdr w) = 0"
    using demo_str by metis
  have t: "\<And>p. os_futex quiet_os p = Some ETIMEDOUT" by (simp add: quiet_os_def)
  have "returns (reqrep_recv_wait (1 / 2) quiet_os h w)
      (\<lambda>(r, out, h', w'). str_ok h' w' \<and> (\<forall>wt. waiters_of wt w' = waiters_of wt w))"
    using waiting_calls_return [OF quiet_quiet_os t d(1,2), of 0 "[]" undefined "1 / 2"]
    by (simp add: reqrep_consts)
  then have "returns (reqrep_recv_wait (1 / 2) quiet_os h w)
      (\<lambda>(r, out, h', w'). str_ok h' w' \<and> waiters_of Wrecv w' = 0)"
    by (rule returns_mono) (use d(4) in \<open>auto dest: spec [of _ Wrecv]\<close>)
  with d(1) show ?thesis by blast
qed

text \<open>An environment in which others act at two moments of the first round of a wait: a client
  sends one request just before the receiver registers as a waiter, and \<open>during\<close> is what others
  do to the mapping while the receiver is asleep. The sleep lasts until the timeout.\<close>

definition unlucky_os :: "ReqRepHandle \<Rightarrow> bytes \<Rightarrow> u32 \<Rightarrow> bool \<Rightarrow> (shm \<Rightarrow> shm) \<Rightarrow> os" where
  "unlucky_os g str len utf8 during = quiet_os\<lparr>os_run := \<lambda>p w.
     if p = [2, 0, 2]
     then (case reqrep_try_send quiet_os g str len utf8 w of None \<Rightarrow> w | Some (r, out, g', w') \<Rightarrow> w')
     else if p = [2, 0, 7] then during w else w\<rparr>"

text \<open>What a second receiver does to the mapping when it receives.\<close>

definition recv_effect :: "ReqRepHandle \<Rightarrow> shm \<Rightarrow> shm" where
  "recv_effect g w = (case reqrep_try_recv quiet_os g w of None \<Rightarrow> w | Some (r, out, g', w') \<Rightarrow> w')"

lemma unlucky_sub:
  "sub (unlucky_os g str len utf8 during) 0 = quiet_os"
  "sub (sub (sub (unlucky_os g str len utf8 during) 2) 0) 1 = quiet_os"
  "sub (sub (sub (unlucky_os g str len utf8 during) 2) 0) 8 = quiet_os"
  by (simp_all add: unlucky_os_def sub_def quiet_os_def)

lemma deadline_not_expired:
  assumes "rnd64 timeout = timeout" "0 < timeout" "valid_timespec now"
  shows "\<not> expired now (make_deadline_opt now timeout)"
  using assms frac_nanos_bounds(1) [of timeout]
  by (auto simp: expired_def make_deadline_opt_def make_deadline_split Let_def valid_timespec_def
      reqrep_remaining_time_def)

lemma recv_wait_unlucky:
  assumes "rnd64 timeout = timeout" "0 < timeout"
    and "reqrep_try_recv quiet_os h w = Some (0, None, h, w1)"
    and "reqrep_try_recv quiet_os h w1 = Some (0, None, h, w2)"
    and "reqrep_try_send quiet_os g str len utf8 w2 = Some (1, Some id', g, w3)"
    and "futex_value Wrecv w3 = futex_value Wrecv w1"
  shows "reqrep_recv_wait timeout (unlucky_os g str len utf8 during) h w =
    reqrep_try_recv quiet_os h (add_waiters Wrecv (-1) (during (add_waiters Wrecv 1 w3)))"
proof -
  let ?os = "unlucky_os g str len utf8 during"
  have now: "os_clock ?os p = \<lparr>tv_sec = 0, tv_nsec = 0\<rparr>" "os_fuel ?os p = Suc 0"
    "os_futex ?os p = Some ETIMEDOUT" for p
    by (simp_all add: unlucky_os_def quiet_os_def)
  have run: "os_run ?os [2, 0, 0] x = x" "os_run ?os [2, 0, 5] x = x" "os_run ?os [2, 0, 2] w2 = w3"
    "os_run ?os [2, 0, 7] x = during x" for x
    by (simp_all add: unlucky_os_def quiet_os_def [symmetric] assms(5))
  have ne: "\<not> expired \<lparr>tv_sec = 0, tv_nsec = 0\<rparr> (make_deadline_opt \<lparr>tv_sec = 0, tv_nsec = 0\<rparr> timeout)"
    using deadline_not_expired [OF assms(1,2)] by (simp add: valid_timespec_def)
  show ?thesis
    using assms(2-4,6) ne
    by (cases "reqrep_try_recv quiet_os h (add_waiters Wrecv (-1) (during (add_waiters Wrecv 1 w3)))")
      (auto simp: reqrep_recv_wait_def waiting_def unlucky_sub [unfolded One_nat_def] now run Let_def
        errno_after_def)
qed

text \<open>
  Property C32. A receiver can sleep beside a queue that holds a request. The loop of
  \<^verbatim>\<open>reqrep_recv_wait\<close> looks into the queue before it registers as a waiter and not again before
  it sleeps. When a client sends in between, it sees no waiter: it neither advances the futex word
  nor wakes anybody, the word still has the value the receiver read, and the receiver sleeps for
  its whole timeout on the mapping \<open>ws\<close>, registered, with the request in the queue. What the call
  returns is what a single attempt finds after that sleep, whatever the others do to the mapping
  during it; in particular, when a second receiver takes the request meanwhile, the call reports
  a timeout (0) although the request was there before it went to sleep.
\<close>

theorem recv_wait_lost_wakeup:
  assumes "str_ok h w" "copy_buf_ok h" "same_map h g" "same_map h g2" "copy_buf_ok g2"
    and "queue_abs h w = []" and "\<exists>s \<in> set (resp_area w). rs_state s = RESP_FREE"
    and "h_recv_waiters (hdr w) = 0" "h_mutex_waiters (hdr w) = 0"
    and "\<not> len > REQREP_STR_LEN_MASK" "length str = unat len" "unat len \<le> unat (hn_req_arena_cap h)"
    and "rnd64 timeout = timeout" "0 < timeout"
  shows "\<exists>ws id'. queue_abs h ws = [(str, utf8, id')] \<and> waiters_of Wrecv ws = 1 \<and>
     futex_value Wrecv ws = futex_value Wrecv w \<and> kcalls ws = kcalls w \<and>
     (\<forall>during. reqrep_recv_wait timeout (unlucky_os g str len utf8 during) h w =
        reqrep_try_recv quiet_os h (add_waiters Wrecv (-1) (during ws))) \<and>
     (\<exists>w'. reqrep_recv_wait timeout (unlucky_os g str len utf8 (recv_effect g2)) h w =
        Some (0, None, h, w'))"
proof -
  note q = quiet_quiet_os
  obtain w1 where r1: "reqrep_try_recv quiet_os h w = Some (0, None, h, w1)" "str_ok h w1"
    "queue_abs h w1 = []" "resp_area w1 = resp_area w" "h_recv_futex (hdr w1) = h_recv_futex (hdr w)"
    "h_recv_waiters (hdr w1) = 0" "h_mutex_waiters (hdr w1) = 0" "kcalls w1 = kcalls w"
    by (rule try_recv_cases [OF q assms(1,2)]) (use assms(6,8,9) in auto)
  obtain w2 where r2: "reqrep_try_recv quiet_os h w1 = Some (0, None, h, w2)" "str_ok h w2"
    "queue_abs h w2 = []" "resp_area w2 = resp_area w" "h_recv_futex (hdr w2) = h_recv_futex (hdr w)"
    "h_recv_waiters (hdr w2) = 0" "h_mutex_waiters (hdr w2) = 0" "kcalls w2 = kcalls w"
    by (rule try_recv_cases [OF q r1(2) assms(2)]) (use r1 in auto)
  note view = same_map_views [OF assms(3)] and view2 = same_map_views [OF assms(4)]
  have cap: "hn_req_arena_cap g = hn_req_arena_cap h" using assms(3) by (simp add: same_map_def)
  obtain id' w3 where s: "reqrep_try_send quiet_os g str len utf8 w2 = Some (1, Some id', g, w3)"
    "queue_abs g w3 = [(str, utf8, id')]" "no_wakeups w2 w3" "str_ok g w3"
    by (rule try_send_cases [OF q, of g w2 len str, where ?utf8.0 = utf8])
      (use r2 assms(7,10-12) view cap in auto)
  let ?ws = "add_waiters Wrecv 1 w3"
  have fut: "h_recv_futex (hdr w3) = h_recv_futex (hdr w)" "kcalls w3 = kcalls w" "h_recv_waiters (hdr w3) = 0"
    using s(3) r2(5,8) by (simp_all add: no_wakeups_def)
  have run: "reqrep_recv_wait timeout (unlucky_os g str len utf8 during) h w =
      reqrep_try_recv quiet_os h (add_waiters Wrecv (-1) (during ?ws))" for during
    by (rule recv_wait_unlucky [OF assms(13,14) r1(1) r2(1) s(1)]) (simp add: fut r1(5))
  have qs: "queue_abs h ?ws = [(str, utf8, id')]"
    using s(2) view(2) [of w3] unfolding queue_wakes by simp
  have "str_ok h ?ws" using s(4) unfolding view(4) by (rule str_ok_add_waiters)
  then have ok2: "str_ok g2 ?ws" and q2: "queue_abs g2 ?ws = [(str, utf8, id')]"
    using view2 qs by simp_all
  obtain r g' w4 where t: "reqrep_try_recv quiet_os g2 ?ws = Some (1, Some r, g', w4)"
    "queue_abs g' w4 = []" "str_ok g' w4" "rebuffered g2 g'"
    by (rule try_recv_cases [OF q ok2 assms(5)]) (use q2 in \<open>auto simp: quiet_os_def\<close>)
  have eff: "recv_effect g2 ?ws = w4" using t(1) by (simp add: recv_effect_def)
  let ?w5 = "add_waiters Wrecv (-1) w4"
  have m: "same_map h g'" using assms(4) rebuffered_same [OF t(4)] by (simp add: same_map_def)
  have "str_ok h w4" "queue_abs h w4 = []" using same_map_views [OF m] t(2,3) by simp_all
  then have w5: "str_ok h ?w5" "queue_abs h ?w5 = []" unfolding queue_wakes
    by (auto intro: str_ok_add_waiters simp del: add_waiters.simps)
  obtain w' where "reqrep_try_recv quiet_os h ?w5 = Some (0, None, h, w')"
    by (rule try_recv_cases [OF q w5(1) assms(2)]) (use w5(2) in \<open>auto simp del: add_waiters.simps\<close>)
  then have "\<exists>w'. reqrep_recv_wait timeout (unlucky_os g str len utf8 (recv_effect g2)) h w =
      Some (0, None, h, w')" by (simp only: run eff) blast
  with run qs fut show ?thesis
    by (intro exI [of _ ?ws] exI [of _ id']) simp
qed

theorem recv_wait_lost_wakeup_witness:
  "\<exists>h w w'. queue_abs h w = [] \<and>
     reqrep_recv_wait 1 (unlucky_os h [9] 1 False (recv_effect h)) h w = Some (0, None, h, w')"
proof -
  obtain h w where d: "str_ok h w" "queue_abs h w = []" "copy_buf_ok h" "hn_req_arena_cap h = 4096"
    "resp_area w = [zero_resp_slot 64]" "h_recv_waiters (hdr w) = 0" "h_mutex_waiters (hdr w) = 0"
    using demo_str by metis
  have free: "\<exists>s \<in> set (resp_area w). rs_state s = RESP_FREE"
    using d(5) by (simp add: zero_resp_slot_def reqrep_consts)
  have m: "same_map h h" by (simp add: same_map_def)
  have len: "\<not> (1 :: u32) > REQREP_STR_LEN_MASK" "length [9 :: u8] = unat (1 :: u32)"
    "unat (1 :: u32) \<le> unat (hn_req_arena_cap h)" using d(4) by (simp_all add: reqrep_consts)
  have t: "rnd64 1 = 1" "0 < (1 :: real)" using rnd64_int [of 1] by simp_all
  from recv_wait_lost_wakeup [OF d(1,3) m m d(3) d(2) free d(6,7) len t, of False] d(2)
  show ?thesis by blast
qed

section \<open>Clearing\<close>

text \<open>A slot after a clear.\<close>

definition cleared :: "RespSlot \<Rightarrow> RespSlot" where
  "cleared s = (if rs_state s \<in> {RESP_ACQUIRED, RESP_READY}
     then s\<lparr>rs_state := RESP_FREE, rs_owner_pid := 0, rs_generation := rs_generation s + 1\<rparr> else s)"

definition clear_wakes :: "u32 \<Rightarrow> RespSlot \<Rightarrow> kcall list" where
  "clear_wakes idx s = (if rs_state s \<in> {RESP_ACQUIRED, RESP_READY} \<and> rs_waiters s > 0
     then [FUTEX_WAKE (Fresp idx) INT_MAX] else [])"

lemma clear_slot_alone:
  assumes "quiet os" "unat idx < length (resp_area w)"
  shows "clear_slot_loop os idx (Suc fuel) k (rs_state (resp_area w ! unat idx)) w =
     Some (w\<lparr>resp_area := (resp_area w)[unat idx := cleared (resp_area w ! unat idx)],
             kcalls := kcalls w @ clear_wakes idx (resp_area w ! unat idx)\<rparr>)"
  using assms
  by (auto simp: Let_def quiet_resp_slot cleared_def clear_wakes_def set_resp_slot_def kcall_def)

lemma clear_slots_alone:
  assumes "quiet os" "a \<le> length (resp_area w)" "length (resp_area w) = unat (n :: u32)"
  shows "clear_slots os [a..<unat n] w = Some (w\<lparr>
     resp_area := take a (resp_area w) @ map cleared (drop a (resp_area w)),
     kcalls := kcalls w @ concat (map (\<lambda>i. clear_wakes (of_nat i) (resp_area w ! i)) [a..<unat n])\<rparr>)"
  using assms
proof (induction "unat n - a" arbitrary: a w)
  case 0
  then show ?case by simp
next
  case (Suc m)
  then have a: "a < unat n" by simp
  have ia: "unat (of_nat a :: u32) = a" using of_nat_in_range [OF a] .
  let ?s = "resp_area w ! a"
  let ?w1 = "w\<lparr>resp_area := (resp_area w)[a := cleared ?s],
               kcalls := kcalls w @ clear_wakes (of_nat a) ?s\<rparr>"
  obtain f where f: "os_fuel os [a] = Suc f" using quiet_fuel [OF Suc.prems(1)] by blast
  have step: "clear_slot_loop (sub (sub os a) 1) (of_nat a) (os_fuel os [a]) 0 (rs_state ?s) w = Some ?w1"
    unfolding f using clear_slot_alone [OF quiet_sub [OF quiet_sub [OF Suc.prems(1)]], of "of_nat a" w] a
      Suc.prems(3) ia by simp
  have "clear_slots os [Suc a..<unat n] ?w1 = Some (?w1\<lparr>
     resp_area := take (Suc a) (resp_area ?w1) @ map cleared (drop (Suc a) (resp_area ?w1)),
     kcalls := kcalls ?w1 @ concat (map (\<lambda>i. clear_wakes (of_nat i) (resp_area ?w1 ! i)) [Suc a..<unat n])\<rparr>)"
    by (rule Suc.hyps(1)) (use Suc a in simp_all)
  moreover have "take (Suc a) ((resp_area w)[a := cleared ?s]) @ map cleared (drop (Suc a) (resp_area w)) =
      take a (resp_area w) @ map cleared (drop a (resp_area w))"
    using a Suc.prems(3) by (simp add: take_Suc_conv_app_nth take_update_swap Cons_nth_drop_Suc [symmetric] list_update_append)
  moreover have "map (\<lambda>i. clear_wakes (of_nat i) ((resp_area w)[a := cleared ?s] ! i)) [Suc a..<unat n] =
      map (\<lambda>i. clear_wakes (of_nat i) (resp_area w ! i)) [Suc a..<unat n]"
    by (rule map_cong) auto
  ultimately show ?case
    using Suc.prems(1,3) a step ia
    by (simp add: upt_conv_Cons quiet_resp_slot Let_def)
qed

lemma wakes_frame:
  "\<exists>a. hdr (reqrep_wake_slot_waiters w) = (hdr w)\<lparr>h_slot_futex := a\<rparr>"
  "\<exists>a. hdr (reqrep_wake_producers w) = (hdr w)\<lparr>h_send_futex := a\<rparr>"
  "\<exists>a. hdr (reqrep_wake_consumers w) = (hdr w)\<lparr>h_recv_futex := a\<rparr>"
proof -
  show "\<exists>a. hdr (reqrep_wake_slot_waiters w) = (hdr w)\<lparr>h_slot_futex := a\<rparr>"
    by (intro exI [of _ "h_slot_futex (hdr (reqrep_wake_slot_waiters w))"]) (simp add: wake_defs)
  show "\<exists>a. hdr (reqrep_wake_producers w) = (hdr w)\<lparr>h_send_futex := a\<rparr>"
    by (intro exI [of _ "h_send_futex (hdr (reqrep_wake_producers w))"]) (simp add: wake_defs)
  show "\<exists>a. hdr (reqrep_wake_consumers w) = (hdr w)\<lparr>h_recv_futex := a\<rparr>"
    by (intro exI [of _ "h_recv_futex (hdr (reqrep_wake_consumers w))"]) (simp add: wake_defs)
qed

text \<open>Freeing every slot and waking everybody: what changes, and that nothing else does.\<close>

lemma clear_responses_alone:
  assumes os: "quiet os" and ok: "slots_ok h w"
  obtains w' a b c where "clear_responses os h w = Some w'"
    "hdr w' = (hdr w)\<lparr>h_slot_futex := a, h_send_futex := b, h_recv_futex := c\<rparr>"
    "resp_area w' = map cleared (resp_area w)" "req_slots w' = req_slots w"
    "int_slots w' = int_slots w" "req_arena w' = req_arena w"
proof -
  let ?n = "hn_resp_slots h"
  have len: "length (resp_area w) = unat ?n" using ok by (simp add: slots_ok_def)
  define w1 where "w1 = w\<lparr>resp_area := map cleared (resp_area w), kcalls := kcalls w @
     concat (map (\<lambda>i. clear_wakes (of_nat i) (resp_area w ! i)) [0..<unat ?n])\<rparr>"
  have cs: "clear_slots (sub os 0) [0..<unat ?n] w = Some w1"
    using clear_slots_alone [OF quiet_sub [OF os], of 0 w ?n 0] len by (simp add: w1_def)
  define w2 where "w2 = reqrep_wake_slot_waiters w1"
  define w3 where "w3 = reqrep_wake_producers w2"
  obtain a where a: "hdr w2 = (hdr w)\<lparr>h_slot_futex := a\<rparr>"
    using wakes_frame(1) [of w1] by (auto simp: w2_def w1_def)
  obtain b where b: "hdr w3 = (hdr w2)\<lparr>h_send_futex := b\<rparr>"
    using wakes_frame(2) [of w2] by (auto simp: w3_def)
  obtain c where c: "hdr (reqrep_wake_consumers w3) = (hdr w3)\<lparr>h_recv_futex := c\<rparr>"
    using wakes_frame(3) [of w3] by auto
  have run: "clear_responses os h w = Some (reqrep_wake_consumers w3)"
    using os cs by (simp add: clear_responses_def w3_def w2_def Let_def)
  show thesis
    by (rule that [OF run, of c b a])
      (simp_all add: c b a, simp_all add: w3_def w2_def w1_def wake_defs)
qed

lemma queue_reset:
  assumes "queue_ok h w"
  shows "queue_ok h (hdr_update (\<lambda>x. x\<lparr>h_req_head := 0, h_req_tail := 0, h_arena_wpos := 0,
           h_arena_used := 0\<rparr>) w)"
    and "queue_abs h (hdr_update (\<lambda>x. x\<lparr>h_req_head := 0, h_req_tail := 0, h_arena_wpos := 0,
           h_arena_used := 0\<rparr>) w) = []"
proof -
  let ?w = "hdr_update (\<lambda>x. x\<lparr>h_req_head := 0, h_req_tail := 0, h_arena_wpos := 0, h_arena_used := 0\<rparr>) w"
  have lv: "live h ?w = []" using live_Nil [of h ?w] by simp
  then show "queue_abs h ?w = []" by (simp add: queue_abs_def)
  show "queue_ok h ?w"
    using assms lv by (simp add: queue_ok_def queue_shape_def queue_count_def)
qed

lemma slots_ok_cleared:
  assumes "slots_ok h w" "resp_area w' = map cleared (resp_area w)"
  shows "slots_ok h w'"
proof -
  have "slot_ok h s \<Longrightarrow> slot_ok h (cleared s)" for s by (auto simp: slot_ok_def cleared_def)
  with assms show ?thesis by (auto simp: slots_ok_def)
qed

text \<open>
  Property C18. Clearing alone empties the queue and frees every response slot; each slot that was
  in use has its owner erased and its generation advanced, so every identifier outstanding
  before the call is stale after it; the mapping is in order and the mutex free.
\<close>

theorem clear_alone:
  assumes "quiet os" and "str_ok h w"
  shows "returns (reqrep_clear os h w) (\<lambda>w'. str_ok h w' \<and> queue_abs h w' = [] \<and>
     resp_area w' = map cleared (resp_area w) \<and> (\<forall>s \<in> set (resp_area w'). rs_state s = RESP_FREE) \<and>
     (\<forall>i < length (resp_area w). rs_state (resp_area w ! i) \<noteq> RESP_FREE \<longrightarrow>
        rs_generation (resp_area w' ! i) \<noteq> rs_generation (resp_area w ! i)))"
proof -
  have parts: "queue_ok h w" "slots_ok h w" "h_mutex (hdr w) = 0" using assms(2) by (auto simp: str_ok_def)
  have q: "quiet (sub os k)" for k using assms(1) by simp
  let ?reset = "\<lambda>x. x\<lparr>h_req_head := 0, h_req_tail := 0, h_arena_wpos := 0, h_arena_used := 0\<rparr>"
  let ?n = "hn_resp_slots h"
  define w1 where "w1 = hdr_update (\<lambda>x. x\<lparr>h_mutex := REQREP_MUTEX_VAL (os_pid os)\<rparr>) w"
  have lk: "reqrep_mutex_lock (sub os 0) w = Some w1"
    using lock_alone [OF q, of w] parts(3) by (simp add: w1_def)
  have w1: "queue_ok h w1" "resp_area w1 = resp_area w" "h_resp_hint (hdr w1) = h_resp_hint (hdr w)"
    using parts(1) by (simp_all add: w1_def)
  define w2 where "w2 = hdr_update ?reset w1"
  have w2: "queue_ok h w2" "queue_abs h w2 = []" "resp_area w2 = resp_area w"
    "h_resp_hint (hdr w2) = h_resp_hint (hdr w)"
    unfolding w2_def using queue_reset [OF w1(1)] w1(2,3) by simp_all
  define w3 where "w3 = reqrep_mutex_unlock (sub os 1) w2"
  note u = unlock_keeps [OF q [of 1], where w = w2, folded w3_def]
  have s3: "slots_ok h w3" using parts(2) slots_ok_frame [of w2 w] by (simp add: u w2)
  obtain w' a b c where cr: "clear_responses (sub os 2) h w3 = Some w'"
    "hdr w' = (hdr w3)\<lparr>h_slot_futex := a, h_send_futex := b, h_recv_futex := c\<rparr>"
    "resp_area w' = map cleared (resp_area w3)" "req_slots w' = req_slots w3"
    "req_arena w' = req_arena w3"
    by (rule clear_responses_alone [OF q [of 2] s3])
  have run: "reqrep_clear os h w = Some w'"
    using lk cr(1) unfolding w3_def by (simp add: reqrep_clear_def w2_def [symmetric])
  have area: "resp_area w' = map cleared (resp_area w)" by (simp add: cr(3) u w2)
  have q4: "queue_ok h w' = queue_ok h w3" "queue_abs h w' = queue_abs h w3"
    by (rule queue_frame; simp add: cr)+
  have "str_ok h w'"
    using slots_ok_cleared [OF parts(2) area] assms(2) w2
    by (simp add: str_ok_def q4 u cr(2))
  moreover have "queue_abs h w' = []" by (simp add: q4 u w2)
  moreover have "\<forall>s \<in> set (resp_area w'). rs_state s = RESP_FREE"
    using parts(2) unfolding area by (auto simp: cleared_def slots_ok_def slot_ok_def)
  moreover have "\<forall>i < length (resp_area w). rs_state (resp_area w ! i) \<noteq> RESP_FREE \<longrightarrow>
      rs_generation (resp_area w' ! i) \<noteq> rs_generation (resp_area w ! i)"
    using parts(2) unfolding area by (auto simp: cleared_def slots_ok_def slot_ok_def dest: nth_mem)
  ultimately show ?thesis using run area by simp
qed

theorem clear_alone_witness:
  "\<exists>h w. str_ok h w \<and> returns (reqrep_clear quiet_os h w) (\<lambda>w'. str_ok h w' \<and> queue_abs h w' = [])"
proof -
  obtain h w where d: "str_ok h w" using demo_str by metis
  from clear_alone [OF quiet_quiet_os d] have "returns (reqrep_clear quiet_os h w)
      (\<lambda>w'. str_ok h w' \<and> queue_abs h w' = [])" by (rule returns_mono) simp
  with d show ?thesis by blast
qed

section \<open>Fetching with a wait, and the combined request\<close>

lemma slot_waiters_alone:
  assumes "unat (REQREP_ID_SLOT id') < length (resp_area w)"
  shows "slot_waiters id' 1 w = Some (set_resp_slot (REQREP_ID_SLOT id')
      ((resp_area w ! unat (REQREP_ID_SLOT id'))\<lparr>rs_waiters :=
         rs_waiters (resp_area w ! unat (REQREP_ID_SLOT id')) + 1\<rparr>) w)"
    and "slot_waiters id' (-1) (set_resp_slot (REQREP_ID_SLOT id')
      ((resp_area w ! unat (REQREP_ID_SLOT id'))\<lparr>rs_waiters :=
         rs_waiters (resp_area w ! unat (REQREP_ID_SLOT id')) + 1\<rparr>) w) = Some w"
proof -
  let ?i = "REQREP_ID_SLOT id'" and ?s = "resp_area w ! unat (REQREP_ID_SLOT id')"
  show "slot_waiters id' 1 w = Some (set_resp_slot ?i (?s\<lparr>rs_waiters := rs_waiters ?s + 1\<rparr>) w)"
    using assms by (simp add: slot_waiters_def)
  have "?s\<lparr>rs_waiters := rs_waiters ?s\<rparr> = ?s" by (cases ?s) simp
  then have "set_resp_slot ?i (?s\<lparr>rs_waiters := rs_waiters ?s\<rparr>) w = w"
    by (simp add: set_resp_slot_def)
  then show "slot_waiters id' (-1) (set_resp_slot ?i (?s\<lparr>rs_waiters := rs_waiters ?s + 1\<rparr>) w) = Some w"
    using assms by (simp add: slot_waiters_def)
qed

text \<open>A request that nobody answers: the loop ends in the first round that finds the deadline
  passed, and leaves the mapping as it found it.\<close>

lemma get_loop_times_out:
  assumes "quiet os" and "slots_ok h w" and "awaiting h id' w"
    and pending: "\<And>o'. quiet o' \<Longrightarrow> fetch o' h w = Some (0, None, h, w)"
    and "k \<le> j" "j < k + fuel" "expired (os_clock os [j, 8]) deadline"
  shows "get_loop fetch id' os fuel k deadline h w = Some (0, None, h, w)"
  using assms(5-7)
proof (induction fuel arbitrary: k)
  case (Suc fuel)
  let ?i = "REQREP_ID_SLOT id'"
  have aw: "?i < hn_resp_slots h" "rs_state (resp_area w ! unat ?i) = RESP_ACQUIRED"
    "rs_generation (resp_area w ! unat ?i) = REQREP_ID_GEN id'"
    using assms(3) by (auto simp: awaiting_def)
  have l: "unat ?i < length (resp_area w)" using slots_len [OF assms(2)] aw(1) by (simp add: not_le)
  show ?case
  proof (cases "expired (os_clock os [k, 8]) deadline")
    case True
    with assms(1) l aw slot_waiters_alone [OF l] show ?thesis
      by (simp add: Let_def quiet_resp_slot)
  next
    case False
    then have "k \<noteq> j" using Suc.prems(3) by blast
    then have "get_loop fetch id' os fuel (Suc k) deadline h w = Some (0, None, h, w)"
      using Suc by simp
    with False assms(1) l aw slot_waiters_alone [OF l] pending show ?thesis
      by (simp add: Let_def quiet_resp_slot)
  qed
qed simp

lemma awaiting_cancel:
  assumes "quiet os" "slots_ok h w" "awaiting h id' w"
  shows "reqrep_cancel os h id' w = Some (cancelled (REQREP_ID_SLOT id') w)"
    "slots_ok h (cancelled (REQREP_ID_SLOT id') w)"
    "rs_generation (resp_area (cancelled (REQREP_ID_SLOT id') w) ! unat (REQREP_ID_SLOT id')) =
       REQREP_ID_GEN id' + 1"
proof -
  let ?i = "REQREP_ID_SLOT id'"
  have lt: "?i < hn_resp_slots h" using assms(3) by (simp add: awaiting_def)
  have l: "unat ?i < length (resp_area w)" using slots_len [OF assms(2)] lt by (simp add: not_le)
  show c: "reqrep_cancel os h id' w = Some (cancelled ?i w)"
    using cancel_alone [OF assms(1,2), of id'] assms(3) lt
    by (simp add: awaiting_def Let_def word_le_nat_alt word_less_nat_alt)
  show "slots_ok h (cancelled ?i w)"
    using cancel_safe [OF keeps_quiet [OF assms(1)] assms(2), of id'] c by simp
  show "rs_generation (resp_area (cancelled ?i w) ! unat ?i) = REQREP_ID_GEN id' + 1"
    using l assms(3) by (simp add: awaiting_def)
qed

text \<open>The combined request of either mode, from the moment its request is sent: it gives up at
  the deadline, cancels, and finds nothing to drain.\<close>

lemma requesting_times_out:
  assumes os: "quiet os" and ok: "slots_ok h w1" and aw: "awaiting h id' w1" and "0 < timeout"
    and send: "send (sub os 1) h w = Some (1, Some id', h, w1)"
    and pending: "\<And>o'. quiet o' \<Longrightarrow> fetch id' o' h w1 = Some (0, None, h, w1)"
    and stale: "\<And>o'. quiet o' \<Longrightarrow> fetch id' o' h (cancelled (REQREP_ID_SLOT id') w1) =
      Some (-4, None, h, cancelled (REQREP_ID_SLOT id') w1)"
  defines "T \<equiv> time_left (os_clock os [2]) (make_deadline_opt (os_clock os [0]) timeout) timeout"
  assumes late: "T \<le> 0 \<or> (\<exists>j < os_fuel os [4]. expired (os_clock os [4, 2, j, 8])
      (make_deadline_opt (os_clock os [4, 1]) T))"
  shows "requesting send (\<lambda>id'. getting (fetch id') id') fetch timeout os h w =
     Some (0, None, h, cancelled (REQREP_ID_SLOT id') w1)"
proof -
  have q: "quiet (sub os k)" "quiet (sub (sub os k) j)" for k j using os by simp_all
  note c = awaiting_cancel [OF q(1) ok aw]
  show ?thesis
  proof (cases "T \<le> 0")
    case True
    with assms(4) send c(1) [of 3] show ?thesis
      by (simp add: requesting_def Let_def T_def make_deadline_opt_def)
  next
    case False
    with late obtain j where j: "j < os_fuel os [4]" "expired (os_clock os [4, 2, j, 8])
      (make_deadline_opt (os_clock os [4, 1]) T)" by blast
    have "get_loop (fetch id') id' (sub (sub os 4) 2) (os_fuel os [4]) 0
        (make_deadline_opt (os_clock os [4, 1]) T) h w1 = Some (0, None, h, w1)"
      by (rule get_loop_times_out [OF q(2) ok aw, of _ 0 j]) (use j pending in simp_all)
    then have gw: "getting (fetch id') id' T (sub os 4) h w1 = Some (0, None, h, w1)"
      using pending [OF q(2)] False by (simp add: getting_def)
    with False assms(4) send c(1) [of 5] stale [OF q(1)] show ?thesis
      by (simp add: requesting_def Let_def T_def [symmetric])
  qed
qed

lemma cancelled_keeps:
  "queue_ok h (cancelled i w) = queue_ok h w" "queue_abs h (cancelled i w) = queue_abs h w"
  "h_mutex (hdr (cancelled i w)) = h_mutex (hdr w)" "h_resp_hint (hdr (cancelled i w)) = h_resp_hint (hdr w)"
  by (simp_all add: cancelled_def) (simp_all add: wake_defs wake_slot_def)

text \<open>
  Property C15. A combined request that nobody answers gives up at its deadline and cleans up: it
  returns 0, the response slot it took is free again with its generation advanced, so a late
  reply is refused as stale, every other slot is untouched and the mapping is in order.
\<close>

theorem request_timeout_cleans_up:
  assumes os: "quiet os" and ok: "str_ok h w" "copy_buf_ok h" and "queue_abs h w = []"
    and free: "\<exists>s \<in> set (resp_area w). rs_state s = RESP_FREE"
    and len: "\<not> len > REQREP_STR_LEN_MASK" "length str = unat len" "unat len \<le> unat (hn_req_arena_cap h)"
    and "0 < timeout"
  defines "T \<equiv> time_left (os_clock os [2]) (make_deadline_opt (os_clock os [0]) timeout) timeout"
  assumes "T \<le> 0 \<or> (\<exists>j < os_fuel os [4]. expired (os_clock os [4, 2, j, 8])
      (make_deadline_opt (os_clock os [4, 1]) T))"
  shows "\<exists>id' w'. reqrep_request str len utf8 timeout os h w = Some (0, None, h, w') \<and> str_ok h w' \<and>
     queue_abs h w' = [(str, utf8, id')] \<and>
     rs_state (resp_area w' ! unat (REQREP_ID_SLOT id')) = RESP_FREE \<and>
     rs_generation (resp_area w' ! unat (REQREP_ID_SLOT id')) = REQREP_ID_GEN id' + 1 \<and>
     (\<forall>j < length (resp_area w). j \<noteq> unat (REQREP_ID_SLOT id') \<longrightarrow> resp_area w' ! j = resp_area w ! j)"
proof -
  have q: "quiet (sub os k)" "quiet (sub (sub os k) j)" "quiet (sub (sub (sub os k) j) i)" for k j i
    using os by simp_all
  obtain id' w1 where send: "reqrep_try_send (sub (sub os 1) 0) h str len utf8 w = Some (1, Some id', h, w1)"
    "str_ok h w1" "queue_abs h w1 = [(str, utf8, id')]" "awaiting h id' w1"
    "\<forall>j < length (resp_area w). j \<noteq> unat (REQREP_ID_SLOT id') \<longrightarrow> resp_area w1 ! j = resp_area w ! j"
    by (rule try_send_cases [OF q(2) ok(1) len, where ?utf8.0 = utf8]) (use assms(4) free in auto)
  have sw: "reqrep_send_wait str len utf8 timeout (sub os 1) h w = Some (1, Some id', h, w1)"
    using send(1) by (simp add: reqrep_send_wait_def waiting_def)
  let ?i = "REQREP_ID_SLOT id'" and ?w2 = "cancelled (REQREP_ID_SLOT id') w1"
  have s1: "slots_ok h w1" using send(2) by (simp add: str_ok_def)
  have lt: "?i < hn_resp_slots h" and l: "unat ?i < length (resp_area w1)"
    using send(4) slots_len [OF s1, of ?i] by (auto simp: awaiting_def not_le)
  note c = awaiting_cancel [OF q(1) s1 send(4)]
  have ok2: "str_ok h ?w2" using send(2) c(2) by (simp add: str_ok_def cancelled_keeps)
  have pending: "reqrep_try_get o' h id' w1 = Some (0, None, h, w1)" if "quiet o'" for o'
    using try_get_eq(3) [OF that s1 ok(2) lt] send(4) by (simp add: awaiting_def)
  have stale: "reqrep_try_get o' h id' ?w2 = Some (-4, None, h, ?w2)" if "quiet o'" for o'
    using try_get_eq(2) [OF that c(2) ok(2) lt] c(3) by simp
  have run: "reqrep_request str len utf8 timeout os h w = Some (0, None, h, ?w2)"
    unfolding reqrep_request_def reqrep_get_wait_def
    by (rule requesting_times_out [OF os s1 send(4) assms(9)])
      (use sw pending stale assms(11) in \<open>simp_all add: T_def\<close>)
  have "\<forall>j < length (resp_area w). j \<noteq> unat ?i \<longrightarrow> resp_area ?w2 ! j = resp_area w ! j"
    using send(5) by simp
  moreover have "rs_state (resp_area ?w2 ! unat ?i) = RESP_FREE" using l by simp
  ultimately show ?thesis
    using run ok2 send(3) c(3) by (intro exI [of _ id'] exI [of _ ?w2]) (simp add: cancelled_keeps)
qed

theorem request_timeout_cleans_up_witness:
  "\<exists>os h w id' w'. reqrep_request [1] 1 False 1 os h w = Some (0, None, h, w') \<and>
     queue_abs h w' = [([1], False, id')] \<and>
     rs_state (resp_area w' ! unat (REQREP_ID_SLOT id')) = RESP_FREE"
proof -
  let ?os = "quiet_os\<lparr>os_clock := \<lambda>p. if p = [4, 2, 0, 8] then \<lparr>tv_sec = 100, tv_nsec = 0\<rparr>
       else \<lparr>tv_sec = 0, tv_nsec = 0\<rparr>\<rparr>"
  obtain h w where d: "str_ok h w" "queue_abs h w = []" "copy_buf_ok h" "hn_req_arena_cap h = 4096"
    "resp_area w = [zero_resp_slot 64]" using demo_str by metis
  have q: "quiet ?os" by (simp add: quiet_def quiet_os_def)
  have free: "\<exists>s \<in> set (resp_area w). rs_state s = RESP_FREE"
    using d(5) by (simp add: zero_resp_slot_def reqrep_consts)
  have len: "\<not> (1 :: u32) > REQREP_STR_LEN_MASK" "length [1 :: u8] = unat (1 :: u32)"
    "unat (1 :: u32) \<le> unat (hn_req_arena_cap h)" using d(4) by (simp_all add: reqrep_consts)
  have dl: "reqrep_make_deadline \<lparr>tv_sec = 0, tv_nsec = 0\<rparr> 1 = \<lparr>tv_sec = 1, tv_nsec = 0\<rparr>"
    using rnd64_int [of 1] by (simp add: make_deadline_split frac_nanos_def)
  have T: "time_left (os_clock ?os [2]) (make_deadline_opt (os_clock ?os [0]) 1) 1 = 1"
    using rnd64_int [of 1] by (simp add: time_left_def make_deadline_opt_def dl)
  have "expired (os_clock ?os [4, 2, 0, 8]) (make_deadline_opt (os_clock ?os [4, 1]) 1)"
    by (simp add: expired_def make_deadline_opt_def dl reqrep_remaining_time_def)
  moreover have "0 < os_fuel ?os [4]" by (simp add: quiet_os_def)
  ultimately show ?thesis
    using request_timeout_cleans_up [OF q d(1,3,2) free len, of 1 False] unfolding T by fastforce
qed

end
