(* ===== verification/RR_Int.thy ===== *)
theory RR_Int
  imports RR_Transport
begin

text \<open>
  Integer mode (\<^verbatim>\<open>gen/reqrep.h\<close>, lines 1346 to 1615): the lock-free bounded queue of sequence
  numbers, replies of one 64-bit integer, and the waiting, combined and clearing operations over
  them, which share their loops with string mode. The \<^verbatim>\<open>int64_t\<close> values are kept as 64-bit words.

  The code subtracts positions as signed 64-bit integers; the model takes the two's complement
  value of the difference. The two agree unless the difference leaves the signed range, which
  takes \<open>2 ^ 63\<close> operations.
\<close>

section \<open>Requests\<close>

definition int_slot :: "ReqRepHandle \<Rightarrow> u64 \<Rightarrow> nat" where
  "int_slot h pos = unat (pos AND ucast (hn_req_cap_mask h))"

definition upd_int :: "nat \<Rightarrow> (ReqIntSlot \<Rightarrow> ReqIntSlot) \<Rightarrow> shm \<Rightarrow> shm option" where
  "upd_int i f w = (if i < length (int_slots w)
     then Some (w\<lparr>int_slots := (int_slots w)[i := f (int_slots w ! i)]\<rparr>) else None)"

text \<open>The loop of \<^verbatim>\<open>reqrep_int_try_send\<close> (lines 1358 to 1381); the compare-and-exchange is weak, and a
  failure leaves the value found in \<open>pos\<close>.\<close>

fun int_send_loop ::
  "os \<Rightarrow> nat \<Rightarrow> nat \<Rightarrow> ReqRepHandle \<Rightarrow> u64 \<Rightarrow> u32 \<Rightarrow> u32 \<Rightarrow> u64 \<Rightarrow> shm \<Rightarrow> (int \<times> u64 option \<times> shm) option" where
  "int_send_loop os 0 k h value rslot gen pos w = None"
| "int_send_loop os (Suc fuel) k h value rslot gen pos w =
     (let o' = sub os k; i = int_slot h pos; w = others o' 0 w in
      if \<not> i < length (int_slots w) then None
      else
        let diff = sint (ri_sequence (int_slots w ! i) - pos); w = others o' 1 w in
        if diff = 0 then
          if h_req_tail (hdr w) = pos \<and> \<not> os_spurious o' [] then do {
            let w = hdr_update (\<lambda>x. x\<lparr>h_req_tail := pos + 1\<rparr>) w;
            w \<leftarrow> upd_int i (\<lambda>s. s\<lparr>ri_value := value, ri_resp_slot := rslot, ri_resp_gen := gen\<rparr>)
                  (others o' 2 w);
            w \<leftarrow> upd_int i (\<lambda>s. s\<lparr>ri_sequence := pos + 1\<rparr>) (others o' 3 w);
            let w = hdr_update (\<lambda>x. x\<lparr>h_stat_requests := h_stat_requests x + 1\<rparr>) (others o' 4 w);
            Some (1, Some (REQREP_MAKE_ID rslot gen), reqrep_wake_consumers (others o' 5 w)) }
          else int_send_loop os fuel (Suc k) h value rslot gen (h_req_tail (hdr w)) w
        else if diff < 0 then do {
          let w = hdr_update (\<lambda>x. x\<lparr>h_stat_send_full := h_stat_send_full x + 1\<rparr>) w;
          w \<leftarrow> reqrep_slot_release (sub o' 6) rslot w;
          Some (0, None, w) }
        else int_send_loop os fuel (Suc k) h value rslot gen (h_req_tail (hdr w)) w)"

definition reqrep_int_try_send :: "u64 \<Rightarrow> u64 attempt" where
  "reqrep_int_try_send value os h w = do {
     (rslot, w) \<leftarrow> reqrep_slot_acquire (sub os 0) h w;
     if rslot < 0 then Some (-3, None, h, w)
     else do {
       let idx = (of_int rslot :: u32);
       let w = others os 1 w;
       s \<leftarrow> reqrep_resp_slot w idx;
       let gen = rs_generation s;
       let w = others os 2 w;
       (r, oid, w) \<leftarrow> int_send_loop (sub os 3) (os_fuel os [3]) 0 h value idx gen (h_req_tail (hdr w)) w;
       Some (r, oid, h, w) } }"

text \<open>What a receive writes through its out parameters.\<close>

record int_recv_out =
  io_value :: u64
  io_id :: u64

fun int_recv_loop ::
  "os \<Rightarrow> nat \<Rightarrow> nat \<Rightarrow> ReqRepHandle \<Rightarrow> u64 \<Rightarrow> shm \<Rightarrow> (int \<times> int_recv_out option \<times> shm) option" where
  "int_recv_loop os 0 k h pos w = None"
| "int_recv_loop os (Suc fuel) k h pos w =
     (let o' = sub os k; i = int_slot h pos; w = others o' 0 w in
      if \<not> i < length (int_slots w) then None
      else
        let diff = sint (ri_sequence (int_slots w ! i) - (pos + 1)); w = others o' 1 w in
        if diff = 0 then
          if h_req_head (hdr w) = pos \<and> \<not> os_spurious o' [] then do {
            let w = hdr_update (\<lambda>x. x\<lparr>h_req_head := pos + 1\<rparr>) w;
            let w = others o' 2 w;
            if \<not> i < length (int_slots w) then None
            else do {
              let s = int_slots w ! i;
              w \<leftarrow> upd_int i (\<lambda>s. s\<lparr>ri_sequence := pos + ucast (hn_req_cap h)\<rparr>) (others o' 3 w);
              Some (1, Some \<lparr>io_value = ri_value s,
                             io_id = REQREP_MAKE_ID (ri_resp_slot s) (ri_resp_gen s)\<rparr>,
                    reqrep_wake_producers (others o' 4 w)) } }
          else int_recv_loop os fuel (Suc k) h (h_req_head (hdr w)) w
        else if diff < 0
        then Some (0, None, hdr_update (\<lambda>x. x\<lparr>h_stat_recv_empty := h_stat_recv_empty x + 1\<rparr>) w)
        else int_recv_loop os fuel (Suc k) h (h_req_head (hdr w)) w)"

definition reqrep_int_try_recv :: "int_recv_out attempt" where
  "reqrep_int_try_recv os h w = do {
     let w = others os 0 w;
     (r, out, w) \<leftarrow> int_recv_loop (sub os 1) (os_fuel os [1]) 0 h (h_req_head (hdr w)) w;
     Some (r, out, h, w) }"

definition reqrep_int_send_wait :: "u64 \<Rightarrow> real \<Rightarrow> u64 attempt" where
  "reqrep_int_send_wait value timeout os h w =
     waiting (reqrep_int_try_send value) (\<lambda>r. r = 1) (\<lambda>r. if r = -3 then Wslot else Wsend)
       os timeout h w"

definition reqrep_int_recv_wait :: "real \<Rightarrow> int_recv_out attempt" where
  "reqrep_int_recv_wait timeout os h w =
     waiting reqrep_int_try_recv (\<lambda>r. r \<noteq> 0) (\<lambda>_. Wrecv) os timeout h w"

section \<open>Replies\<close>

text \<open>The eight data bytes of a slot, little endian.\<close>

definition le_bytes :: "u64 \<Rightarrow> bytes" where
  "le_bytes v = map (\<lambda>i. ucast (drop_bit (8 * i) v)) [0..<8]"

fun le_value :: "bytes \<Rightarrow> u64" where
  "le_value [] = 0"
| "le_value (b # bs) = ucast b OR push_bit 8 (le_value bs)"

definition reqrep_int_reply :: "os \<Rightarrow> ReqRepHandle \<Rightarrow> u64 \<Rightarrow> u64 \<Rightarrow> shm \<Rightarrow> (int \<times> shm) option" where
  "reqrep_int_reply os h id' value w =
     (let slot_idx = REQREP_ID_SLOT id'; expected_gen = REQREP_ID_GEN id' in
      if slot_idx \<ge> hn_resp_slots h then Some (-1, w)
      else do {
        let w = others os 0 w;
        s \<leftarrow> reqrep_resp_slot w slot_idx;
        if rs_state s \<noteq> RESP_ACQUIRED then Some (-2, w)
        else do {
          let w = others os 1 w;
          s \<leftarrow> reqrep_resp_slot w slot_idx;
          if rs_generation s \<noteq> expected_gen then Some (-2, w)
          else do {
            let w = others os 2 w;
            s \<leftarrow> reqrep_resp_slot w slot_idx;
            data \<leftarrow> memcpy (rs_data s) 0 (le_bytes value) 0 8;
            let w = set_resp_slot slot_idx (s\<lparr>rs_data := data\<rparr>) w;
            (ok, w) \<leftarrow> cas_state slot_idx RESP_ACQUIRED RESP_READY (others os 3 w);
            if \<not> ok then Some (-2, w)
            else do {
              let w = others os 4 w;
              s \<leftarrow> reqrep_resp_slot w slot_idx;
              let w = (if rs_waiters s > 0 then kcall (FUTEX_WAKE (Fresp slot_idx) 1) w else w);
              Some (1, hdr_update (\<lambda>h. h\<lparr>h_stat_replies := h_stat_replies h + 1\<rparr>)
                         (others os 5 w)) } } } })"

definition reqrep_int_try_get :: "u64 \<Rightarrow> u64 attempt" where
  "reqrep_int_try_get id' os h w =
     (let slot_idx = REQREP_ID_SLOT id'; expected_gen = REQREP_ID_GEN id' in
      if slot_idx \<ge> hn_resp_slots h then Some (-1, None, h, w)
      else do {
        let w = others os 0 w;
        s \<leftarrow> reqrep_resp_slot w slot_idx;
        let state = rs_state s;
        let w = others os 1 w;
        s \<leftarrow> reqrep_resp_slot w slot_idx;
        if rs_generation s \<noteq> expected_gen then Some (-4, None, h, w)
        else if state \<noteq> RESP_READY then Some (0, None, h, w)
        else do {
          let w = others os 2 w;
          s \<leftarrow> reqrep_resp_slot w slot_idx;
          if \<not> 8 \<le> length (rs_data s) then None
          else do {
            w \<leftarrow> reqrep_slot_release (sub os 3) slot_idx w;
            Some (1, Some (le_value (take 8 (rs_data s))), h, w) } } })"

definition reqrep_int_get_wait :: "u64 \<Rightarrow> real \<Rightarrow> u64 attempt" where
  "reqrep_int_get_wait id' timeout = getting (reqrep_int_try_get id') id' timeout"

definition reqrep_int_request :: "u64 \<Rightarrow> real \<Rightarrow> u64 attempt" where
  "reqrep_int_request req_value timeout =
     requesting (reqrep_int_send_wait req_value timeout) reqrep_int_get_wait reqrep_int_try_get timeout"

section \<open>Queue state\<close>

definition reqrep_int_size :: "shm \<Rightarrow> u64" where
  "reqrep_int_size w = h_req_tail (hdr w) - h_req_head (hdr w)"

fun reset_sequences :: "os \<Rightarrow> nat list \<Rightarrow> shm \<Rightarrow> shm option" where
  "reset_sequences os [] w = Some w"
| "reset_sequences os (i # rest) w = do {
     w \<leftarrow> upd_int i (\<lambda>s. s\<lparr>ri_sequence := of_nat i\<rparr>) (others os i w);
     reset_sequences os rest w }"

definition reqrep_int_clear :: "os \<Rightarrow> ReqRepHandle \<Rightarrow> shm \<Rightarrow> shm option" where
  "reqrep_int_clear os h w = do {
     let w = hdr_update (\<lambda>x. x\<lparr>h_req_head := 0\<rparr>) (others os 0 w);
     let w = hdr_update (\<lambda>x. x\<lparr>h_req_tail := 0\<rparr>) (others os 1 w);
     w \<leftarrow> reset_sequences (sub os 2) [0..<unat (hn_req_cap h)] w;
     clear_responses (sub os 3) h w }"

declare int_send_loop.simps [simp del] int_recv_loop.simps [simp del]

section \<open>The ring of sequence numbers\<close>

text \<open>What a queued slot carries: the value and the identifier.\<close>

type_synonym int_request = "u64 \<times> u64"

definition int_item :: "ReqIntSlot \<Rightarrow> int_request" where
  "int_item s = (ri_value s, REQREP_MAKE_ID (ri_resp_slot s) (ri_resp_gen s))"

definition int_at :: "ReqRepHandle \<Rightarrow> shm \<Rightarrow> nat \<Rightarrow> ReqIntSlot" where
  "int_at h w i = int_slots w ! ring_idx h (h_req_head (hdr w) + of_nat i)"

text \<open>Between two calls, the slot at distance \<open>i\<close> from the head carries the sequence number of
  its position, plus one if it holds a request. Two slots at least are needed: with one, the
  number of a full slot is that of the next free one.\<close>

definition int_queue_ok :: "ReqRepHandle \<Rightarrow> shm \<Rightarrow> bool" where
  "int_queue_ok h w \<longleftrightarrow> ring_ok h \<and> 2 \<le> unat (hn_req_cap h) \<and>
     length (int_slots w) = unat (hn_req_cap h) \<and> queue_count w \<le> unat (hn_req_cap h) \<and>
     (\<forall>i < unat (hn_req_cap h). ri_sequence (int_at h w i) =
        h_req_head (hdr w) + of_nat i + (if i < queue_count w then 1 else 0))"

definition int_abs :: "ReqRepHandle \<Rightarrow> shm \<Rightarrow> int_request list" where
  "int_abs h w = map (\<lambda>i. int_item (int_at h w i)) [0..<queue_count w]"

lemma length_int_abs [simp]: "length (int_abs h w) = queue_count w"
  by (simp add: int_abs_def)

lemma int_queue_frame:
  assumes "int_slots w' = int_slots w" "h_req_head (hdr w') = h_req_head (hdr w)"
    "h_req_tail (hdr w') = h_req_tail (hdr w)"
  shows "int_queue_ok h w' = int_queue_ok h w" "int_abs h w' = int_abs h w"
  using assms by (simp_all add: int_queue_ok_def int_abs_def int_at_def queue_count_def)

lemma int_slot_ring:
  assumes "ring_ok h"
  shows "int_slot h p = ring_idx h p"
proof -
  from assms obtain k where k: "k \<le> 31" "unat (hn_req_cap h) = 2 ^ k" "hn_req_cap_mask h = mask k"
    by (auto simp: ring_ok_def)
  have "(ucast (mask k :: u32) :: u64) = mask k" using k(1) by (simp add: ucast_mask_eq min_def)
  then show ?thesis
    using ring_idx_mod [OF assms] by (simp add: int_slot_def k(2,3) unat_and_mask)
qed

lemma ring_idx_wrap:
  assumes "ring_ok h"
  shows "ring_idx h (p + of_nat (unat (hn_req_cap h))) = ring_idx h p"
  using ring_idx_add [OF assms, of p "unat (hn_req_cap h)"] ring_idx_mod [OF assms] by simp

lemma tail_pos: "h_req_tail (hdr w) = h_req_head (hdr w) + of_nat (queue_count w)"
  by (simp add: queue_count_def)

text \<open>The states after a request has been put and taken.\<close>

definition int_put :: "ReqRepHandle \<Rightarrow> u64 \<Rightarrow> u32 \<Rightarrow> u32 \<Rightarrow> shm \<Rightarrow> shm" where
  "int_put h value rslot gen w = (let pos = h_req_tail (hdr w) in
     w\<lparr>hdr := (hdr w)\<lparr>h_req_tail := pos + 1, h_stat_requests := h_stat_requests (hdr w) + 1\<rparr>,
       int_slots := (int_slots w)[ring_idx h pos := \<lparr>ri_sequence = pos + 1, ri_value = value,
         ri_resp_slot = rslot, ri_resp_gen = gen\<rparr>]\<rparr>)"

definition int_taken :: "ReqRepHandle \<Rightarrow> shm \<Rightarrow> shm" where
  "int_taken h w = (let pos = h_req_head (hdr w); i = ring_idx h pos in
     w\<lparr>hdr := (hdr w)\<lparr>h_req_head := pos + 1\<rparr>,
       int_slots := (int_slots w)[i := (int_slots w ! i)\<lparr>ri_sequence := pos + ucast (hn_req_cap h)\<rparr>]\<rparr>)"

lemma int_put_simps [simp]:
  "h_req_tail (hdr (int_put h v r g w)) = h_req_tail (hdr w) + 1"
  "h_req_head (hdr (int_put h v r g w)) = h_req_head (hdr w)"
  "resp_area (int_put h v r g w) = resp_area w"
  "int_slots (int_put h v r g w) = (int_slots w)[ring_idx h (h_req_tail (hdr w)) :=
     \<lparr>ri_sequence = h_req_tail (hdr w) + 1, ri_value = v, ri_resp_slot = r, ri_resp_gen = g\<rparr>]"
  "h_resp_hint (hdr (int_put h v r g w)) = h_resp_hint (hdr w)"
  "waiters_of wt (int_put h v r g w) = waiters_of wt w"
  by (cases wt; simp add: int_put_def Let_def)+

lemma int_taken_simps [simp]:
  "h_req_tail (hdr (int_taken h w)) = h_req_tail (hdr w)"
  "h_req_head (hdr (int_taken h w)) = h_req_head (hdr w) + 1"
  "resp_area (int_taken h w) = resp_area w"
  "int_slots (int_taken h w) = (int_slots w)[ring_idx h (h_req_head (hdr w)) :=
     (int_slots w ! ring_idx h (h_req_head (hdr w)))\<lparr>ri_sequence := h_req_head (hdr w) + ucast (hn_req_cap h)\<rparr>]"
  "h_resp_hint (hdr (int_taken h w)) = h_resp_hint (hdr w)"
  "waiters_of wt (int_taken h w) = waiters_of wt w"
  by (cases wt; simp add: int_taken_def Let_def)+

lemma int_at_put:
  assumes ok: "int_queue_ok h w" and room: "queue_count w < unat (hn_req_cap h)"
    and i: "i < unat (hn_req_cap h)"
  shows "int_at h (int_put h v r g w) i = (if i = queue_count w
     then \<lparr>ri_sequence = h_req_tail (hdr w) + 1, ri_value = v, ri_resp_slot = r, ri_resp_gen = g\<rparr>
     else int_at h w i)"
proof -
  have ring: "ring_ok h" and len: "length (int_slots w) = unat (hn_req_cap h)"
    using ok by (auto simp: int_queue_ok_def)
  have "ring_idx h (h_req_head (hdr w) + of_nat (queue_count w)) \<noteq> ring_idx h (h_req_head (hdr w) + of_nat i)"
    if "i \<noteq> queue_count w"
    using ring_idx_inj [OF ring i room, of "h_req_head (hdr w)"] that by metis
  then show ?thesis
    using ring_idx_lt [OF ring] len by (simp add: int_at_def tail_pos [of w])
qed

lemma queue_count_step:
  assumes "queue_count w < 2 ^ 32" "h_req_tail (hdr w') = h_req_tail (hdr w) + 1"
    "h_req_head (hdr w') = h_req_head (hdr w)"
  shows "queue_count w' = Suc (queue_count w)"
proof -
  let ?d = "h_req_tail (hdr w) - h_req_head (hdr w)"
  have "unat ?d + unat (1 :: u64) < 2 ^ LENGTH(64)" using assms(1) by (simp add: queue_count_def)
  then have "unat (?d + 1) = unat ?d + 1" by (subst (asm) unat_add_lem) simp
  then show ?thesis by (simp add: queue_count_def assms(2,3) algebra_simps)
qed

lemma int_put_ok:
  assumes ok: "int_queue_ok h w" and room: "queue_count w < unat (hn_req_cap h)"
  shows "int_queue_ok h (int_put h v r g w)"
    and "int_abs h (int_put h v r g w) = int_abs h w @ [(v, REQREP_MAKE_ID r g)]"
proof -
  let ?w = "int_put h v r g w" and ?c = "unat (hn_req_cap h)"
  have cnt: "queue_count ?w = Suc (queue_count w)"
    using room unat_lt_32 [of "hn_req_cap h"] by (intro queue_count_step) simp_all
  note at = int_at_put [OF ok room, of _ v r g]
  show "int_queue_ok h ?w"
    using ok room unfolding int_queue_ok_def cnt
    by (auto simp: at tail_pos [of w] algebra_simps)
  have "int_item (int_at h ?w i) = int_item (int_at h w i)" if "i < queue_count w" for i
    using that room at [of i] by simp
  then show "int_abs h ?w = int_abs h w @ [(v, REQREP_MAKE_ID r g)]"
    using at [OF room] by (simp add: int_abs_def cnt int_item_def)
qed

lemma int_taken_ok:
  assumes ok: "int_queue_ok h w" and ne: "queue_count w \<noteq> 0"
  shows "int_queue_ok h (int_taken h w)"
    and "int_abs h w = int_item (int_at h w 0) # int_abs h (int_taken h w)"
proof -
  let ?w = "int_taken h w" and ?c = "unat (hn_req_cap h)" and ?hd = "h_req_head (hdr w)"
  have ring: "ring_ok h" and len: "length (int_slots w) = ?c" and two: "2 \<le> ?c"
    and seq: "\<And>i. i < ?c \<Longrightarrow> ri_sequence (int_at h w i) = ?hd + of_nat i + (if i < queue_count w then 1 else 0)"
    and le: "queue_count w \<le> ?c"
    using ok by (auto simp: int_queue_ok_def)
  let ?d = "h_req_tail (hdr w) - ?hd"
  have "unat (?d - 1) = unat ?d - 1" using ne by (simp add: queue_count_def unat_minus_one unat_eq_0)
  then have cnt: "queue_count ?w = queue_count w - 1"
    by (simp add: queue_count_def algebra_simps)
  have old: "int_at h ?w i = int_at h w (Suc i)" if "Suc i < ?c" for i
  proof -
    have "ring_idx h (?hd + of_nat (Suc i)) \<noteq> ring_idx h (?hd + of_nat 0)"
      using ring_idx_inj [OF ring that, of 0] two by fastforce
    then show ?thesis by (simp add: int_at_def add.assoc)
  qed
  have lst: "ri_sequence (int_at h ?w (?c - 1)) = ?hd + of_nat ?c"
  proof -
    have "?hd + 1 + of_nat (?c - 1) = ?hd + of_nat ?c" using two by (simp add: of_nat_diff)
    then have "ring_idx h (?hd + 1 + of_nat (?c - 1)) = ring_idx h ?hd"
      by (simp only: ring_idx_wrap [OF ring])
    then show ?thesis using ring_idx_lt [OF ring, of ?hd] len by (simp add: int_at_def)
  qed
  show "int_queue_ok h ?w"
    unfolding int_queue_ok_def
  proof (intro conjI allI impI)
    fix i assume i: "i < ?c"
    show "ri_sequence (int_at h ?w i) =
        h_req_head (hdr ?w) + of_nat i + (if i < queue_count ?w then 1 else 0)"
    proof (cases "Suc i < ?c")
      case True
      then show ?thesis using old [OF True] seq [OF True] ne by (auto simp: cnt)
    next
      case False
      with i have "i = ?c - 1" by simp
      with lst le ne two show ?thesis by (simp add: cnt of_nat_diff)
    qed
  qed (use ring two len le cnt in auto)
  have "[0..<queue_count w] = 0 # map Suc [0..<queue_count w - 1]"
    using ne by (simp add: upt_conv_Cons map_Suc_upt)
  moreover have "int_item (int_at h ?w i) = int_item (int_at h w (Suc i))" if "i < queue_count w - 1" for i
    using that le by (subst old) simp_all
  ultimately show "int_abs h w = int_item (int_at h w 0) # int_abs h ?w"
    by (simp add: int_abs_def cnt)
qed

section \<open>Sending and receiving alone\<close>

lemma sint_neg:
  assumes "0 < n" "n \<le> 2 ^ 63"
  shows "sint (- of_nat n :: u64) = - int n"
proof -
  have "sint (- of_nat n :: u64) = sint (word_of_int (- int n) :: u64)" by simp
  also have "\<dots> = signed_take_bit 63 (- int n)" by (subst sint_sbintrunc') simp
  also have "\<dots> = - int n" using assms by (intro signed_take_bit_int_eq_self) simp_all
  finally show ?thesis .
qed

lemma int_seq_at_tail:
  assumes "int_queue_ok h w"
  shows "sint (ri_sequence (int_slots w ! int_slot h (h_req_tail (hdr w))) - h_req_tail (hdr w)) =
     (if queue_count w < unat (hn_req_cap h) then 0 else 1 - int (unat (hn_req_cap h)))"
    and "int_slot h (h_req_tail (hdr w)) < length (int_slots w)"
proof -
  let ?c = "unat (hn_req_cap h)" and ?n = "queue_count w" and ?hd = "h_req_head (hdr w)"
  have ring: "ring_ok h" and two: "2 \<le> ?c" and le: "?n \<le> ?c" and len: "length (int_slots w) = ?c"
    and seq: "\<And>i. i < ?c \<Longrightarrow> ri_sequence (int_at h w i) = ?hd + of_nat i + (if i < ?n then 1 else 0)"
    using assms by (auto simp: int_queue_ok_def)
  show "int_slot h (h_req_tail (hdr w)) < length (int_slots w)"
    using ring_idx_lt [OF ring] len by (simp add: int_slot_ring [OF ring])
  show "sint (ri_sequence (int_slots w ! int_slot h (h_req_tail (hdr w))) - h_req_tail (hdr w)) =
     (if ?n < ?c then 0 else 1 - int ?c)"
  proof (cases "?n < ?c")
    case True
    with seq [OF True] show ?thesis
      by (simp add: int_slot_ring [OF ring] tail_pos [of w] int_at_def)
  next
    case False
    then have n: "?n = ?c" using le by simp
    have "ri_sequence (int_slots w ! ring_idx h ?hd) = ?hd + 1"
      using seq [of 0] two n by (simp add: int_at_def)
    moreover have "ring_idx h (h_req_tail (hdr w)) = ring_idx h ?hd"
      using ring_idx_wrap [OF ring] n by (simp add: tail_pos [of w])
    moreover have "?hd + 1 - (?hd + of_nat ?c) = - of_nat (?c - 1)"
      using two by (simp add: of_nat_diff)
    moreover have "sint (- of_nat (?c - 1) :: u64) = - int (?c - 1)"
      using two ring_ok_le [OF ring] by (intro sint_neg) simp_all
    ultimately show ?thesis using n two by (simp add: int_slot_ring [OF ring] tail_pos [of w])
  qed
qed

lemma int_seq_at_head:
  assumes "int_queue_ok h w"
  shows "sint (ri_sequence (int_slots w ! int_slot h (h_req_head (hdr w))) - (h_req_head (hdr w) + 1)) =
     (if queue_count w = 0 then -1 else 0)"
    and "int_slot h (h_req_head (hdr w)) < length (int_slots w)"
proof -
  let ?c = "unat (hn_req_cap h)" and ?n = "queue_count w" and ?hd = "h_req_head (hdr w)"
  have ring: "ring_ok h" and two: "2 \<le> ?c" and len: "length (int_slots w) = ?c"
    and seq: "\<And>i. i < ?c \<Longrightarrow> ri_sequence (int_at h w i) = ?hd + of_nat i + (if i < ?n then 1 else 0)"
    using assms by (auto simp: int_queue_ok_def)
  show "int_slot h ?hd < length (int_slots w)"
    using ring_idx_lt [OF ring] len by (simp add: int_slot_ring [OF ring])
  show "sint (ri_sequence (int_slots w ! int_slot h ?hd) - (?hd + 1)) = (if ?n = 0 then -1 else 0)"
    using seq [of 0] two by (simp add: int_slot_ring [OF ring] int_at_def)
qed

definition int_full :: "shm \<Rightarrow> shm" where
  "int_full w = hdr_update (\<lambda>x. x\<lparr>h_stat_send_full := h_stat_send_full x + 1\<rparr>) w"

lemma int_slot_written:
  "(s :: ReqIntSlot)\<lparr>ri_value := v, ri_resp_slot := r, ri_resp_gen := g, ri_sequence := q\<rparr> =
     \<lparr>ri_sequence = q, ri_value = v, ri_resp_slot = r, ri_resp_gen = g\<rparr>"
  by (cases s) simp

lemma int_send_loop_alone:
  assumes "quiet os" and "int_queue_ok h w" and "unat rslot < length (resp_area w)"
  shows "int_send_loop os (Suc fuel) k h value rslot gen (h_req_tail (hdr w)) w = Some (
     if queue_count w < unat (hn_req_cap h)
     then (1, Some (REQREP_MAKE_ID rslot gen), reqrep_wake_consumers (int_put h value rslot gen w))
     else (0, None, released rslot (int_full w)))"
proof -
  have two: "2 \<le> unat (hn_req_cap h)" and ring: "ring_ok h" using assms(2) by (auto simp: int_queue_ok_def)
  note sq = int_seq_at_tail [OF assms(2)]
  have l: "unat rslot < length (resp_area (int_full w))" using assms(3) by (simp add: int_full_def)
  let ?i = "int_slot h (h_req_tail (hdr w))" and ?pos = "h_req_tail (hdr w)"
  let ?w1 = "hdr_update (\<lambda>x. x\<lparr>h_req_tail := ?pos + 1\<rparr>) w"
  let ?w2 = "?w1\<lparr>int_slots := (int_slots w)[?i := (int_slots w ! ?i)\<lparr>ri_value := value,
      ri_resp_slot := rslot, ri_resp_gen := gen, ri_sequence := ?pos + 1\<rparr>]\<rparr>"
  have put: "hdr_update (\<lambda>x. x\<lparr>h_stat_requests := h_stat_requests x + 1\<rparr>) ?w2 = int_put h value rslot gen w"
    by (rule shm.equality) (simp_all add: int_put_def int_slot_ring [OF ring] Let_def int_slot_written)
  show ?thesis
  proof (cases "queue_count w < unat (hn_req_cap h)")
    case True
    with sq assms(1) put show ?thesis by (simp add: int_send_loop.simps Let_def upd_int_def)
  next
    case False
    define d where "d = sint (ri_sequence (int_slots w ! ?i) - ?pos)"
    have "d = 1 - int (unat (hn_req_cap h))" using False sq(1) by (simp only: d_def if_False)
    then have "d < 0" using two by linarith
    with False sq(2) assms(1) release_alone [OF _ l, of "sub (sub os k) 6"] show ?thesis
      by (simp add: int_send_loop.simps Let_def int_full_def d_def [symmetric])
  qed
qed

lemma int_recv_loop_alone:
  assumes "quiet os" and "int_queue_ok h w"
  shows "int_recv_loop os (Suc fuel) k h (h_req_head (hdr w)) w = Some (
     if queue_count w = 0
     then (0, None, hdr_update (\<lambda>x. x\<lparr>h_stat_recv_empty := h_stat_recv_empty x + 1\<rparr>) w)
     else (1, Some \<lparr>io_value = fst (int_item (int_at h w 0)), io_id = snd (int_item (int_at h w 0))\<rparr>,
           reqrep_wake_producers (int_taken h w)))"
proof -
  have ring: "ring_ok h" using assms(2) by (auto simp: int_queue_ok_def)
  note sq = int_seq_at_head [OF assms(2)]
  let ?i = "ring_idx h (h_req_head (hdr w))" and ?pos = "h_req_head (hdr w)"
  have taken: "(hdr_update (\<lambda>x. x\<lparr>h_req_head := ?pos + 1\<rparr>) w)\<lparr>int_slots := (int_slots w)[?i :=
      (int_slots w ! ?i)\<lparr>ri_sequence := ?pos + ucast (hn_req_cap h)\<rparr>]\<rparr> = int_taken h w"
    by (rule shm.equality) (simp_all add: int_taken_def Let_def)
  show ?thesis
    using sq assms(1) taken
    by (simp add: int_recv_loop.simps Let_def upd_int_def int_slot_ring [OF ring] int_at_def int_item_def)
qed

text \<open>A mapping of integer mode between two calls.\<close>

definition int_ok :: "ReqRepHandle \<Rightarrow> shm \<Rightarrow> bool" where
  "int_ok h w \<longleftrightarrow> int_queue_ok h w \<and> slots_ok h w \<and> 8 \<le> unat (hn_resp_data_max h) \<and>
     unat (hn_resp_slots h) \<le> 2 ^ 31 \<and> h_resp_hint (hdr w) < hn_resp_slots h"

lemma int_queue_frames [simp]:
  "int_queue_ok h (kcall c w) = int_queue_ok h w" "int_abs h (kcall c w) = int_abs h w"
  "int_queue_ok h (set_resp_slot i s w) = int_queue_ok h w"
  "int_abs h (set_resp_slot i s w) = int_abs h w"
  "int_queue_ok h (int_full w) = int_queue_ok h w" "int_abs h (int_full w) = int_abs h w"
  "int_queue_ok h (released i w) = int_queue_ok h w" "int_abs h (released i w) = int_abs h w"
  "int_queue_ok h (reqrep_wake_consumers w) = int_queue_ok h w"
  "int_abs h (reqrep_wake_consumers w) = int_abs h w"
  "int_queue_ok h (reqrep_wake_producers w) = int_queue_ok h w"
  "int_abs h (reqrep_wake_producers w) = int_abs h w"
  "int_queue_ok h (reqrep_wake_slot_waiters w) = int_queue_ok h w"
  "int_abs h (reqrep_wake_slot_waiters w) = int_abs h w"
  "int_queue_ok h (add_waiters wt n w) = int_queue_ok h w"
  "int_abs h (add_waiters wt n w) = int_abs h w"
  "int_queue_ok h (hdr_update (\<lambda>x. x\<lparr>h_stat_recv_empty := h_stat_recv_empty x + 1\<rparr>) w) = int_queue_ok h w"
  "int_abs h (hdr_update (\<lambda>x. x\<lparr>h_stat_recv_empty := h_stat_recv_empty x + 1\<rparr>) w) = int_abs h w"
  "int_queue_ok h (hdr_update (\<lambda>x. x\<lparr>h_stat_replies := h_stat_replies x + 1\<rparr>) w) = int_queue_ok h w"
  "int_abs h (hdr_update (\<lambda>x. x\<lparr>h_stat_replies := h_stat_replies x + 1\<rparr>) w) = int_abs h w"
  "int_queue_ok h (cancelled i w) = int_queue_ok h w" "int_abs h (cancelled i w) = int_abs h w"
  by (rule int_queue_frame; cases wt;
      simp add: wake_defs released_def int_full_def cancelled_def wake_slot_def)+

lemma acquired_int:
  assumes "acquired h pid idx w w1"
  shows "int_queue_ok h w1 = int_queue_ok h w" "int_abs h w1 = int_abs h w"
    "queue_count w1 = queue_count w"
proof -
  obtain a b where hd: "hdr w1 = (hdr w)\<lparr>h_resp_hint := a, h_stat_recoveries := b\<rparr>"
    and s: "int_slots w1 = int_slots w" using assms unfolding acquired_def by blast
  show "int_queue_ok h w1 = int_queue_ok h w" "int_abs h w1 = int_abs h w"
    by (rule int_queue_frame; simp add: hd s)+
  show "queue_count w1 = queue_count w" by (simp add: queue_count_def hd)
qed

lemma int_try_send_cases:
  assumes os: "quiet os" and ok: "int_ok h w"
  obtains (no_slot) "reqrep_int_try_send v os h w = Some (-3, None, h, w)"
      "\<forall>s \<in> set (resp_area w). rs_state s \<noteq> RESP_FREE"
    | (full) w' where "reqrep_int_try_send v os h w = Some (0, None, h, w')"
      "int_ok h w'" "int_abs h w' = int_abs h w" "queue_count w = unat (hn_req_cap h)"
      "\<And>wt. waiters_of wt w' = waiters_of wt w"
    | (sent) id' w' where "reqrep_int_try_send v os h w = Some (1, Some id', h, w')"
      "int_ok h w'" "int_abs h w' = int_abs h w @ [(v, id')]" "awaiting h id' w'"
      "queue_count w < unat (hn_req_cap h)"
      "\<forall>j < length (resp_area w). j \<noteq> unat (REQREP_ID_SLOT id') \<longrightarrow> resp_area w' ! j = resp_area w ! j"
      "\<And>wt. waiters_of wt w' = waiters_of wt w"
proof -
  have parts: "int_queue_ok h w" "slots_ok h w" "unat (hn_resp_slots h) \<le> 2 ^ 31"
    "h_resp_hint (hdr w) < hn_resp_slots h"
    using ok by (auto simp: int_ok_def)
  have q: "quiet (sub os k)" for k using os by simp
  obtain f where f: "os_fuel os [3] = Suc f" using quiet_fuel [OF os] by blast
  from q parts(2-4) show thesis
  proof (cases rule: acquire_cases [of "sub os 0"])
    case none
    then show thesis using no_slot by (simp add: reqrep_int_try_send_def)
  next
    case (slot idx w1)
    note keep = acquired_keeps [OF slot(3)] and keepi = acquired_int [OF slot(3)]
    define gen where "gen = rs_generation (resp_area w ! unat idx) + 1"
    have area: "resp_area w1 = (resp_area w)[unat idx := (resp_area w ! unat idx)\<lparr>
        rs_state := RESP_ACQUIRED, rs_owner_pid := os_pid os, rs_generation := gen\<rparr>]"
      using slot(3) by (simp add: acquired_def gen_def)
    have l: "unat idx < length (resp_area w)" using slot(1) parts(2) by (simp add: slots_ok_def)
    have l1: "unat idx < length (resp_area w1)" using l by (simp add: area)
    have s1: "slots_ok h w1" "int_queue_ok h w1" using keep(9) parts(1,2) slot(1) keepi by auto
    let ?id = "REQREP_MAKE_ID idx gen"
    have g: "rs_generation (resp_area w1 ! unat idx) = gen" using l by (simp add: area)
    have run: "reqrep_int_try_send v os h w = Some (
        if queue_count w < unat (hn_req_cap h)
        then (1, Some ?id, h, reqrep_wake_consumers (int_put h v idx gen w1))
        else (0, None, h, released idx (int_full w1)))"
      using os slot(2) int_send_loop_alone [OF q s1(2) l1, of 3 f 0 v gen] g keepi(3)
        quiet_resp_slot [OF l1]
      by (simp add: reqrep_int_try_send_def Let_def f)
    show thesis
    proof (cases "queue_count w < unat (hn_req_cap h)")
      case True
      let ?w' = "reqrep_wake_consumers (int_put h v idx gen w1)"
      have room: "queue_count w1 < unat (hn_req_cap h)" using True keepi(3) by simp
      note put = int_put_ok [OF s1(2) room, of v idx gen]
      have area': "resp_area ?w' = resp_area w1" by (simp add: wake_consumers_keeps)
      have "int_ok h ?w'"
        using ok put(1) s1(1) keep(4) [OF parts(4)]
        by (simp add: int_ok_def wake_consumers_keeps slots_ok_frame [of "int_put h v idx gen w1" w1])
      moreover have "awaiting h ?id ?w'"
        using slot(1) l by (simp add: awaiting_def area' area word_less_nat_alt)
      moreover have "waiters_of wt ?w' = waiters_of wt w" for wt
        using keep(8) [of wt] by (cases wt) (simp_all add: wake_defs int_put_def Let_def)
      moreover have "\<forall>j < length (resp_area w). j \<noteq> unat (REQREP_ID_SLOT ?id) \<longrightarrow> resp_area ?w' ! j = resp_area w ! j"
        by (simp add: area' area)
      ultimately show thesis
        using run True put(2) keepi(2) by (intro sent [of ?id ?w']) simp_all
    next
      case False
      let ?w' = "released idx (int_full w1)"
      have lf: "unat idx < length (resp_area (int_full w1))" using l1 by (simp add: int_full_def)
      have "slots_ok h ?w'" using s1(1) by (intro slots_ok_released lf) (simp add: int_full_def)
      moreover have "h_resp_hint (hdr ?w') < hn_resp_slots h"
        using keep(4) [OF parts(4)] by (simp add: released_keeps) (simp add: int_full_def)
      ultimately have "int_ok h ?w'" using ok s1(2) by (simp add: int_ok_def)
      moreover have "waiters_of wt ?w' = waiters_of wt w" for wt
        using keep(8) [of wt] by (cases wt) (simp_all add: wake_defs released_def int_full_def)
      moreover have "queue_count w = unat (hn_req_cap h)"
        using False parts(1) by (simp add: int_queue_ok_def)
      ultimately show thesis using run False keepi(2) by (intro full [of ?w']) simp_all
    qed
  qed
qed

lemma int_try_recv_cases:
  assumes os: "quiet os" and ok: "int_ok h w"
  obtains (empty) w' where "reqrep_int_try_recv os h w = Some (0, None, h, w')" "int_abs h w = []"
      "int_ok h w'" "int_abs h w' = []" "resp_area w' = resp_area w"
      "\<And>wt. waiters_of wt w' = waiters_of wt w"
    | (received) r w' where "reqrep_int_try_recv os h w = Some (1, Some r, h, w')"
      "int_abs h w = (io_value r, io_id r) # int_abs h w'" "int_ok h w'"
      "resp_area w' = resp_area w" "\<And>wt. waiters_of wt w' = waiters_of wt w"
proof -
  have parts: "int_queue_ok h w" "slots_ok h w" using ok by (auto simp: int_ok_def)
  have q: "quiet (sub os k)" for k using os by simp
  obtain f where f: "os_fuel os [1] = Suc f" using quiet_fuel [OF os] by blast
  note loop = int_recv_loop_alone [OF q parts(1), of 1 f 0]
  show thesis
  proof (cases "queue_count w = 0")
    case True
    define w' where "w' = hdr_update (\<lambda>x. x\<lparr>h_stat_recv_empty := h_stat_recv_empty x + 1\<rparr>) w"
    have nil: "int_abs h w = []" using True by (simp add: int_abs_def)
    have keeps: "int_queue_ok h w'" "int_abs h w' = int_abs h w" "resp_area w' = resp_area w"
      "h_resp_hint (hdr w') = h_resp_hint (hdr w)" "\<And>wt. waiters_of wt w' = waiters_of wt w"
      using parts(1) unfolding w'_def int_queue_frames by (simp_all) (case_tac wt; simp)
    have "int_ok h w'" using ok keeps slots_ok_frame [OF keeps(3), of h] by (simp add: int_ok_def)
    then show thesis
      using empty [of w'] loop True os f keeps nil by (simp add: reqrep_int_try_recv_def w'_def)
  next
    case False
    let ?w' = "reqrep_wake_producers (int_taken h w)"
    note tk = int_taken_ok [OF parts(1) False]
    have area: "resp_area ?w' = resp_area w" by (simp add: wake_producers_keeps)
    have "int_ok h ?w'"
      using ok tk(1) slots_ok_frame [OF area, of h] by (simp add: int_ok_def wake_producers_keeps)
    moreover have "waiters_of wt ?w' = waiters_of wt w" for wt
      by (cases wt) (simp_all add: wake_defs int_taken_def Let_def)
    ultimately show thesis
      using loop False os f tk(2) area
      by (intro received [of "\<lparr>io_value = fst (int_item (int_at h w 0)),
          io_id = snd (int_item (int_at h w 0))\<rparr>" ?w']) (simp_all add: reqrep_int_try_recv_def)
  qed
qed

section \<open>A created queue\<close>

lemma fresh_int_simps:
  "hdr (fresh_int c n l) = zero_header\<lparr>h_magic := REQREP_MAGIC, h_version := REQREP_VERSION,
     h_mode := REQREP_MODE_INT, h_req_cap := c, h_total_size := il_total_size l,
     h_req_slots_off := il_req_slots_off l, h_resp_slots := n, h_resp_data_max := 8,
     h_resp_off := il_resp_off l, h_resp_stride := il_resp_stride l\<rparr>"
  "int_slots (fresh_int c n l) = map (\<lambda>i. \<lparr>ri_sequence = of_nat i, ri_value = 0,
     ri_resp_slot = 0, ri_resp_gen = 0\<rparr>) [0..<unat c]"
  "resp_area (fresh_int c n l) = replicate (unat n) (zero_resp_slot (il_resp_stride l))"
  by (simp_all add: fresh_int_def reqrep_int_init_header_def zero_int_mapping_def
      clear_resp_header_def zero_resp_slot_def)

lemma created_int_queue:
  assumes "unat c = 2 ^ k" "1 \<le> k" "k \<le> 31" and "n \<noteq> 0" "unat n \<le> 2 ^ 31"
    and "40 \<le> unat (il_resp_stride l)"
    and "reqrep_setup_handle kn (fresh_int c n l) sz path fd = Some h"
  shows "int_ok h (fresh_int c n l)" "int_abs h (fresh_int c n l) = []"
    "hn_req_cap h = c" "hn_resp_slots h = n"
proof -
  let ?w = "fresh_int c n l"
  show h: "hn_req_cap h = c" "hn_resp_slots h = n"
    using assms(7) by (auto simp: reqrep_setup_handle_def fresh_int_simps split: if_splits)
  have h': "hn_req_cap_mask h = c - 1" "hn_resp_data_max h = 8"
    using assms(7) by (auto simp: reqrep_setup_handle_def fresh_int_simps split: if_splits)
  have e: "h_req_tail (hdr ?w) = 0" "h_req_head (hdr ?w) = 0" "h_resp_hint (hdr ?w) = 0"
    by (simp_all add: fresh_int_simps zero_header_def)
  have cnt: "queue_count ?w = 0" by (simp add: queue_count_def e)
  then show "int_abs h ?w = []" by (simp add: int_abs_def)
  have ring: "ring_ok h" using assms(1,3) mask_of_pow2 [OF assms(1)] by (auto simp: ring_ok_def h h')
  have two: "2 \<le> unat c" using assms(1,2) power_increasing [of 1 k "2 :: nat"] by simp
  have "ri_sequence (int_at h ?w i) = of_nat i" if "i < unat c" for i
    using that ring_idx_add [OF ring, of 0 i] by (simp add: int_at_def e h fresh_int_simps(2))
  then have q: "int_queue_ok h ?w"
    using ring two by (simp add: int_queue_ok_def cnt h e) (simp add: fresh_int_simps)
  have "slots_ok h ?w"
    using assms(4,6) by (auto simp: slots_ok_def slot_ok_def h h' fresh_int_simps zero_resp_slot_def reqrep_consts)
  then show "int_ok h ?w"
    using q assms(4,5) by (simp add: int_ok_def e h h' word_neq_0_conv)
qed

text \<open>A mapping of two request slots and one response slot.\<close>

lemma demo_int:
  obtains h w where "int_ok h w" "int_abs h w = []" "hn_req_cap h = 2" "hn_resp_slots h = 1"
    "resp_area w = [zero_resp_slot 64]" "h_recv_waiters (hdr w) = 0"
    "h_req_head (hdr w) = 0" "h_req_tail (hdr w) = 0"
    "int_slots w = [\<lparr>ri_sequence = 0, ri_value = 0, ri_resp_slot = 0, ri_resp_gen = 0\<rparr>,
       \<lparr>ri_sequence = 1, ri_value = 0, ri_resp_slot = 0, ri_resp_gen = 0\<rparr>]"
proof -
  let ?l = "\<lparr>il_req_slots_off = 256, il_resp_off = 320, il_resp_stride = 64, il_total_size = 384\<rparr> :: int_layout"
  let ?w = "fresh_int 2 1 ?l"
  obtain h where h: "reqrep_setup_handle (granting 0 no_file) ?w 384 None (-1) = Some h"
    by (simp add: reqrep_setup_handle_def granting_def)
  have "unat (2 :: u32) = 2 ^ 1" by simp
  from created_int_queue [OF this _ _ _ _ _ h] have c: "int_ok h ?w" "int_abs h ?w = []"
    "hn_req_cap h = 2" "hn_resp_slots h = 1" by simp_all
  moreover have "resp_area ?w = [zero_resp_slot 64]" "h_recv_waiters (hdr ?w) = 0"
    "h_req_head (hdr ?w) = 0" "h_req_tail (hdr ?w) = 0"
    "int_slots ?w = [\<lparr>ri_sequence = 0, ri_value = 0, ri_resp_slot = 0, ri_resp_gen = 0\<rparr>,
       \<lparr>ri_sequence = 1, ri_value = 0, ri_resp_slot = 0, ri_resp_gen = 0\<rparr>]"
    by (simp_all add: fresh_int_simps zero_header_def upt_conv_Cons)
  ultimately show thesis using that by blast
qed

section \<open>First in, first out\<close>

text \<open>The calls an application makes, as a queue of values; a send that finds no free response
  slot counts as refused, like one that finds the queue full.\<close>

definition int_enq :: "os \<Rightarrow> u64 \<Rightarrow> ReqRepHandle \<times> shm \<Rightarrow> (bool \<times> ReqRepHandle \<times> shm) option" where
  "int_enq os v s = do {
     (r, oid, h, w) \<leftarrow> reqrep_int_try_send v os (fst s) (snd s);
     Some (r = 1, h, w) }"

definition int_deq :: "os \<Rightarrow> ReqRepHandle \<times> shm \<Rightarrow> (u64 option \<times> ReqRepHandle \<times> shm) option" where
  "int_deq os s = do {
     (r, out, h, w) \<leftarrow> reqrep_int_try_recv os (fst s) (snd s);
     Some (map_option io_value out, h, w) }"

definition int_inv :: "os \<Rightarrow> ReqRepHandle \<times> shm \<Rightarrow> bool" where
  "int_inv os s \<longleftrightarrow> quiet os \<and> int_ok (fst s) (snd s)"

definition int_cont :: "ReqRepHandle \<times> shm \<Rightarrow> u64 list" where
  "int_cont s = map fst (int_abs (fst s) (snd s))"

definition int_capacity :: "ReqRepHandle \<times> shm \<Rightarrow> nat" where
  "int_capacity s = unat (hn_req_cap (fst s))"

lemma int_enq_cases:
  assumes "int_inv os (h, w)"
  shows "\<exists>ok w'. int_enq os v (h, w) = Some (ok, h, w') \<and> int_inv os (h, w') \<and>
     int_cont (h, w') = int_cont (h, w) @ (if ok then [v] else [])"
proof -
  from assms have "quiet os" "int_ok h w" by (auto simp: int_inv_def)
  then show ?thesis
    by (cases rule: int_try_send_cases [where v = v])
      (use assms in \<open>auto simp: int_enq_def int_inv_def int_cont_def\<close>)
qed

lemma int_deq_cases:
  assumes "int_inv os (h, w)"
  shows "\<exists>r w'. int_deq os (h, w) = Some (r, h, w') \<and> int_inv os (h, w') \<and>
     int_cont (h, w) = (case r of None \<Rightarrow> [] | Some v \<Rightarrow> [v]) @ int_cont (h, w')"
proof -
  from assms have "quiet os" "int_ok h w" by (auto simp: int_inv_def)
  then show ?thesis
    by (cases rule: int_try_recv_cases)
      (use assms in \<open>auto simp: int_deq_def int_inv_def int_cont_def\<close>)
qed

interpretation intq: bounded_fifo "int_inv os" int_cont "\<lambda>_ _. True" int_capacity "int_enq os" "int_deq os"
proof
  fix s :: "ReqRepHandle \<times> shm" and v ok s' assume a: "int_inv os s"
  obtain h w where s: "s = (h, w)" by (cases s)
  note e = int_enq_cases [OF a [unfolded s], of v]
  from e show "\<exists>ok s'. int_enq os v s = Some (ok, s')" by (auto simp: s)
  from e show "int_inv os s'" if "int_enq os v s = Some (ok, s')" using that by (auto simp: s)
  from e show "int_cont s' = int_cont s @ [v]" if "int_enq os v s = Some (True, s')"
    using that by (auto simp: s)
  from e show "int_cont s' = int_cont s" if "int_enq os v s = Some (False, s')"
    using that by (auto simp: s)
next
  fix s :: "ReqRepHandle \<times> shm" and v r s' assume a: "int_inv os s"
  obtain h w where s: "s = (h, w)" by (cases s)
  note d = int_deq_cases [OF a [unfolded s]]
  from d show "\<exists>r s'. int_deq os s = Some (r, s')" by (auto simp: s)
  from d show "int_inv os s'" if "int_deq os s = Some (r, s')" using that by (auto simp: s)
  from d show "int_cont s = v # int_cont s'" if "int_deq os s = Some (Some v, s')"
    using that by (auto simp: s)
  from d show "int_cont s' = int_cont s" if "int_deq os s = Some (None, s')"
    using that by (auto simp: s)
  show "length (int_cont s) \<le> int_capacity s"
    using a by (auto simp: int_inv_def int_cont_def int_capacity_def int_ok_def int_queue_ok_def)
qed auto

text \<open>
  Property C9. First in, first out, for any sequence of integer sends and receives on a fresh
  mapping of at least two slots: every call returns, the values received are exactly the first
  of those accepted, in order, the rest is still queued and never exceeds the capacity. The
  integer queue implements the same contract as the string queue.
\<close>

theorem int_queue_fifo:
  assumes "quiet os" and "int_ok h w" and "int_abs h w = []"
  shows "\<exists>acc rcv h' w'. fifo_run (int_enq os) (int_deq os) ops (h, w) = Some (acc, rcv, h', w') \<and>
           acc = rcv @ map fst (int_abs h' w') \<and> length acc - length rcv \<le> unat (hn_req_cap h')"
  using intq.run_from_empty [of os "(h, w)" ops] assms
  by (auto simp: int_inv_def int_cont_def int_capacity_def)

theorem int_queue_fifo_witness:
  "\<exists>h w acc rcv h' w'. fifo_run (int_enq quiet_os) (int_deq quiet_os) [Enq 5, Deq, Enq 6, Deq] (h, w) =
       Some (acc, rcv, h', w') \<and> acc = rcv @ map fst (int_abs h' w')"
proof -
  obtain h w where d: "int_ok h w" "int_abs h w = []" using demo_int by metis
  from int_queue_fifo [OF quiet_quiet_os d, of "[Enq 5, Deq, Enq 6, Deq]"] show ?thesis by blast
qed

section \<open>Replies of one integer\<close>

lemma length_le_bytes [simp]: "length (le_bytes v) = 8"
  by (simp add: le_bytes_def)

lemma le_value_prefix:
  "le_value (map (\<lambda>i. ucast (drop_bit (8 * i) v)) [0..<n]) = take_bit (8 * n) v"
proof (induction n arbitrary: v)
  case (Suc n)
  have upt: "[0..<Suc n] = 0 # map Suc [0..<n]" by (simp add: upt_conv_Cons map_Suc_upt del: upt_Suc)
  have "le_value (map (\<lambda>i. ucast (drop_bit (8 * i) v)) [0..<Suc n]) =
      ucast (ucast v :: u8) OR push_bit 8 (take_bit (8 * n) (drop_bit 8 v))"
    unfolding upt using Suc.IH [of "drop_bit 8 v"] by (simp add: comp_def drop_bit_drop_bit algebra_simps)
  also have "\<dots> = take_bit (8 * Suc n) v"
    by (rule bit_word_eqI) (auto simp: bit_simps)
  finally show ?case .
qed simp

lemma le_roundtrip [simp]: "le_value (le_bytes v) = v"
  using le_value_prefix [of v 8] by (simp add: le_bytes_def take_bit_word_eq_self)

definition int_replied :: "u32 \<Rightarrow> u64 \<Rightarrow> shm \<Rightarrow> shm" where
  "int_replied idx v w =
     hdr_update (\<lambda>x. x\<lparr>h_stat_replies := h_stat_replies x + 1\<rparr>)
       (wake_slot idx 1 (set_resp_slot idx ((resp_area w ! unat idx)\<lparr>
          rs_data := le_bytes v @ drop 8 (rs_data (resp_area w ! unat idx)),
          rs_state := RESP_READY\<rparr>) w))"

lemma resp_area_int_replied [simp]:
  "resp_area (int_replied i v w) = (resp_area w)[unat i := (resp_area w ! unat i)
     \<lparr>rs_data := le_bytes v @ drop 8 (rs_data (resp_area w ! unat i)), rs_state := RESP_READY\<rparr>]"
  by (simp add: int_replied_def)

lemma int_replied_keeps [simp]:
  "int_queue_ok h (int_replied i v w) = int_queue_ok h w" "int_abs h (int_replied i v w) = int_abs h w"
  "h_resp_hint (hdr (int_replied i v w)) = h_resp_hint (hdr w)"
  by (simp_all add: int_replied_def wake_slot_def)

lemma int_data_room:
  assumes "int_ok h w" "\<not> hn_resp_slots h \<le> idx"
  shows "unat idx < length (resp_area w)" "slot_ok h (resp_area w ! unat idx)"
    "8 \<le> length (rs_data (resp_area w ! unat idx))"
proof -
  have ok: "slots_ok h w" "8 \<le> unat (hn_resp_data_max h)" using assms(1) by (auto simp: int_ok_def)
  show l: "unat idx < length (resp_area w)" by (rule slots_len [OF ok(1) assms(2)])
  then show s: "slot_ok h (resp_area w ! unat idx)" using ok(1) by (simp add: slots_ok_def)
  then show "8 \<le> length (rs_data (resp_area w ! unat idx))" using ok(2) by (simp add: slot_ok_def)
qed

lemma int_ok_replied:
  assumes "int_ok h w" "\<not> hn_resp_slots h \<le> idx"
  shows "int_ok h (int_replied idx v w)"
proof -
  have ok: "slots_ok h w" using assms(1) by (auto simp: int_ok_def)
  note d = int_data_room [OF assms]
  have "slot_ok h ((resp_area w ! unat idx)\<lparr>
      rs_data := le_bytes v @ drop 8 (rs_data (resp_area w ! unat idx)), rs_state := RESP_READY\<rparr>)"
    using d(2,3) by (auto simp: slot_ok_def)
  from slots_ok_set [OF ok this, of idx] have "slots_ok h (int_replied idx v w)"
    by (subst slots_ok_frame [where w = "set_resp_slot idx _ w"]) simp_all
  then show ?thesis using assms(1) by (simp add: int_ok_def)
qed

lemma int_reply_eq:
  assumes "quiet os" and "int_ok h w"
  shows "reqrep_int_reply os h id' v w = Some (
    let idx = REQREP_ID_SLOT id'; s = resp_area w ! unat idx in
    if hn_resp_slots h \<le> idx then (-1, w)
    else if rs_state s \<noteq> RESP_ACQUIRED \<or> rs_generation s \<noteq> REQREP_ID_GEN id' then (-2, w)
    else (1, int_replied idx v w))"
proof -
  let ?i = "REQREP_ID_SLOT id'" and ?s = "resp_area w ! unat (REQREP_ID_SLOT id')"
  note d = int_data_room [OF assms(2), of ?i]
  have mc: "memcpy (rs_data ?s) 0 (le_bytes v) 0 8 = Some (le_bytes v @ drop 8 (rs_data ?s))"
    if "\<not> hn_resp_slots h \<le> ?i"
    using d(3) [OF that] by (simp add: memcpy_def)
  show ?thesis
    using assms(1) d(1) mc
    by (simp add: reqrep_int_reply_def Let_def quiet_resp_slot cas_state_Some int_replied_def wake_slot_def)
qed

lemma int_try_get_eq:
  assumes "quiet os" and "int_ok h w"
  shows "reqrep_int_try_get id' os h w = Some (
    let idx = REQREP_ID_SLOT id'; s = resp_area w ! unat idx in
    if hn_resp_slots h \<le> idx then (-1, None, h, w)
    else if rs_generation s \<noteq> REQREP_ID_GEN id' then (-4, None, h, w)
    else if rs_state s \<noteq> RESP_READY then (0, None, h, w)
    else (1, Some (le_value (take 8 (rs_data s))), h, released idx w))"
  using assms(1) int_data_room [OF assms(2), of "REQREP_ID_SLOT id'"]
  by (simp add: reqrep_int_try_get_def Let_def quiet_resp_slot release_alone)

text \<open>
  Integer replies alone, on every branch: -1 for a slot outside the table, -2 for a
  slot that is not waiting or belongs to another generation, each without any change; and for a
  request that is waiting, any 64-bit value replied is the value fetched, sign and all, the
  slot being free afterwards, its generation unchanged and every other slot untouched.
\<close>

theorem int_reply_get_roundtrip:
  assumes "quiet os" and "int_ok h w"
  shows "(hn_resp_slots h \<le> REQREP_ID_SLOT id' \<longrightarrow> reqrep_int_reply os h id' v w = Some (-1, w)) \<and>
     (REQREP_ID_SLOT id' < hn_resp_slots h \<and> \<not> awaiting h id' w \<longrightarrow>
        reqrep_int_reply os h id' v w = Some (-2, w)) \<and>
     (awaiting h id' w \<longrightarrow> (\<exists>w1 w2. reqrep_int_reply os h id' v w = Some (1, w1) \<and>
        reqrep_int_try_get id' os h w1 = Some (1, Some v, h, w2) \<and> int_ok h w2 \<and>
        int_abs h w2 = int_abs h w \<and>
        (\<forall>j < length (resp_area w). j \<noteq> unat (REQREP_ID_SLOT id') \<longrightarrow> resp_area w2 ! j = resp_area w ! j) \<and>
        rs_state (resp_area w2 ! unat (REQREP_ID_SLOT id')) = RESP_FREE \<and>
        rs_generation (resp_area w2 ! unat (REQREP_ID_SLOT id')) = REQREP_ID_GEN id'))"
proof (intro conjI impI)
  let ?i = "REQREP_ID_SLOT id'"
  note eq = int_reply_eq [OF assms, of id' v]
  show "hn_resp_slots h \<le> ?i \<Longrightarrow> reqrep_int_reply os h id' v w = Some (-1, w)"
    using eq by (simp add: Let_def)
  show "?i < hn_resp_slots h \<and> \<not> awaiting h id' w \<Longrightarrow> reqrep_int_reply os h id' v w = Some (-2, w)"
    using eq by (auto simp: Let_def awaiting_def not_le [symmetric])
  assume aw: "awaiting h id' w"
  then have lt: "\<not> hn_resp_slots h \<le> ?i" by (simp add: awaiting_def not_le)
  note d = int_data_room [OF assms(2) lt]
  let ?w1 = "int_replied ?i v w" and ?w2 = "released ?i (int_replied ?i v w)"
  have ok1: "int_ok h ?w1" by (rule int_ok_replied [OF assms(2) lt])
  have r: "reqrep_int_reply os h id' v w = Some (1, ?w1)" using eq aw lt by (simp add: Let_def awaiting_def)
  have g: "reqrep_int_try_get id' os h ?w1 = Some (1, Some v, h, ?w2)"
    using int_try_get_eq [OF assms(1) ok1, of id'] lt d(1) aw by (simp add: Let_def awaiting_def)
  have "slots_ok h ?w2"
    using ok1 d(1) by (intro slots_ok_released) (simp_all add: int_ok_def)
  then have "int_ok h ?w2" using ok1 by (simp add: int_ok_def released_keeps)
  with r g aw d(1) show "\<exists>w1 w2. reqrep_int_reply os h id' v w = Some (1, w1) \<and>
      reqrep_int_try_get id' os h w1 = Some (1, Some v, h, w2) \<and> int_ok h w2 \<and>
      int_abs h w2 = int_abs h w \<and>
      (\<forall>j < length (resp_area w). j \<noteq> unat ?i \<longrightarrow> resp_area w2 ! j = resp_area w ! j) \<and>
      rs_state (resp_area w2 ! unat ?i) = RESP_FREE \<and>
      rs_generation (resp_area w2 ! unat ?i) = REQREP_ID_GEN id'"
    by (intro exI [of _ ?w1] exI [of _ ?w2]) (simp add: awaiting_def)
qed

theorem int_reply_get_roundtrip_witness:
  "\<exists>h w id' w1 w2. awaiting h id' w \<and> reqrep_int_reply quiet_os h id' (- 7) w = Some (1, w1) \<and>
     reqrep_int_try_get id' quiet_os h w1 = Some (1, Some (- 7), h, w2)"
proof -
  obtain h w where d: "int_ok h w" "resp_area w = [zero_resp_slot 64]" "hn_resp_slots h = 1"
    "int_abs h w = []" "hn_req_cap h = 2" using demo_int by metis
  have free: "\<exists>s \<in> set (resp_area w). rs_state s = RESP_FREE"
    using d(2) by (simp add: zero_resp_slot_def reqrep_consts)
  obtain id' w' where "int_ok h w'" "awaiting h id' w'"
    by (rule int_try_send_cases [OF quiet_quiet_os d(1), where v = 3])
      (use free d(4,5) length_int_abs [of h w] in auto)
  with int_reply_get_roundtrip [OF quiet_quiet_os this(1), of id' "- 7"] show ?thesis by blast
qed

text \<open>
  Property C13. One integer request, end to end: when the queue is empty and a response slot is
  free, sending succeeds, the server receives the value under the identifier the client holds,
  replying succeeds and the client fetches the reply; afterwards the queue is empty, the slot is
  free and the mapping in order. Nothing here takes the mutex.
\<close>

theorem int_request_end_to_end:
  assumes "quiet oc" "quiet os'" and "int_ok h w" and "int_abs h w = []"
    and "\<exists>s \<in> set (resp_area w). rs_state s = RESP_FREE"
  shows "\<exists>id' w1 w2 w3 w4.
     reqrep_int_try_send v oc h w = Some (1, Some id', h, w1) \<and>
     reqrep_int_try_recv os' h w1 = Some (1, Some \<lparr>io_value = v, io_id = id'\<rparr>, h, w2) \<and>
     reqrep_int_reply os' h id' a w2 = Some (1, w3) \<and>
     reqrep_int_try_get id' oc h w3 = Some (1, Some a, h, w4) \<and>
     int_ok h w4 \<and> int_abs h w4 = [] \<and>
     rs_state (resp_area w4 ! unat (REQREP_ID_SLOT id')) = RESP_FREE"
proof -
  have "queue_count w = 0" using assms(4) length_int_abs [of h w] by simp
  then have cap: "queue_count w \<noteq> unat (hn_req_cap h)" using assms(3) by (simp add: int_ok_def int_queue_ok_def)
  obtain id' w1 where send: "reqrep_int_try_send v oc h w = Some (1, Some id', h, w1)" "int_ok h w1"
    "int_abs h w1 = [(v, id')]" "awaiting h id' w1"
    by (rule int_try_send_cases [OF assms(1,3), where v = v]) (use assms(4,5) cap in auto)
  obtain r w2 where recv: "reqrep_int_try_recv os' h w1 = Some (1, Some r, h, w2)"
    "int_abs h w1 = (io_value r, io_id r) # int_abs h w2" "int_ok h w2" "resp_area w2 = resp_area w1"
    by (rule int_try_recv_cases [OF assms(2) send(2)]) (use send(3) in auto)
  have r: "r = \<lparr>io_value = v, io_id = id'\<rparr>" and nil: "int_abs h w2 = []"
    using recv(2) send(3) by (cases r; simp)+
  let ?i = "REQREP_ID_SLOT id'"
  have aw: "awaiting h id' w2" using send(4) recv(4) by (simp add: awaiting_def)
  then have lt: "\<not> hn_resp_slots h \<le> ?i" by (simp add: awaiting_def not_le)
  let ?w3 = "int_replied ?i a w2" and ?w4 = "released ?i (int_replied ?i a w2)"
  have ok3: "int_ok h ?w3" by (rule int_ok_replied [OF recv(3) lt])
  have l: "unat ?i < length (resp_area w2)" by (rule int_data_room(1) [OF recv(3) lt])
  have rep: "reqrep_int_reply os' h id' a w2 = Some (1, ?w3)"
    using int_reply_eq [OF assms(2) recv(3)] aw lt by (simp add: Let_def awaiting_def)
  have get: "reqrep_int_try_get id' oc h ?w3 = Some (1, Some a, h, ?w4)"
    using int_try_get_eq [OF assms(1) ok3, of id'] lt l aw by (simp add: Let_def awaiting_def)
  have "slots_ok h ?w4" using ok3 l by (intro slots_ok_released) (simp_all add: int_ok_def)
  then have "int_ok h ?w4" using ok3 by (simp add: int_ok_def released_keeps)
  moreover have "rs_state (resp_area ?w4 ! unat ?i) = RESP_FREE" using l by simp
  ultimately show ?thesis using send(1) recv(1) rep get nil unfolding r by auto
qed

theorem int_request_end_to_end_witness:
  "\<exists>h w id' w1 w2 w3 w4.
     reqrep_int_try_send 12 quiet_os h w = Some (1, Some id', h, w1) \<and>
     reqrep_int_try_recv quiet_os h w1 = Some (1, Some \<lparr>io_value = 12, io_id = id'\<rparr>, h, w2) \<and>
     reqrep_int_reply quiet_os h id' (- 1) w2 = Some (1, w3) \<and>
     reqrep_int_try_get id' quiet_os h w3 = Some (1, Some (- 1), h, w4)"
proof -
  obtain h w where d: "int_ok h w" "int_abs h w = []" "resp_area w = [zero_resp_slot 64]"
    using demo_int by metis
  have "\<exists>s \<in> set (resp_area w). rs_state s = RESP_FREE"
    using d(3) by (simp add: zero_resp_slot_def reqrep_consts)
  from int_request_end_to_end [OF quiet_quiet_os quiet_quiet_os d(1,2) this, of 12 "- 1"]
  show ?thesis by blast
qed

section \<open>Waiting, timing out, clearing\<close>

lemma int_ok_add_waiters:
  assumes "int_ok h w"
  shows "int_ok h (add_waiters wt n w)"
proof -
  have same: "h_resp_hint (hdr (add_waiters wt n w)) = h_resp_hint (hdr w)"
    "resp_area (add_waiters wt n w) = resp_area w"
    by (cases wt; simp)+
  show ?thesis
    using assms slots_ok_frame [OF same(2), of h] unfolding int_ok_def int_queue_frames same by simp
qed

interpretation int_send_call: waiting_call "reqrep_int_try_send v" "\<lambda>r. r = 1"
    "\<lambda>r. if r = -3 then Wslot else Wsend" int_ok
proof
  fix os h w assume "quiet os" "int_ok h w"
  then show "returns (reqrep_int_try_send v os h w)
      (\<lambda>(r, out, h', w'). int_ok h' w' \<and> (\<forall>wt. waiters_of wt w' = waiters_of wt w))"
    by (cases rule: int_try_send_cases [where v = v]) (use \<open>int_ok h w\<close> in simp_all)
qed (rule int_ok_add_waiters)

interpretation int_recv_call: waiting_call reqrep_int_try_recv "\<lambda>r. r \<noteq> 0" "\<lambda>_. Wrecv" int_ok
proof
  fix os h w assume "quiet os" "int_ok h w"
  then show "returns (reqrep_int_try_recv os h w)
      (\<lambda>(r, out, h', w'). int_ok h' w' \<and> (\<forall>wt. waiters_of wt w' = waiters_of wt w))"
    by (cases rule: int_try_recv_cases) simp_all
qed (rule int_ok_add_waiters)

text \<open>
  Property C30. The waiting send and receive of integer mode return when the waits time out,
  whatever the timeout, with the mapping in order and every waiter count as before the call.
\<close>

theorem int_waiting_calls_return:
  assumes "quiet os" and "\<And>p. os_futex os p = Some ETIMEDOUT" and "int_ok h w"
  shows "returns (reqrep_int_send_wait v timeout os h w)
           (\<lambda>(r, oid, h', w'). int_ok h' w' \<and> (\<forall>wt. waiters_of wt w' = waiters_of wt w)) \<and>
         returns (reqrep_int_recv_wait timeout os h w)
           (\<lambda>(r, out, h', w'). int_ok h' w' \<and> (\<forall>wt. waiters_of wt w' = waiters_of wt w))"
  unfolding reqrep_int_send_wait_def reqrep_int_recv_wait_def
  using int_send_call.waiting_returns [OF assms] int_recv_call.waiting_returns [OF assms] by blast

theorem int_waiting_calls_return_witness:
  "\<exists>h w. int_ok h w \<and> returns (reqrep_int_recv_wait 3 quiet_os h w)
     (\<lambda>(r, out, h', w'). int_ok h' w' \<and> waiters_of Wrecv w' = 0)"
proof -
  obtain h w where d: "int_ok h w" "h_recv_waiters (hdr w) = 0" using demo_int by metis
  have t: "\<And>p. os_futex quiet_os p = Some ETIMEDOUT" by (simp add: quiet_os_def)
  have "returns (reqrep_int_recv_wait 3 quiet_os h w)
      (\<lambda>(r, out, h', w'). int_ok h' w' \<and> (\<forall>wt. waiters_of wt w' = waiters_of wt w))"
    using int_waiting_calls_return [OF quiet_quiet_os t d(1), of 0 3] by simp
  then have "returns (reqrep_int_recv_wait 3 quiet_os h w)
      (\<lambda>(r, out, h', w'). int_ok h' w' \<and> waiters_of Wrecv w' = 0)"
    by (rule returns_mono) (use d(2) in \<open>auto dest: spec [of _ Wrecv]\<close>)
  with d(1) show ?thesis by blast
qed

lemma int_ok_cancelled:
  assumes "int_ok h w" "slots_ok h (cancelled i w)"
  shows "int_ok h (cancelled i w)"
  using assms by (simp add: int_ok_def cancelled_keeps)

text \<open>
  Property C31. A combined integer request that nobody answers returns 0 at its deadline and
  cleans up: its response slot is free again with its generation advanced, so its identifier is
  stale: a late reply under it and a fetch of it are refused; the other slots are untouched and the mapping is in order. The request itself is still
  queued, for a server to find.
\<close>

theorem int_request_timeout_cleans_up:
  assumes os: "quiet os" and ok: "int_ok h w" and "int_abs h w = []"
    and free: "\<exists>s \<in> set (resp_area w). rs_state s = RESP_FREE" and "0 < timeout"
  defines "T \<equiv> time_left (os_clock os [2]) (make_deadline_opt (os_clock os [0]) timeout) timeout"
  assumes "T \<le> 0 \<or> (\<exists>j < os_fuel os [4]. expired (os_clock os [4, 2, j, 8])
      (make_deadline_opt (os_clock os [4, 1]) T))"
  shows "\<exists>id' w'. reqrep_int_request v timeout os h w = Some (0, None, h, w') \<and> int_ok h w' \<and>
     int_abs h w' = [(v, id')] \<and>
     rs_state (resp_area w' ! unat (REQREP_ID_SLOT id')) = RESP_FREE \<and>
     rs_generation (resp_area w' ! unat (REQREP_ID_SLOT id')) = REQREP_ID_GEN id' + 1 \<and>
     reqrep_int_reply os h id' a w' = Some (-2, w') \<and>
     reqrep_int_try_get id' os h w' = Some (-4, None, h, w') \<and>
     (\<forall>j < length (resp_area w). j \<noteq> unat (REQREP_ID_SLOT id') \<longrightarrow> resp_area w' ! j = resp_area w ! j)"
proof -
  have q: "quiet (sub os k)" "quiet (sub (sub os k) j)" for k j using os by simp_all
  have "queue_count w = 0" using assms(3) length_int_abs [of h w] by simp
  then have cap: "queue_count w \<noteq> unat (hn_req_cap h)" using ok by (simp add: int_ok_def int_queue_ok_def)
  obtain id' w1 where send: "reqrep_int_try_send v (sub (sub os 1) 0) h w = Some (1, Some id', h, w1)"
    "int_ok h w1" "int_abs h w1 = [(v, id')]" "awaiting h id' w1"
    "\<forall>j < length (resp_area w). j \<noteq> unat (REQREP_ID_SLOT id') \<longrightarrow> resp_area w1 ! j = resp_area w ! j"
    by (rule int_try_send_cases [OF q(2) ok, where v = v]) (use assms(3) free cap in auto)
  have sw: "reqrep_int_send_wait v timeout (sub os 1) h w = Some (1, Some id', h, w1)"
    using send(1) by (simp add: reqrep_int_send_wait_def waiting_def)
  let ?i = "REQREP_ID_SLOT id'" and ?w2 = "cancelled (REQREP_ID_SLOT id') w1"
  have s1: "slots_ok h w1" using send(2) by (simp add: int_ok_def)
  have lt: "\<not> hn_resp_slots h \<le> ?i" using send(4) by (simp add: awaiting_def not_le)
  note c = awaiting_cancel [OF os s1 send(4)]
  have ok2: "int_ok h ?w2" by (rule int_ok_cancelled [OF send(2) c(2)])
  have pending: "reqrep_int_try_get id' o' h w1 = Some (0, None, h, w1)" if "quiet o'" for o'
    using int_try_get_eq [OF that send(2), of id'] send(4) lt by (simp add: awaiting_def Let_def)
  have stale: "reqrep_int_try_get id' o' h ?w2 = Some (-4, None, h, ?w2)" if "quiet o'" for o'
    using int_try_get_eq [OF that ok2, of id'] c(3) lt by (simp add: Let_def)
  have run: "reqrep_int_request v timeout os h w = Some (0, None, h, ?w2)"
    unfolding reqrep_int_request_def reqrep_int_get_wait_def
    by (rule requesting_times_out [OF os s1 send(4) assms(5)])
      (use sw pending stale assms(7) in \<open>simp_all add: T_def\<close>)
  have l: "unat ?i < length (resp_area w1)" by (rule int_data_room(1) [OF send(2) lt])
  have "reqrep_int_reply os h id' a ?w2 = Some (-2, ?w2)"
    using int_reply_eq [OF os ok2, of id' a] l lt by (simp add: Let_def)
  moreover have "\<forall>j < length (resp_area w). j \<noteq> unat ?i \<longrightarrow> resp_area ?w2 ! j = resp_area w ! j"
    using send(5) by simp
  moreover have "rs_state (resp_area ?w2 ! unat ?i) = RESP_FREE" using l by simp
  ultimately show ?thesis
    using run ok2 send(3) c(3) stale [OF os] by (intro exI [of _ id'] exI [of _ ?w2]) simp
qed

theorem int_request_timeout_cleans_up_witness:
  "\<exists>os h w id' w'. reqrep_int_request 4 1 os h w = Some (0, None, h, w') \<and> int_abs h w' = [(4, id')] \<and>
     reqrep_int_reply os h id' 9 w' = Some (-2, w')"
proof -
  define os where "os = quiet_os\<lparr>os_clock := \<lambda>p. if p = [2] then \<lparr>tv_sec = 100, tv_nsec = 0\<rparr>
       else \<lparr>tv_sec = 0, tv_nsec = 0\<rparr>\<rparr>"
  obtain h w where d: "int_ok h w" "int_abs h w = []" "resp_area w = [zero_resp_slot 64]"
    using demo_int by metis
  have q: "quiet os" by (simp add: os_def quiet_def quiet_os_def)
  have free: "\<exists>s \<in> set (resp_area w). rs_state s = RESP_FREE"
    using d(3) by (simp add: zero_resp_slot_def reqrep_consts)
  have T: "time_left (os_clock os [2]) (make_deadline_opt (os_clock os [0]) 1) 1 \<le> 0"
    using rnd64_int [of 1] rnd64_int [of "-99"]
    by (simp add: os_def time_left_def make_deadline_opt_def make_deadline_split frac_nanos_def)
  from int_request_timeout_cleans_up [OF q d(1,2) free _ disjI1 [OF T], of 4 9] show ?thesis
    by (simp, blast)
qed

lemma reset_sequences_alone:
  assumes "quiet os"
  shows "length (int_slots w) = c \<Longrightarrow> a \<le> c \<Longrightarrow> reset_sequences os [a..<c] w = Some (w\<lparr>int_slots :=
     take a (int_slots w) @ map (\<lambda>i. (int_slots w ! i)\<lparr>ri_sequence := of_nat i\<rparr>) [a..<c]\<rparr>)"
proof (induction "c - a" arbitrary: a w)
  case (Suc m)
  then have a: "a < c" by simp
  let ?w = "w\<lparr>int_slots := (int_slots w)[a := (int_slots w ! a)\<lparr>ri_sequence := of_nat a\<rparr>]\<rparr>"
  have "reset_sequences os [Suc a..<c] ?w = Some (?w\<lparr>int_slots := take (Suc a) (int_slots ?w) @
      map (\<lambda>i. (int_slots ?w ! i)\<lparr>ri_sequence := of_nat i\<rparr>) [Suc a..<c]\<rparr>)"
    by (rule Suc.hyps(1)) (use Suc a in simp_all)
  moreover have "map (\<lambda>i. (int_slots ?w ! i)\<lparr>ri_sequence := of_nat i\<rparr>) [Suc a..<c] =
      map (\<lambda>i. (int_slots w ! i)\<lparr>ri_sequence := of_nat i\<rparr>) [Suc a..<c]"
    by (rule map_cong) auto
  ultimately show ?case
    using a assms Suc.prems(1)
    by (simp add: upt_conv_Cons upd_int_def take_Suc_conv_app_nth take_update_swap list_update_append)
qed simp

lemma int_reset_ok:
  assumes "int_queue_ok h w" and "h_req_head (hdr w') = 0" "h_req_tail (hdr w') = 0"
    and "int_slots w' = map (\<lambda>i. (int_slots w ! i)\<lparr>ri_sequence := of_nat i\<rparr>) [0..<unat (hn_req_cap h)]"
  shows "int_queue_ok h w'" "int_abs h w' = []"
proof -
  have ring: "ring_ok h" using assms(1) by (simp add: int_queue_ok_def)
  have cnt: "queue_count w' = 0" by (simp add: queue_count_def assms)
  then show "int_abs h w' = []" by (simp add: int_abs_def)
  have "ri_sequence (int_at h w' i) = of_nat i" if "i < unat (hn_req_cap h)" for i
    using that ring_idx_add [OF ring, of 0 i] by (simp add: int_at_def assms)
  then show "int_queue_ok h w'" using assms(1) by (simp add: int_queue_ok_def cnt assms)
qed

lemma int_clear_run:
  assumes "quiet os" and "slots_ok h w" and "length (int_slots w) = unat (hn_req_cap h)"
  obtains w' a b c where "reqrep_int_clear os h w = Some w'"
    "hdr w' = (hdr w)\<lparr>h_req_head := 0, h_req_tail := 0, h_slot_futex := a, h_send_futex := b, h_recv_futex := c\<rparr>"
    "resp_area w' = map cleared (resp_area w)"
    "int_slots w' = map (\<lambda>i. (int_slots w ! i)\<lparr>ri_sequence := of_nat i\<rparr>) [0..<unat (hn_req_cap h)]"
proof -
  let ?c = "unat (hn_req_cap h)"
  define w1 where "w1 = hdr_update (\<lambda>x. x\<lparr>h_req_tail := 0\<rparr>) (hdr_update (\<lambda>x. x\<lparr>h_req_head := 0\<rparr>) w)"
  have len: "length (int_slots w1) = ?c" using assms(3) by (simp add: w1_def)
  define w2 where "w2 = w1\<lparr>int_slots :=
     map (\<lambda>i. (int_slots w1 ! i)\<lparr>ri_sequence := of_nat i\<rparr>) [0..<?c]\<rparr>"
  have rs: "reset_sequences (sub os 2) [0..<?c] w1 = Some w2"
    using reset_sequences_alone [OF quiet_sub [OF assms(1)] len, of 0] by (simp add: w2_def)
  have area2: "resp_area w2 = resp_area w" by (simp add: w2_def w1_def)
  have s2: "slots_ok h w2" using assms(2) slots_ok_frame [OF area2] by simp
  obtain w' a b c where cr: "clear_responses (sub os 3) h w2 = Some w'"
    "hdr w' = (hdr w2)\<lparr>h_slot_futex := a, h_send_futex := b, h_recv_futex := c\<rparr>"
    "resp_area w' = map cleared (resp_area w2)" "int_slots w' = int_slots w2"
    by (rule clear_responses_alone [OF quiet_sub [OF assms(1)] s2])
  have "reqrep_int_clear os h w = Some w'"
    using assms(1) rs cr(1) unfolding reqrep_int_clear_def w1_def by (simp add: Let_def)
  then show thesis
    by (rule that [of w' c b a]) (simp_all add: cr(2-4) w2_def w1_def)
qed

text \<open>
  Property C29. Clearing an integer mapping alone empties the queue, restores the sequence numbers
  of a new one and frees every response slot. Each slot that was in use, acquired or ready, has its
  generation advanced, so every identifier outstanding before, answered or not, is stale after: a
  reply under it and a fetch of it are refused.
\<close>

theorem int_clear_alone:
  assumes "quiet os" and "int_ok h w"
  shows "returns (reqrep_int_clear os h w) (\<lambda>w'. int_ok h w' \<and> int_abs h w' = [] \<and>
     reqrep_int_size w' = 0 \<and> (\<forall>s \<in> set (resp_area w'). rs_state s = RESP_FREE) \<and>
     (\<forall>i < length (resp_area w). rs_state (resp_area w ! i) \<noteq> RESP_FREE \<longrightarrow>
        rs_generation (resp_area w' ! i) = rs_generation (resp_area w ! i) + 1) \<and>
     (\<forall>id'. REQREP_ID_SLOT id' < hn_resp_slots h \<and>
        rs_state (resp_area w ! unat (REQREP_ID_SLOT id')) \<noteq> RESP_FREE \<and>
        rs_generation (resp_area w ! unat (REQREP_ID_SLOT id')) = REQREP_ID_GEN id' \<longrightarrow>
        reqrep_int_reply os h id' v w' = Some (-2, w') \<and>
        reqrep_int_try_get id' os h w' = Some (-4, None, h, w')))"
proof -
  have parts: "int_queue_ok h w" "slots_ok h w" using assms(2) by (auto simp: int_ok_def)
  have len: "length (int_slots w) = unat (hn_req_cap h)" using parts(1) by (simp add: int_queue_ok_def)
  obtain w' a b c where cr: "reqrep_int_clear os h w = Some w'"
    "hdr w' = (hdr w)\<lparr>h_req_head := 0, h_req_tail := 0, h_slot_futex := a, h_send_futex := b, h_recv_futex := c\<rparr>"
    "resp_area w' = map cleared (resp_area w)"
    "int_slots w' = map (\<lambda>i. (int_slots w ! i)\<lparr>ri_sequence := of_nat i\<rparr>) [0..<unat (hn_req_cap h)]"
    by (rule int_clear_run [OF assms(1) parts(2) len])
  note run = cr(1) and area = cr(3)
  have hd: "h_req_head (hdr w') = 0" "h_req_tail (hdr w') = 0" "h_resp_hint (hdr w') = h_resp_hint (hdr w)"
    by (simp_all add: cr(2))
  have q: "int_queue_ok h w'" "int_abs h w' = []"
    by (rule int_reset_ok [OF parts(1)]; simp add: hd cr(4))+
  have ok: "int_ok h w'" using assms(2) q slots_ok_cleared [OF parts(2) area] hd by (simp add: int_ok_def)
  have gens: "rs_generation (resp_area w' ! i) = rs_generation (resp_area w ! i) + 1"
    if "i < length (resp_area w)" "rs_state (resp_area w ! i) \<noteq> RESP_FREE" for i
    using parts(2) that unfolding area by (auto simp: cleared_def slots_ok_def slot_ok_def dest: nth_mem)
  have stale: "reqrep_int_reply os h id' v w' = Some (-2, w') \<and>
      reqrep_int_try_get id' os h w' = Some (-4, None, h, w')"
    if "REQREP_ID_SLOT id' < hn_resp_slots h"
      "rs_state (resp_area w ! unat (REQREP_ID_SLOT id')) \<noteq> RESP_FREE"
      "rs_generation (resp_area w ! unat (REQREP_ID_SLOT id')) = REQREP_ID_GEN id'" for id'
  proof -
    let ?i = "REQREP_ID_SLOT id'"
    have lt: "\<not> hn_resp_slots h \<le> ?i" using that(1) by (simp add: not_le)
    have "rs_generation (resp_area w' ! unat ?i) = REQREP_ID_GEN id' + 1"
      using gens [OF int_data_room(1) [OF assms(2) lt] that(2)] that(3) by simp
    then show ?thesis
      using int_reply_eq [OF assms(1) ok, of id' v] int_try_get_eq [OF assms(1) ok, of id'] lt
      by (simp add: Let_def)
  qed
  have "\<forall>s \<in> set (resp_area w'). rs_state s = RESP_FREE"
    using parts(2) unfolding area by (auto simp: cleared_def slots_ok_def slot_ok_def)
  with run ok q stale gens hd show ?thesis by (simp add: reqrep_int_size_def)
qed

theorem int_clear_alone_witness:
  "\<exists>h w. int_ok h w \<and> returns (reqrep_int_clear quiet_os h w) (\<lambda>w'. int_ok h w' \<and> int_abs h w' = [])"
proof -
  obtain h w where d: "int_ok h w" using demo_int by metis
  from int_clear_alone [OF quiet_quiet_os d, of 0] have "returns (reqrep_int_clear quiet_os h w)
      (\<lambda>w'. int_ok h w' \<and> int_abs h w' = [])" by (rule returns_mono) simp
  with d show ?thesis by blast
qed

section \<open>Clearing under a send\<close>

text \<open>A sender that finds a sequence number ahead of the tail looks again for ever.\<close>

lemma int_send_loop_stuck:
  assumes "quiet os" and "int_slot h (h_req_tail (hdr w)) < length (int_slots w)"
    and "0 < sint (ri_sequence (int_slots w ! int_slot h (h_req_tail (hdr w))) - h_req_tail (hdr w))"
  shows "int_send_loop os fuel k h v rslot gen (h_req_tail (hdr w)) w = None"
  using assms by (induction fuel arbitrary: k) (simp_all add: int_send_loop.simps Let_def)

lemma int_try_send_stuck:
  assumes "quiet os" and "slots_ok h w" "unat (hn_resp_slots h) \<le> 2 ^ 31" "h_resp_hint (hdr w) < hn_resp_slots h"
    and "\<exists>s \<in> set (resp_area w). rs_state s = RESP_FREE"
    and "int_slot h (h_req_tail (hdr w)) < length (int_slots w)"
    and "0 < sint (ri_sequence (int_slots w ! int_slot h (h_req_tail (hdr w))) - h_req_tail (hdr w))"
  shows "reqrep_int_try_send v os h w = None"
proof -
  have q: "quiet (sub os k)" for k using assms(1) by simp
  from q [of 0] assms(2-4) show ?thesis
  proof (cases rule: acquire_cases)
    case none
    with assms(5) show ?thesis by blast
  next
    case (slot idx w1)
    have same: "int_slots w1 = int_slots w" "h_req_tail (hdr w1) = h_req_tail (hdr w)"
      using slot(3) unfolding acquired_def by auto
    have "slots_ok h w1" using acquired_keeps(9) [OF slot(3) assms(2) slot(1)] .
    then have "unat idx < length (resp_area w1)" using slot(1) by (simp add: slots_ok_def)
    then show ?thesis
      using slot(2) assms(1) int_send_loop_stuck [OF q [of 3], of h w1] assms(6,7)
      by (simp add: reqrep_int_try_send_def quiet_resp_slot same)
  qed
qed

text \<open>A process that sends alone but for another that clears the mapping between the sender's
  claim of a position and its store of the payload.\<close>

definition clear_before_write :: "ReqRepHandle \<Rightarrow> os" where
  "clear_before_write h = quiet_os\<lparr>os_run := \<lambda>p w. if p = [3, 0, 2]
     then (case reqrep_int_clear quiet_os h w of Some w' \<Rightarrow> w' | None \<Rightarrow> w) else w\<rparr>"

text \<open>
  Property C34. Clearing is not safe while a send is under way. On a new queue, let a clear come
  between the exchange that claims the tail and the store of the sequence number. The send
  still reports success, but the cursors are 0 while slot 0 carries the sequence number 1, and from
  then on every call of \<^verbatim>\<open>reqrep_int_try_send\<close> that gets a response slot goes round its loop
  without end.
\<close>

theorem int_clear_under_send_blocks:
  assumes "int_ok h w" "h_req_head (hdr w) = 0" "h_req_tail (hdr w) = 0"
    and "\<exists>s \<in> set (resp_area w). rs_state s = RESP_FREE"
  shows "\<exists>id' w'. reqrep_int_try_send v (clear_before_write h) h w = Some (1, Some id', h, w') \<and>
     h_req_tail (hdr w') = 0 \<and>
     (\<forall>os x. quiet os \<longrightarrow> reqrep_int_try_send x os h w' = None)"
proof -
  let ?os = "clear_before_write h"
  have parts: "int_queue_ok h w" "slots_ok h w" "unat (hn_resp_slots h) \<le> 2 ^ 31"
    "h_resp_hint (hdr w) < hn_resp_slots h" using assms(1) by (auto simp: int_ok_def)
  have q0: "quiet (sub ?os 0)" by (simp add: quiet_def clear_before_write_def quiet_os_def)
  obtain idx w1 where slot: "unat idx < unat (hn_resp_slots h)"
    "reqrep_slot_acquire (sub ?os 0) h w = Some (int (unat idx), w1)"
    "acquired h (os_pid (sub ?os 0)) idx w w1"
    by (rule acquire_cases [OF q0 parts(2-4)]) (use assms(4) in auto)
  have s1: "slots_ok h w1" using acquired_keeps(9) [OF slot(3) parts(2) slot(1)] .
  have l1: "unat idx < length (resp_area w1)" using s1 slot(1) by (simp add: slots_ok_def)
  have hd1: "int_slots w1 = int_slots w" "h_req_tail (hdr w1) = 0"
    using slot(3) assms(3) unfolding acquired_def by auto
  have hint1: "h_resp_hint (hdr w1) < hn_resp_slots h" using acquired_keeps(4) [OF slot(3) parts(4)] .
  have q1: "int_queue_ok h w1" "queue_count w1 = 0"
    using acquired_int [OF slot(3)] parts(1) assms(2,3) by (simp_all add: queue_count_def)
  have two: "2 \<le> unat (hn_req_cap h)" "ring_ok h" and len: "length (int_slots w1) = unat (hn_req_cap h)"
    using q1(1) by (auto simp: int_queue_ok_def)
  have i0: "int_slot h 0 = 0" by (simp add: int_slot_def)
  have sq: "ri_sequence (int_slots w1 ! 0) = 0"
    using int_seq_at_tail(1) [OF q1(1)] q1(2) hd1(2) two i0 by (simp add: signed_eq_0_iff)
  let ?w2 = "hdr_update (\<lambda>x. x\<lparr>h_req_tail := 1\<rparr>) w1"
  have area2: "resp_area ?w2 = resp_area w1" by simp
  have s2: "slots_ok h ?w2" using s1 slots_ok_frame [OF area2, of h] by blast
  have len2: "length (int_slots ?w2) = unat (hn_req_cap h)" using len by simp
  obtain w3 a b c where cl: "reqrep_int_clear quiet_os h ?w2 = Some w3"
    "hdr w3 = (hdr ?w2)\<lparr>h_req_head := 0, h_req_tail := 0, h_slot_futex := a, h_send_futex := b, h_recv_futex := c\<rparr>"
    "resp_area w3 = map cleared (resp_area ?w2)"
    "int_slots w3 = map (\<lambda>i. (int_slots ?w2 ! i)\<lparr>ri_sequence := of_nat i\<rparr>) [0..<unat (hn_req_cap h)]"
    by (rule int_clear_run [OF quiet_quiet_os s2 len2])
  have e: "os_run ?os p x = (if p = [3, 0, 2]
      then (case reqrep_int_clear quiet_os h x of Some w' \<Rightarrow> w' | None \<Rightarrow> x) else x)"
    "os_spurious ?os p = False" "os_fuel ?os p = Suc 0" for p x
    by (simp_all add: clear_before_write_def quiet_os_def)
  let ?gen = "rs_generation (resp_area w1 ! unat idx)"
  define w4 where "w4 = hdr_update (\<lambda>x. x\<lparr>h_stat_requests := h_stat_requests x + 1\<rparr>)
     (w3\<lparr>int_slots := (int_slots w3)[0 := (int_slots w3 ! 0)\<lparr>ri_value := v, ri_resp_slot := idx,
        ri_resp_gen := ?gen, ri_sequence := 1\<rparr>]\<rparr>)"
  have len3: "0 < length (int_slots w3)" "0 < length (int_slots w1)" using two len by (simp_all add: cl(4))
  have run: "int_send_loop (sub ?os 3) (os_fuel ?os [3]) 0 h v idx ?gen 0 w1 =
      Some (1, Some (REQREP_MAKE_ID idx ?gen), reqrep_wake_consumers w4)"
    unfolding e(3) using len3 sq cl(1) hd1(2)
    by (simp add: int_send_loop.simps Let_def e i0 upd_int_def w4_def)
  have send: "reqrep_int_try_send v ?os h w =
      Some (1, Some (REQREP_MAKE_ID idx ?gen), h, reqrep_wake_consumers w4)"
    using slot(2) run l1 hd1(2) by (simp add: reqrep_int_try_send_def e quiet_resp_slot)
  let ?w' = "reqrep_wake_consumers w4"
  have int': "int_slots ?w' = int_slots w4" "h_req_tail (hdr ?w') = h_req_tail (hdr w4)"
    by (simp_all add: wake_defs)
  have tl: "h_req_tail (hdr ?w') = 0" unfolding int' by (simp add: w4_def cl(2))
  have area: "resp_area ?w' = map cleared (resp_area w1)"
    by (simp add: wake_consumers_keeps w4_def cl(3))
  have s': "slots_ok h ?w'" by (rule slots_ok_cleared [OF s1 area])
  have free: "\<exists>s \<in> set (resp_area ?w'). rs_state s = RESP_FREE"
  proof
    show "cleared (resp_area w1 ! unat idx) \<in> set (resp_area ?w')"
      unfolding area using l1 by simp
    have "slot_ok h (resp_area w1 ! unat idx)" using s1 l1 by (simp add: slots_ok_def)
    then show "rs_state (cleared (resp_area w1 ! unat idx)) = RESP_FREE"
      by (auto simp: cleared_def slot_ok_def)
  qed
  have hint: "h_resp_hint (hdr ?w') < hn_resp_slots h"
    using hint1 by (simp add: wake_consumers_keeps w4_def cl(2))
  have sl0: "int_slots ?w' ! 0 = (int_slots w3 ! 0)\<lparr>ri_value := v, ri_resp_slot := idx,
      ri_resp_gen := ?gen, ri_sequence := 1\<rparr>" "0 < length (int_slots ?w')"
    unfolding int' using len3 by (simp_all add: w4_def)
  have "reqrep_int_try_send x os h ?w' = None" if "quiet os" for os x
    by (rule int_try_send_stuck [OF that s' parts(3) hint free]; simp only: tl i0)
      (use sl0 in simp_all)
  with send tl show ?thesis by blast
qed

theorem int_clear_under_send_blocks_witness:
  "\<exists>h w id' w'. int_ok h w \<and> reqrep_int_try_send 5 (clear_before_write h) h w = Some (1, Some id', h, w') \<and>
     reqrep_int_try_send 6 quiet_os h w' = None"
proof -
  obtain h w where d: "int_ok h w" "h_req_head (hdr w) = 0" "h_req_tail (hdr w) = 0"
    "resp_area w = [zero_resp_slot 64]" using demo_int by metis
  have free: "\<exists>s \<in> set (resp_area w). rs_state s = RESP_FREE"
    using d(4) by (simp add: zero_resp_slot_def reqrep_consts)
  obtain id' w' where "reqrep_int_try_send 5 (clear_before_write h) h w = Some (1, Some id', h, w')"
    "\<forall>os x. quiet os \<longrightarrow> reqrep_int_try_send x os h w' = None"
    using int_clear_under_send_blocks [OF d(1-3) free, of 5] by blast
  with d(1) quiet_quiet_os show ?thesis by blast
qed

section \<open>A ring of one slot\<close>

text \<open>The creating functions never make one (\<open>reqrep_next_pow2\<close> answers at least 2), but
  \<^verbatim>\<open>reqrep_validate_header\<close> accepts a header with a request capacity of 1. In such a ring the
  number a send leaves in the slot, its position plus one, is the number the next send expects
  of a free slot: the queued request is overwritten.\<close>

lemma one_slot_ring_overwrites:
  assumes "quiet os" and "hn_req_cap_mask h = 0" and "int_slots w = [s]"
    and "ri_sequence s = h_req_tail (hdr w)"
  shows "\<exists>w'. int_send_loop os (Suc fuel) k h v rslot gen (h_req_tail (hdr w)) w =
       Some (1, Some (REQREP_MAKE_ID rslot gen), w') \<and>
     int_slots w' = [\<lparr>ri_sequence = h_req_tail (hdr w) + 1, ri_value = v,
        ri_resp_slot = rslot, ri_resp_gen = gen\<rparr>] \<and>
     h_req_tail (hdr w') = h_req_tail (hdr w) + 1 \<and> h_req_head (hdr w') = h_req_head (hdr w)"
  using assms by (simp add: int_send_loop.simps int_slot_def Let_def upd_int_def wake_defs int_slot_written)

end
