(* ===== verification/RR_Vyukov.thy ===== *)
theory RR_Vyukov
  imports RR_Int "HOL-Library.Multiset"
begin

text \<open>
  The lock-free queue of integer mode under concurrency: any number of threads of any number of
  processes run the loops of \<^verbatim>\<open>reqrep_int_try_send\<close> (lines 1358 to 1381) and
  \<^verbatim>\<open>reqrep_int_try_recv\<close> (lines 1424 to 1443) at once. A step is one atomic access of one thread,
  over the mapping of \<^verbatim>\<open>RR_Int\<close> and with its operations; the plain accesses to the payload of a
  slot are one step, which the exclusion shown below justifies. A thread that dies stops moving.
  Whatever the processes do to the rest of the mapping (response slots, counters, futex words)
  is a step of its own. Clearing resets the cursors and the sequence numbers under the threads and is
  not among the steps: \<^verbatim>\<open>RR_Int\<close> shows what it breaks when it meets a send.

  Positions are 64-bit words. The theorems hold until \<open>2 ^ 63\<close> requests have been sent, so that
  no position comes round again.
\<close>

section \<open>Threads and steps\<close>

text \<open>The payload of a request slot: value, response slot and generation.\<close>

type_synonym payload = "u64 \<times> u32 \<times> u32"

definition payload_of :: "ReqIntSlot \<Rightarrow> payload" where
  "payload_of sl = (ri_value sl, ri_resp_slot sl, ri_resp_gen sl)"

text \<open>Where a thread is: with a position in hand and about to read the sequence number
  (\<open>SPos\<close>, \<open>RPos\<close>), about to compare and exchange the tail or head (\<open>SCas\<close>, \<open>RCas\<close>), about
  to load it again, with a slot of its own (\<open>SWrite\<close>, \<open>RRead\<close>), and about to store the sequence
  number that hands the slot on (\<open>SPub\<close>, \<open>RRel\<close>).\<close>

datatype int_pc = IIdle
  | SPos payload u64 | SReload payload | SCas payload u64 | SWrite payload u64 | SPub payload u64
  | RPos u64 | RReload | RCas u64 | RRead u64 | RRel payload u64

text \<open>Two histories are kept beside the state: the payloads sent, in the order of their
  positions, and the position and payload of every read.\<close>

record int_sys =
  iy_shm :: shm
  iy_pc :: "nat \<Rightarrow> int_pc"
  iy_sent :: "payload list"
  iy_got :: "(u64 \<times> payload) list"

abbreviation goto :: "nat \<Rightarrow> int_pc \<Rightarrow> int_sys \<Rightarrow> int_sys" where
  "goto t pc s \<equiv> s\<lparr>iy_pc := (iy_pc s)(t := pc)\<rparr>"

abbreviation int_tail :: "int_sys \<Rightarrow> u64" where "int_tail s \<equiv> h_req_tail (hdr (iy_shm s))"
abbreviation int_head :: "int_sys \<Rightarrow> u64" where "int_head s \<equiv> h_req_head (hdr (iy_shm s))"

definition slot_at :: "ReqRepHandle \<Rightarrow> int_sys \<Rightarrow> u64 \<Rightarrow> ReqIntSlot" where
  "slot_at h s p = int_slots (iy_shm s) ! int_slot h p"

inductive int_step :: "ReqRepHandle \<Rightarrow> int_sys \<Rightarrow> int_sys \<Rightarrow> bool" for h where
  send_start: "iy_pc s t = IIdle \<Longrightarrow> int_step h s (goto t (SPos x (int_tail s)) s)"
| send_look: "iy_pc s t = SPos x p \<Longrightarrow> d = sint (ri_sequence (slot_at h s p) - p) \<Longrightarrow>
    int_step h s (goto t (if d = 0 then SCas x p else if d < 0 then IIdle else SReload x) s)"
| send_reload: "iy_pc s t = SReload x \<Longrightarrow> int_step h s (goto t (SPos x (int_tail s)) s)"
| send_cas: "iy_pc s t = SCas x p \<Longrightarrow> int_tail s = p \<Longrightarrow>
    int_step h s (goto t (SWrite x p) (s\<lparr>iy_sent := iy_sent s @ [x],
      iy_shm := hdr_update (\<lambda>y. y\<lparr>h_req_tail := p + 1\<rparr>) (iy_shm s)\<rparr>))"
| send_cas_fails: "iy_pc s t = SCas x p \<Longrightarrow> int_step h s (goto t (SPos x (int_tail s)) s)"
| send_write: "iy_pc s t = SWrite x p \<Longrightarrow>
    upd_int (int_slot h p) (\<lambda>sl. sl\<lparr>ri_value := fst x, ri_resp_slot := fst (snd x),
      ri_resp_gen := snd (snd x)\<rparr>) (iy_shm s) = Some w \<Longrightarrow>
    int_step h s (goto t (SPub x p) (s\<lparr>iy_shm := w\<rparr>))"
| send_publish: "iy_pc s t = SPub x p \<Longrightarrow>
    upd_int (int_slot h p) (\<lambda>sl. sl\<lparr>ri_sequence := p + 1\<rparr>) (iy_shm s) = Some w \<Longrightarrow>
    int_step h s (goto t IIdle (s\<lparr>iy_shm := w\<rparr>))"
| recv_start: "iy_pc s t = IIdle \<Longrightarrow> int_step h s (goto t (RPos (int_head s)) s)"
| recv_look: "iy_pc s t = RPos p \<Longrightarrow> d = sint (ri_sequence (slot_at h s p) - (p + 1)) \<Longrightarrow>
    int_step h s (goto t (if d = 0 then RCas p else if d < 0 then IIdle else RReload) s)"
| recv_reload: "iy_pc s t = RReload \<Longrightarrow> int_step h s (goto t (RPos (int_head s)) s)"
| recv_cas: "iy_pc s t = RCas p \<Longrightarrow> int_head s = p \<Longrightarrow>
    int_step h s (goto t (RRead p) (s\<lparr>iy_shm := hdr_update (\<lambda>y. y\<lparr>h_req_head := p + 1\<rparr>) (iy_shm s)\<rparr>))"
| recv_cas_fails: "iy_pc s t = RCas p \<Longrightarrow> int_step h s (goto t (RPos (int_head s)) s)"
| recv_read: "iy_pc s t = RRead p \<Longrightarrow> x = payload_of (slot_at h s p) \<Longrightarrow>
    int_step h s (goto t (RRel x p) (s\<lparr>iy_got := iy_got s @ [(p, x)]\<rparr>))"
| recv_release: "iy_pc s t = RRel x p \<Longrightarrow>
    upd_int (int_slot h p) (\<lambda>sl. sl\<lparr>ri_sequence := p + ucast (hn_req_cap h)\<rparr>) (iy_shm s) = Some w \<Longrightarrow>
    int_step h s (goto t IIdle (s\<lparr>iy_shm := w\<rparr>))"
| elsewhere: "int_slots w = int_slots (iy_shm s) \<Longrightarrow> h_req_head (hdr w) = int_head s \<Longrightarrow>
    h_req_tail (hdr w) = int_tail s \<Longrightarrow> int_step h s (s\<lparr>iy_shm := w\<rparr>)"

text \<open>A mapping as \<^verbatim>\<open>reqrep_int_init_header\<close> or a clear leaves it, nobody in a call.\<close>

definition int_init :: "ReqRepHandle \<Rightarrow> int_sys \<Rightarrow> bool" where
  "int_init h s \<longleftrightarrow> int_tail s = 0 \<and> int_head s = 0 \<and>
     map ri_sequence (int_slots (iy_shm s)) = map of_nat [0..<unat (hn_req_cap h)] \<and>
     (\<forall>t. iy_pc s t = IIdle) \<and> iy_sent s = [] \<and> iy_got s = []"

section \<open>The invariant\<close>

text \<open>The turn of a slot: the last position \<open>q\<close> that claims it. Its sequence number is \<open>q\<close> while
  the slot is free or being written, and \<open>q + 1\<close> while it is full or being read, with the
  payload sent at \<open>q\<close>.\<close>

definition turn :: "ReqRepHandle \<Rightarrow> int_sys \<Rightarrow> u64 \<Rightarrow> bool" where
  "turn h s q \<longleftrightarrow> unat q < unat (int_head s) + unat (hn_req_cap h) \<and>
     length (iy_sent s) \<le> unat q + unat (hn_req_cap h) \<and>
     (ri_sequence (slot_at h s q) = q \<or>
      ri_sequence (slot_at h s q) = q + 1 \<and> unat q < length (iy_sent s) \<and>
        payload_of (slot_at h s q) = iy_sent s ! unat q)"

fun pc_ok :: "ReqRepHandle \<Rightarrow> int_sys \<Rightarrow> int_pc \<Rightarrow> bool" where
  "pc_ok h s (SPos x p) \<longleftrightarrow> unat p \<le> length (iy_sent s)"
| "pc_ok h s (SCas x p) \<longleftrightarrow> unat p \<le> length (iy_sent s) \<and>
     (unat p = length (iy_sent s) \<longrightarrow> ri_sequence (slot_at h s p) = p)"
| "pc_ok h s (SWrite x p) \<longleftrightarrow> unat p < length (iy_sent s) \<and> iy_sent s ! unat p = x \<and>
     ri_sequence (slot_at h s p) = p"
| "pc_ok h s (SPub x p) \<longleftrightarrow> unat p < length (iy_sent s) \<and> iy_sent s ! unat p = x \<and>
     ri_sequence (slot_at h s p) = p \<and> payload_of (slot_at h s p) = x"
| "pc_ok h s (RPos p) \<longleftrightarrow> unat p \<le> unat (int_head s)"
| "pc_ok h s (RCas p) \<longleftrightarrow> unat p \<le> unat (int_head s) \<and>
     (p = int_head s \<longrightarrow> ri_sequence (slot_at h s p) = p + 1)"
| "pc_ok h s (RRead p) \<longleftrightarrow> unat p < unat (int_head s) \<and> ri_sequence (slot_at h s p) = p + 1"
| "pc_ok h s (RRel x p) \<longleftrightarrow> unat p < unat (int_head s) \<and> ri_sequence (slot_at h s p) = p + 1 \<and>
     iy_sent s ! unat p = x"
| "pc_ok h s _ \<longleftrightarrow> True"

text \<open>The position of the slot a thread has for itself.\<close>

fun send_pos :: "int_pc \<Rightarrow> u64 option" where
  "send_pos (SWrite x p) = Some p"
| "send_pos (SPub x p) = Some p"
| "send_pos _ = None"

fun recv_pos :: "int_pc \<Rightarrow> u64 option" where
  "recv_pos (RRead p) = Some p"
| "recv_pos (RRel x p) = Some p"
| "recv_pos _ = None"

definition alone_at :: "(int_pc \<Rightarrow> u64 option) \<Rightarrow> int_sys \<Rightarrow> bool" where
  "alone_at pos s \<longleftrightarrow> (\<forall>t t' p. pos (iy_pc s t) = Some p \<longrightarrow> pos (iy_pc s t') = Some p \<longrightarrow> t = t')"

definition reading :: "int_sys \<Rightarrow> u64 set" where
  "reading s = {p. \<exists>t. iy_pc s t = RRead p}"

definition got_ok :: "int_sys \<Rightarrow> bool" where
  "got_ok s \<longleftrightarrow> distinct (map fst (iy_got s)) \<and>
     (\<forall>(p, x) \<in> set (iy_got s). unat p < unat (int_head s) \<and> iy_sent s ! unat p = x) \<and>
     reading s \<inter> fst ` set (iy_got s) = {} \<and>
     {p. unat p < unat (int_head s)} \<subseteq> fst ` set (iy_got s) \<union> reading s"

definition int_sys_inv :: "ReqRepHandle \<Rightarrow> int_sys \<Rightarrow> bool" where
  "int_sys_inv h s \<longleftrightarrow> length (int_slots (iy_shm s)) = unat (hn_req_cap h) \<and>
     unat (int_tail s) = length (iy_sent s) \<and> unat (int_head s) \<le> length (iy_sent s) \<and>
     (\<forall>i < unat (hn_req_cap h). \<exists>q. int_slot h q = i \<and> turn h s q) \<and>
     (\<forall>t. pc_ok h s (iy_pc s t)) \<and> alone_at send_pos s \<and> alone_at recv_pos s \<and> got_ok s"

lemma slot_next:
  assumes "ring_ok h" "2 \<le> unat (hn_req_cap h)"
  shows "int_slot h (p + 1) \<noteq> int_slot h p" "int_slot h p \<noteq> int_slot h (p + 1)"
proof -
  show "int_slot h (p + 1) \<noteq> int_slot h p"
    using ring_idx_inj [OF assms(1), of 1 0 p] assms by (auto simp: int_slot_ring)
  then show "int_slot h p \<noteq> int_slot h (p + 1)" by metis
qed

lemma slot_at_pc [simp]: "slot_at h (s\<lparr>iy_pc := f\<rparr>) p = slot_at h s p"
  "slot_at h (s\<lparr>iy_pc := f, iy_shm := w\<rparr>) p = slot_at h (s\<lparr>iy_shm := w\<rparr>) p"
  "slot_at h (s\<lparr>iy_got := g\<rparr>) p = slot_at h s p"
  "slot_at h (s\<lparr>iy_sent := xs\<rparr>) p = slot_at h s p"
  "slot_at h (s\<lparr>iy_sent := xs, iy_shm := hdr_update f' (iy_shm s)\<rparr>) p = slot_at h s p"
  "slot_at h (s\<lparr>iy_shm := hdr_update f' (iy_shm s)\<rparr>) p = slot_at h s p"
  by (simp_all add: slot_at_def)

lemma pc_ok_frame:
  assumes "\<And>p. slot_at h s' p = slot_at h s p" "int_head s' = int_head s" "iy_sent s' = iy_sent s"
  shows "pc_ok h s' pc = pc_ok h s pc" "turn h s' q = turn h s q"
  by (cases pc; simp add: assms) (simp add: turn_def assms)

text \<open>The turn a sequence number gives away.\<close>

lemma free_turn:
  assumes "ring_ok h" "2 \<le> unat (hn_req_cap h)" "int_sys_inv h s" "ri_sequence (slot_at h s p) = p"
  shows "turn h s p"
proof -
  have "int_slot h p < unat (hn_req_cap h)" using ring_idx_lt [OF assms(1)] by (simp add: int_slot_ring [OF assms(1)])
  then obtain q where q: "int_slot h q = int_slot h p" "turn h s q"
    using assms(3) unfolding int_sys_inv_def by blast
  have "slot_at h s q = slot_at h s p" using q(1) by (simp add: slot_at_def)
  then have "q = p" using q assms(4) slot_next [OF assms(1,2), of q] by (auto simp: turn_def)
  with q show ?thesis by simp
qed

lemma full_turn:
  assumes "ring_ok h" "2 \<le> unat (hn_req_cap h)" "int_sys_inv h s" "ri_sequence (slot_at h s p) = p + 1"
  shows "turn h s p" "unat p < length (iy_sent s)" "payload_of (slot_at h s p) = iy_sent s ! unat p"
proof -
  have "int_slot h p < unat (hn_req_cap h)" using ring_idx_lt [OF assms(1)] by (simp add: int_slot_ring [OF assms(1)])
  then obtain q where q: "int_slot h q = int_slot h p" "turn h s q"
    using assms(3) unfolding int_sys_inv_def by blast
  have "slot_at h s q = slot_at h s p" using q(1) by (simp add: slot_at_def)
  then have "q = p" using q assms(4) slot_next [OF assms(1,2), of p] by (auto simp: turn_def)
  with q show t: "turn h s p" by simp
  then show "unat p < length (iy_sent s)" "payload_of (slot_at h s p) = iy_sent s ! unat p"
    using assms(4) by (auto simp: turn_def)
qed

lemma alone_atD: "alone_at pos s \<Longrightarrow> pos (iy_pc s t) = Some p \<Longrightarrow> pos (iy_pc s t') = Some p \<Longrightarrow> t' = t"
  unfolding alone_at_def by blast

lemma alone_goto:
  assumes "alone_at pos s" "pos pc = None \<or> pos pc = pos (iy_pc s t)"
  shows "alone_at pos (goto t pc s)"
  unfolding alone_at_def
proof (intro allI impI)
  fix a b p assume "pos (iy_pc (goto t pc s) a) = Some p" "pos (iy_pc (goto t pc s) b) = Some p"
  then have "pos (iy_pc s a) = Some p" "pos (iy_pc s b) = Some p"
    using assms(2) by (auto split: if_splits)
  then show "a = b" using assms(1) unfolding alone_at_def by blast
qed

lemma reading_goto:
  "(\<And>p. iy_pc s t \<noteq> RRead p) \<Longrightarrow> (\<And>p. pc \<noteq> RRead p) \<Longrightarrow> reading (goto t pc s) = reading s"
  unfolding reading_def by (auto; metis)

lemma recv_None: "recv_pos pc = None \<Longrightarrow> pc \<noteq> RRead p"
  by auto

text \<open>A move of one thread that changes nothing shared and claims nothing.\<close>

lemma inv_goto:
  assumes "int_sys_inv h s" "pc_ok h s pc" "send_pos pc = None" "recv_pos pc = None"
    "\<And>p. iy_pc s t \<noteq> RRead p"
  shows "int_sys_inv h (goto t pc s)"
proof -
  have fr: "pc_ok h (goto t pc s) pc' = pc_ok h s pc'" "turn h (goto t pc s) q = turn h s q" for pc' q
    by (rule pc_ok_frame; simp)+
  have "reading (goto t pc s) = reading s" using reading_goto assms(5) recv_None [OF assms(4)] by blast
  then show ?thesis
    using assms alone_goto [of send_pos s pc t] alone_goto [of recv_pos s pc t]
    unfolding int_sys_inv_def by (simp add: fr got_ok_def)
qed

text \<open>A store into one slot by the thread that has it.\<close>

lemma slot_at_store:
  assumes "ring_ok h" "length (int_slots (iy_shm s)) = unat (hn_req_cap h)"
  shows "slot_at h (s\<lparr>iy_shm := (iy_shm s)\<lparr>int_slots := (int_slots (iy_shm s))[int_slot h p := sl]\<rparr>\<rparr>) q =
     (if int_slot h q = int_slot h p then sl else slot_at h s q)"
  using ring_idx_lt [OF assms(1), of p] assms by (simp add: slot_at_def int_slot_ring)

text \<open>The slot whose sequence number a thread relies on, if any. While a thread has a slot for
  itself, no other thread relies on that slot: this is what every store preserves, and the
  absence of races on the payload.\<close>

fun watched :: "int_sys \<Rightarrow> int_pc \<Rightarrow> u64 option" where
  "watched s (SCas x p) = (if unat p = length (iy_sent s) then Some p else None)"
| "watched s (SWrite x p) = Some p"
| "watched s (SPub x p) = Some p"
| "watched s (RCas p) = (if p = int_head s then Some p else None)"
| "watched s (RRead p) = Some p"
| "watched s (RRel x p) = Some p"
| "watched s _ = None"

definition owns :: "int_pc \<Rightarrow> u64 \<Rightarrow> bool" where
  "owns pc p \<longleftrightarrow> send_pos pc = Some p \<or> recv_pos pc = Some p"

lemma owner_seq:
  assumes "int_sys_inv h s"
  shows "send_pos (iy_pc s t) = Some p \<Longrightarrow> unat p < length (iy_sent s) \<and> ri_sequence (slot_at h s p) = p"
    and "recv_pos (iy_pc s t) = Some p \<Longrightarrow> unat p < unat (int_head s) \<and> ri_sequence (slot_at h s p) = p + 1"
proof -
  have "pc_ok h s (iy_pc s t)" using assms by (simp add: int_sys_inv_def)
  then show "send_pos (iy_pc s t) = Some p \<Longrightarrow> unat p < length (iy_sent s) \<and> ri_sequence (slot_at h s p) = p"
    "recv_pos (iy_pc s t) = Some p \<Longrightarrow> unat p < unat (int_head s) \<and> ri_sequence (slot_at h s p) = p + 1"
    by (cases "iy_pc s t"; simp)+
qed

lemma watched_seq:
  assumes "int_sys_inv h s" "watched s (iy_pc s t) = Some p"
  obtains (sending) "ri_sequence (slot_at h s p) = p"
      "unat p = length (iy_sent s) \<or> send_pos (iy_pc s t) = Some p"
    | (receiving) "ri_sequence (slot_at h s p) = p + 1"
      "p = int_head s \<or> recv_pos (iy_pc s t) = Some p"
proof -
  have "pc_ok h s (iy_pc s t)" using assms by (simp add: int_sys_inv_def)
  with assms(2) sending receiving show thesis by (cases "iy_pc s t") (auto split: if_splits)
qed

lemma owner_alone:
  assumes ring: "ring_ok h" "2 \<le> unat (hn_req_cap h)" and inv: "int_sys_inv h s"
    and own: "owns (iy_pc s t) p" and ne: "t' \<noteq> t" and wt: "watched s (iy_pc s t') = Some p'"
  shows "int_slot h p' \<noteq> int_slot h p"
proof
  assume same: "int_slot h p' = int_slot h p"
  then have sl: "slot_at h s p' = slot_at h s p" by (simp add: slot_at_def)
  note nx = slot_next [OF ring, of p] slot_next [OF ring, of p']
  have al: "alone_at send_pos s" "alone_at recv_pos s" using inv by (auto simp: int_sys_inv_def)
  from own consider (send) "send_pos (iy_pc s t) = Some p" | (recv) "recv_pos (iy_pc s t) = Some p"
    by (auto simp: owns_def)
  then show False
  proof cases
    case send
    note me = owner_seq(1) [OF inv send]
    from inv wt show ?thesis
    proof (cases rule: watched_seq)
      case sending
      then have "p' = p" using me sl by metis
      with sending(2) me alone_atD [OF al(1) send, of t'] ne show ?thesis by (elim disjE) simp_all
    next
      case receiving
      with me sl have "p = p' + 1" by metis
      with same nx show ?thesis by blast
    qed
  next
    case recv
    note me = owner_seq(2) [OF inv recv]
    from inv wt show ?thesis
    proof (cases rule: watched_seq)
      case sending
      with me sl have "p' = p + 1" by metis
      with same nx show ?thesis by blast
    next
      case receiving
      then have "p' + 1 = p + 1" using me sl by metis
      then have "p' = p" by simp
      with receiving(2) me alone_atD [OF al(2) recv, of t'] ne show ?thesis by (elim disjE) simp_all
    qed
  qed
qed

lemma pc_ok_watched:
  assumes "\<And>p. watched s pc = Some p \<Longrightarrow> slot_at h s' p = slot_at h s p"
    and "int_head s' = int_head s" "iy_sent s' = iy_sent s" and "pc_ok h s pc"
  shows "pc_ok h s' pc"
  using assms(4) assms(1) by (cases pc) (auto simp: assms(2,3))

lemma inv_store:
  fixes sl :: ReqIntSlot
  assumes ring: "ring_ok h" "2 \<le> unat (hn_req_cap h)" and inv: "int_sys_inv h s"
    and own: "owns (iy_pc s t) p" and rd: "\<And>p. iy_pc s t \<noteq> RRead p"
  defines "s' \<equiv> s\<lparr>iy_shm := (iy_shm s)\<lparr>int_slots := (int_slots (iy_shm s))[int_slot h p := sl]\<rparr>\<rparr>"
  assumes turn: "int_slot h q = int_slot h p" "turn h s' q" and mine: "pc_ok h s' pc"
    and pos: "send_pos pc = None \<or> send_pos pc = send_pos (iy_pc s t)" "recv_pos pc = None"
  shows "int_sys_inv h (goto t pc s')"
proof -
  let ?s = "goto t pc s'"
  have len: "length (int_slots (iy_shm s)) = unat (hn_req_cap h)" using inv by (simp add: int_sys_inv_def)
  note at = slot_at_store [OF ring(1) len, of p sl, folded s'_def]
  have fr: "pc_ok h ?s pc' = pc_ok h s' pc'" "turn h ?s q = turn h s' q" for pc' q
    by (rule pc_ok_frame; simp)+
  have same: "int_tail s' = int_tail s" "int_head s' = int_head s" "iy_sent s' = iy_sent s"
    "iy_got s' = iy_got s" "iy_pc s' = iy_pc s" by (simp_all add: s'_def)
  have others: "pc_ok h s' (iy_pc s t')" if "t' \<noteq> t" for t'
  proof (rule pc_ok_watched)
    show "pc_ok h s (iy_pc s t')" using inv by (simp add: int_sys_inv_def)
    show "watched s (iy_pc s t') = Some p' \<Longrightarrow> slot_at h s' p' = slot_at h s p'" for p'
      using owner_alone [OF ring inv own that] by (simp add: at)
  qed (simp_all add: same)
  have "\<exists>q. int_slot h q = i \<and> turn h s' q" if "i < unat (hn_req_cap h)" for i
  proof (cases "i = int_slot h p")
    case False
    from that inv obtain r where "int_slot h r = i" "turn h s r" unfolding int_sys_inv_def by blast
    with False at [of r] show ?thesis by (intro exI [of _ r]) (simp add: turn_def same)
  qed (use turn in blast)
  moreover have "alone_at send_pos s'" "alone_at recv_pos s'"
    using inv by (simp_all add: int_sys_inv_def alone_at_def same)
  then have "alone_at send_pos ?s" "alone_at recv_pos ?s"
    using pos by (intro alone_goto; simp add: same)+
  moreover have "reading ?s = reading s"
    using reading_goto [of s' t pc] rd recv_None [OF pos(2)] by (simp add: same reading_def)
  then have "got_ok ?s" using inv by (simp add: int_sys_inv_def got_ok_def same)
  moreover have "pc_ok h ?s (iy_pc ?s t')" for t' using mine others [of t'] by (simp only: fr) (simp add: same)
  moreover have "length (int_slots (iy_shm ?s)) = unat (hn_req_cap h)" using len by (simp add: s'_def)
  ultimately show ?thesis
    using inv unfolding int_sys_inv_def fr by (simp add: same)
qed

lemma upd_int_store:
  "upd_int (int_slot h p) f (iy_shm s) = Some w \<Longrightarrow>
     w = (iy_shm s)\<lparr>int_slots := (int_slots (iy_shm s))[int_slot h p := f (slot_at h s p)]\<rparr>"
  by (simp add: upd_int_def slot_at_def split: if_splits)

lemma inv_send_write:
  assumes ring: "ring_ok h" "2 \<le> unat (hn_req_cap h)" and inv: "int_sys_inv h s"
    and pc: "iy_pc s t = SWrite x p"
    and w: "upd_int (int_slot h p) (\<lambda>sl. sl\<lparr>ri_value := fst x, ri_resp_slot := fst (snd x),
      ri_resp_gen := snd (snd x)\<rparr>) (iy_shm s) = Some w"
  shows "int_sys_inv h (goto t (SPub x p) (s\<lparr>iy_shm := w\<rparr>))"
proof -
  have len: "length (int_slots (iy_shm s)) = unat (hn_req_cap h)" and ok: "pc_ok h s (iy_pc s t)"
    using inv by (auto simp: int_sys_inv_def)
  have me: "unat p < length (iy_sent s)" "iy_sent s ! unat p = x" "ri_sequence (slot_at h s p) = p"
    using ok pc by simp_all
  have x: "payload_of (sl\<lparr>ri_value := fst x, ri_resp_slot := fst (snd x), ri_resp_gen := snd (snd x)\<rparr>) = x" for sl
    by (simp add: payload_of_def)
  show ?thesis
    unfolding upd_int_store [OF w]
    by (rule inv_store [OF ring inv _ _ refl])
      (use pc me x free_turn [OF ring inv me(3)] in
        \<open>simp_all add: owns_def turn_def slot_at_store [OF ring(1) len]\<close>)
qed

lemma inv_send_publish:
  assumes ring: "ring_ok h" "2 \<le> unat (hn_req_cap h)" and inv: "int_sys_inv h s"
    and pc: "iy_pc s t = SPub x p"
    and w: "upd_int (int_slot h p) (\<lambda>sl. sl\<lparr>ri_sequence := p + 1\<rparr>) (iy_shm s) = Some w"
  shows "int_sys_inv h (goto t IIdle (s\<lparr>iy_shm := w\<rparr>))"
proof -
  have len: "length (int_slots (iy_shm s)) = unat (hn_req_cap h)" and ok: "pc_ok h s (iy_pc s t)"
    using inv by (auto simp: int_sys_inv_def)
  have me: "unat p < length (iy_sent s)" "iy_sent s ! unat p = x" "ri_sequence (slot_at h s p) = p"
    "payload_of (slot_at h s p) = x"
    using ok pc by simp_all
  have x: "payload_of (sl\<lparr>ri_sequence := q\<rparr>) = payload_of sl" for sl q by (simp add: payload_of_def)
  show ?thesis
    unfolding upd_int_store [OF w]
    by (rule inv_store [OF ring inv _ _ refl])
      (use pc me free_turn [OF ring inv me(3)] in
        \<open>simp_all add: owns_def turn_def slot_at_store [OF ring(1) len] x\<close>)
qed

lemma inv_recv_release:
  assumes ring: "ring_ok h" "2 \<le> unat (hn_req_cap h)" and inv: "int_sys_inv h s"
    and few: "length (iy_sent s) < 2 ^ 63" and pc: "iy_pc s t = RRel x p"
    and w: "upd_int (int_slot h p) (\<lambda>sl. sl\<lparr>ri_sequence := p + ucast (hn_req_cap h)\<rparr>) (iy_shm s) = Some w"
  shows "int_sys_inv h (goto t IIdle (s\<lparr>iy_shm := w\<rparr>))"
proof -
  let ?c = "unat (hn_req_cap h)" and ?q = "p + ucast (hn_req_cap h)"
  have len: "length (int_slots (iy_shm s)) = ?c" and ok: "pc_ok h s (iy_pc s t)"
    and ht: "unat (int_head s) \<le> length (iy_sent s)"
    using inv by (auto simp: int_sys_inv_def)
  have me: "unat p < unat (int_head s)" "ri_sequence (slot_at h s p) = p + 1"
    using ok pc by simp_all
  have uq: "unat ?q = unat p + ?c"
  proof -
    have "unat p + unat (ucast (hn_req_cap h) :: u64) < 2 ^ LENGTH(64)"
      using me(1) ht few ring_ok_le [OF ring(1)] by (simp add: unat_ucast_32_64)
    then show ?thesis by (subst (asm) unat_add_lem) (simp add: unat_ucast_32_64)
  qed
  have sq: "int_slot h ?q = int_slot h p"
    using ring_idx_mod [OF ring(1)] uq by (simp add: int_slot_ring [OF ring(1)])
  show ?thesis
    unfolding upd_int_store [OF w]
    by (rule inv_store [OF ring inv _ _ sq])
      (use pc me full_turn(1) [OF ring inv me(2)] in
        \<open>simp_all add: owns_def turn_def slot_at_store [OF ring(1) len] sq uq\<close>)
qed

lemma inv_send_cas:
  assumes ring: "ring_ok h" "2 \<le> unat (hn_req_cap h)" and inv: "int_sys_inv h s"
    and few: "length (iy_sent s) < 2 ^ 63" and pc: "iy_pc s t = SCas x p" and tl: "int_tail s = p"
  shows "int_sys_inv h (goto t (SWrite x p) (s\<lparr>iy_sent := iy_sent s @ [x],
      iy_shm := hdr_update (\<lambda>y. y\<lparr>h_req_tail := p + 1\<rparr>) (iy_shm s)\<rparr>))"
proof -
  let ?s = "goto t (SWrite x p) (s\<lparr>iy_sent := iy_sent s @ [x],
      iy_shm := hdr_update (\<lambda>y. y\<lparr>h_req_tail := p + 1\<rparr>) (iy_shm s)\<rparr>)"
  let ?T = "length (iy_sent s)" and ?c = "unat (hn_req_cap h)"
  have len: "length (int_slots (iy_shm s)) = ?c" and ok: "\<And>t. pc_ok h s (iy_pc s t)"
    and ht: "unat (int_head s) \<le> ?T" and tT: "unat (int_tail s) = ?T"
    and turns: "\<And>i. i < ?c \<Longrightarrow> \<exists>q. int_slot h q = i \<and> turn h s q"
    and al: "alone_at send_pos s" "alone_at recv_pos s" and got: "got_ok s"
    using inv by (auto simp: int_sys_inv_def)
  have up: "unat p = ?T" using tT tl by simp
  have me: "ri_sequence (slot_at h s p) = p" using ok [of t] pc up by simp
  have at: "slot_at h ?s q = slot_at h s q" for q by (simp add: slot_at_def)
  have same: "int_head ?s = int_head s" "iy_sent ?s = iy_sent s @ [x]" "iy_got ?s = iy_got s"
    "iy_pc ?s = (iy_pc s)(t := SWrite x p)" "int_tail ?s = p + 1" by simp_all
  have "unat (p + 1) = ?T + 1"
  proof -
    have "unat p + unat (1 :: u64) < 2 ^ LENGTH(64)" using up few by simp
    then show ?thesis by (subst (asm) unat_add_lem) (simp add: up)
  qed
  moreover have "\<exists>q. int_slot h q = i \<and> turn h ?s q" if "i < ?c" for i
  proof -
    from turns [OF that] obtain q where q: "int_slot h q = i" "turn h s q" by blast
    have "?T \<noteq> unat q + ?c"
    proof
      assume T: "?T = unat q + ?c"
      then have "int_slot h p = int_slot h q"
        using ring_idx_mod [OF ring(1)] up by (simp add: int_slot_ring [OF ring(1)])
      then have sl: "slot_at h s p = slot_at h s q" by (simp add: slot_at_def)
      have "p = q \<or> p = q + 1" using q(2) me sl by (auto simp: turn_def)
      then show False using T up ring(2) slot_next [OF ring, of q] \<open>int_slot h p = int_slot h q\<close> by auto
    qed
    with q have "turn h ?s q" unfolding turn_def at same by (auto simp: nth_append)
    with q(1) show ?thesis by blast
  qed
  moreover have "pc_ok h ?s (iy_pc ?s t')" for t'
  proof (cases "t' = t")
    case True
    then show ?thesis using me by (simp add: at up)
  next
    case False
    show ?thesis
      using ok [of t'] False ht by (cases "iy_pc s t'") (auto simp: at nth_append)
  qed
  moreover have "alone_at send_pos ?s"
  proof -
    have "send_pos (iy_pc s t') \<noteq> Some p" for t'
      using owner_seq(1) [OF inv, of t' p] up by auto
    then show ?thesis using al(1) unfolding alone_at_def same by (auto simp: fun_upd_def)
  qed
  moreover have "alone_at recv_pos ?s"
    using al(2) unfolding alone_at_def same by (auto simp: fun_upd_def)
  moreover have "got_ok ?s"
  proof -
    have "reading ?s = reading s" using pc unfolding reading_def same by (auto; metis int_pc.distinct)
    then show ?thesis using got ht unfolding got_ok_def same by (auto simp: nth_append)
  qed
  ultimately show ?thesis using len ht unfolding int_sys_inv_def same by simp
qed

lemma inv_recv_cas:
  assumes ring: "ring_ok h" "2 \<le> unat (hn_req_cap h)" and inv: "int_sys_inv h s"
    and few: "length (iy_sent s) < 2 ^ 63" and pc: "iy_pc s t = RCas p" and hd: "int_head s = p"
  shows "int_sys_inv h (goto t (RRead p)
      (s\<lparr>iy_shm := hdr_update (\<lambda>y. y\<lparr>h_req_head := p + 1\<rparr>) (iy_shm s)\<rparr>))"
proof -
  let ?s = "goto t (RRead p) (s\<lparr>iy_shm := hdr_update (\<lambda>y. y\<lparr>h_req_head := p + 1\<rparr>) (iy_shm s)\<rparr>)"
  let ?T = "length (iy_sent s)" and ?c = "unat (hn_req_cap h)"
  have len: "length (int_slots (iy_shm s)) = ?c" and ok: "\<And>t. pc_ok h s (iy_pc s t)"
    and tT: "unat (int_tail s) = ?T"
    and turns: "\<And>i. i < ?c \<Longrightarrow> \<exists>q. int_slot h q = i \<and> turn h s q"
    and al: "alone_at send_pos s" "alone_at recv_pos s" and got: "got_ok s"
    using inv by (auto simp: int_sys_inv_def)
  have me: "ri_sequence (slot_at h s p) = p + 1" using ok [of t] pc hd by simp
  have lt: "unat p < ?T" by (rule full_turn(2) [OF ring inv me])
  have same: "int_head ?s = p + 1" "iy_sent ?s = iy_sent s" "iy_got ?s = iy_got s"
    "iy_pc ?s = (iy_pc s)(t := RRead p)" "int_tail ?s = int_tail s" by simp_all
  have up: "unat (p + 1) = unat p + 1"
  proof -
    have "unat p + unat (1 :: u64) < 2 ^ LENGTH(64)" using lt few by simp
    then show ?thesis by (subst (asm) unat_add_lem) simp
  qed
  have turn: "turn h s q \<Longrightarrow> turn h ?s q" for q
    unfolding turn_def same up by (auto simp: hd)
  have "\<exists>q. int_slot h q = i \<and> turn h ?s q" if "i < ?c" for i
    using turns [OF that] turn by blast
  moreover have "pc_ok h ?s (iy_pc ?s t')" for t'
  proof (cases "t' = t")
    case True
    then show ?thesis using me by (simp add: up)
  next
    case False
    show ?thesis
      using ok [of t'] False hd by (cases "iy_pc s t'") (auto simp: up word_unat_eq_iff)
  qed
  moreover have "alone_at recv_pos ?s"
  proof -
    have "recv_pos (iy_pc s t') \<noteq> Some p" for t'
      using owner_seq(2) [OF inv, of t' p] hd by auto
    then show ?thesis using al(2) unfolding alone_at_def same by (auto simp: fun_upd_def)
  qed
  moreover have "alone_at send_pos ?s"
    using al(1) unfolding alone_at_def same by (auto simp: fun_upd_def)
  moreover have "got_ok ?s"
  proof -
    have rd: "reading ?s = insert p (reading s)"
      using pc unfolding reading_def same by (auto simp: fun_upd_def; metis int_pc.distinct)
    have new: "p \<notin> fst ` set (iy_got s)" using got hd unfolding got_ok_def by auto
    have "{q. unat q < unat (p + 1)} = insert p {q. unat q < unat p}"
      by (auto simp: up less_Suc_eq word_unat_eq_iff)
    then show ?thesis
      using got new hd unfolding got_ok_def same rd up by auto
  qed
  ultimately show ?thesis using len lt tT unfolding int_sys_inv_def same up by simp
qed

lemma inv_recv_read:
  assumes ring: "ring_ok h" "2 \<le> unat (hn_req_cap h)" and inv: "int_sys_inv h s"
    and pc: "iy_pc s t = RRead p" and x: "x = payload_of (slot_at h s p)"
  shows "int_sys_inv h (goto t (RRel x p) (s\<lparr>iy_got := iy_got s @ [(p, x)]\<rparr>))"
proof -
  let ?s = "goto t (RRel x p) (s\<lparr>iy_got := iy_got s @ [(p, x)]\<rparr>)"
  have ok: "\<And>t. pc_ok h s (iy_pc s t)" and got: "got_ok s"
    and al: "alone_at send_pos s" "alone_at recv_pos s"
    using inv by (auto simp: int_sys_inv_def)
  have me: "unat p < unat (int_head s)" "ri_sequence (slot_at h s p) = p + 1" using ok [of t] pc by simp_all
  have xp: "x = iy_sent s ! unat p" using full_turn(3) [OF ring inv me(2)] x by simp
  have same: "int_head ?s = int_head s" "int_tail ?s = int_tail s" "iy_sent ?s = iy_sent s"
    "iy_got ?s = iy_got s @ [(p, x)]" "iy_pc ?s = (iy_pc s)(t := RRel x p)" "iy_shm ?s = iy_shm s"
    by simp_all
  have fr: "pc_ok h ?s pc' = pc_ok h s pc'" "turn h ?s q = turn h s q" for pc' q
    by (rule pc_ok_frame; simp)+
  have pcs: "pc_ok h ?s (iy_pc ?s t')" for t'
    unfolding fr using ok me xp by simp
  have "recv_pos (iy_pc s t') = Some p \<Longrightarrow> t' = t" for t'
    using alone_atD [OF al(2), of t p t'] pc by simp
  then have only: "iy_pc s t' \<noteq> RRead p" if "t' \<noteq> t" for t' using that by auto
  have rd: "reading ?s = reading s - {p}"
  proof (intro set_eqI iffI)
    fix q assume "q \<in> reading ?s"
    then obtain t' where "t' \<noteq> t" "iy_pc s t' = RRead q"
      unfolding reading_def same by (auto split: if_splits)
    with only [of t'] show "q \<in> reading s - {p}" by (auto simp: reading_def)
  next
    fix q assume q: "q \<in> reading s - {p}"
    then obtain t' where t': "iy_pc s t' = RRead q" by (auto simp: reading_def)
    with q pc have "t' \<noteq> t" by auto
    with t' show "q \<in> reading ?s" unfolding reading_def same by auto
  qed
  have "p \<in> reading s" using pc by (auto simp: reading_def)
  then have new: "p \<notin> fst ` set (iy_got s)" using got unfolding got_ok_def by blast
  have "distinct (map fst (iy_got ?s))" using got new unfolding got_ok_def same by simp
  moreover have "\<forall>(q, y) \<in> set (iy_got ?s). unat q < unat (int_head ?s) \<and> iy_sent ?s ! unat q = y"
  proof -
    have old: "\<forall>(q, y) \<in> set (iy_got s). unat q < unat (int_head s) \<and> iy_sent s ! unat q = y"
      using got unfolding got_ok_def by (elim conjE)
    show ?thesis unfolding same set_append ball_Un by (intro conjI old) (simp add: me(1) xp)
  qed
  moreover have im: "fst ` set (iy_got ?s) = insert p (fst ` set (iy_got s))" by simp
  have "reading ?s \<inter> fst ` set (iy_got ?s) = {}"
    "{q. unat q < unat (int_head ?s)} \<subseteq> fst ` set (iy_got ?s) \<union> reading ?s"
  proof -
    have "reading s \<inter> fst ` set (iy_got s) = {}"
      "{q. unat q < unat (int_head s)} \<subseteq> fst ` set (iy_got s) \<union> reading s"
      using got by (simp_all only: got_ok_def)
    then show "reading ?s \<inter> fst ` set (iy_got ?s) = {}"
      "{q. unat q < unat (int_head ?s)} \<subseteq> fst ` set (iy_got ?s) \<union> reading ?s"
      unfolding im rd same(1) by blast+
  qed
  ultimately have "got_ok ?s" unfolding got_ok_def by (intro conjI)
  moreover have "alone_at pos ?s = alone_at pos (goto t (RRel x p) s)" for pos by (simp add: alone_at_def)
  then have "alone_at send_pos ?s" "alone_at recv_pos ?s"
    using alone_goto [OF al(1), of "RRel x p" t] alone_goto [OF al(2), of "RRel x p" t] pc by simp_all
  ultimately show ?thesis using inv pcs unfolding int_sys_inv_def fr same by blast
qed

lemma int_sys_inv_step:
  assumes ring: "ring_ok h" "2 \<le> unat (hn_req_cap h)" and inv: "int_sys_inv h s"
    and few: "length (iy_sent s) < 2 ^ 63" and step: "int_step h s s'"
  shows "int_sys_inv h s'"
  using step
proof cases
  case (send_look t x p d)
  have "pc_ok h s (iy_pc s t)" using inv by (simp add: int_sys_inv_def)
  then have "pc_ok h s (SCas x p)" if "d = 0"
    using send_look that by (simp add: signed_eq_0_iff)
  then show ?thesis unfolding send_look(1) by (intro inv_goto inv) (use send_look in simp_all)
next
  case (recv_look t p d)
  have "pc_ok h s (iy_pc s t)" using inv by (simp add: int_sys_inv_def)
  then have "pc_ok h s (RCas p)" if "sint (ri_sequence (slot_at h s p) - (p + 1)) = 0"
    using recv_look that by (auto simp: signed_eq_0_iff)
  then have "pc_ok h s (if d = 0 then RCas p else if d < 0 then IIdle else RReload)"
    unfolding recv_look(3) by (simp del: pc_ok.simps(6))
  then show ?thesis unfolding recv_look(1) by (intro inv_goto inv) (use recv_look(2) in simp_all)
next
  case (elsewhere w)
  have fr: "pc_ok h s' pc' = pc_ok h s pc'" "turn h s' q = turn h s q" for pc' q
    by (rule pc_ok_frame; use elsewhere in \<open>simp add: slot_at_def\<close>)+
  have "alone_at pos s' = alone_at pos s" "reading s' = reading s" for pos
    by (simp_all add: elsewhere(1) alone_at_def reading_def)
  then show ?thesis using inv elsewhere unfolding int_sys_inv_def fr got_ok_def by simp
qed (use inv_send_cas [OF ring inv few] inv_recv_cas [OF ring inv few] inv_recv_read [OF ring inv]
      inv_send_write [OF ring inv] inv_send_publish [OF ring inv] inv_recv_release [OF ring inv few]
      inv inv_goto [OF inv] in \<open>auto simp: int_sys_inv_def\<close>)

lemma int_init_inv:
  assumes ring: "ring_ok h" and init: "int_init h s"
  shows "int_sys_inv h s"
proof -
  let ?c = "unat (hn_req_cap h)"
  have seq: "map ri_sequence (int_slots (iy_shm s)) = map of_nat [0..<?c]"
    and z: "int_tail s = 0" "int_head s = 0" "iy_sent s = []" "iy_got s = []" "\<And>t. iy_pc s t = IIdle"
    using init by (auto simp: int_init_def)
  have len: "length (int_slots (iy_shm s)) = ?c" using arg_cong [OF seq, of length] by simp
  have "int_slot h (of_nat i) = i \<and> turn h s (of_nat i)" if "i < ?c" for i
  proof -
    have sl: "int_slot h (of_nat i) = i"
      using that ring_idx_add [OF ring, of 0 i] by (simp add: int_slot_ring [OF ring])
    have "map ri_sequence (int_slots (iy_shm s)) ! i = of_nat i" using that by (simp add: seq)
    then have "ri_sequence (slot_at h s (of_nat i)) = of_nat i" using that len by (simp add: slot_at_def sl)
    moreover have "unat (of_nat i :: u64) = i"
      using that unat_lt_32 [of "hn_req_cap h"] by (simp add: unat_of_nat)
    ultimately show ?thesis using that sl by (simp add: turn_def z)
  qed
  then show ?thesis
    unfolding int_sys_inv_def using len by (auto simp: z alone_at_def got_ok_def reading_def)
qed

lemma sent_grows: "int_step h s s' \<Longrightarrow> length (iy_sent s) \<le> length (iy_sent s')"
  by (cases rule: int_step.cases) auto

interpretation lockfree: invariant_system "int_init h" "int_step h"
    "\<lambda>s. ring_ok h \<and> 2 \<le> unat (hn_req_cap h) \<and> length (iy_sent s) < 2 ^ 63 \<longrightarrow> int_sys_inv h s"
proof
  show "int_init h s \<Longrightarrow> ring_ok h \<and> 2 \<le> unat (hn_req_cap h) \<and> length (iy_sent s) < 2 ^ 63 \<longrightarrow>
      int_sys_inv h s" for s
    using int_init_inv by blast
  show "ring_ok h \<and> 2 \<le> unat (hn_req_cap h) \<and> length (iy_sent t) < 2 ^ 63 \<longrightarrow> int_sys_inv h t"
    if "ring_ok h \<and> 2 \<le> unat (hn_req_cap h) \<and> length (iy_sent s) < 2 ^ 63 \<longrightarrow> int_sys_inv h s"
      "int_step h s t" for s t
    using int_sys_inv_step [OF _ _ _ _ that(2)] sent_grows [OF that(2)] that(1) by fastforce
qed

lemma owns_watched: "owns pc p \<Longrightarrow> watched s pc = Some p"
  by (cases pc) (auto simp: owns_def)

section \<open>Properties of every execution\<close>

text \<open>At most the capacity is claimed and not yet taken.\<close>

lemma bounded_claims:
  assumes ring: "ring_ok h" and inv: "int_sys_inv h s"
  shows "length (iy_sent s) \<le> unat (int_head s) + unat (hn_req_cap h)"
proof -
  let ?c = "unat (hn_req_cap h)" and ?H = "unat (int_head s)"
  have "int_slot h (int_head s) < ?c" using ring_idx_lt [OF ring] by (simp add: int_slot_ring [OF ring])
  then obtain q where q: "int_slot h q = int_slot h (int_head s)" "turn h s q"
    using inv unfolding int_sys_inv_def by blast
  then have m: "unat q mod ?c = ?H mod ?c" "unat q < ?H + ?c"
    by (simp_all add: int_slot_ring [OF ring] ring_idx_mod [OF ring] turn_def)
  have "unat q \<le> ?H"
  proof (rule ccontr)
    assume "\<not> unat q \<le> ?H"
    then have gt: "?H < unat q" by simp
    then have "?c dvd unat q - ?H" using m(1) by (metis less_imp_le mod_eq_dvd_iff_nat)
    then have "?c \<le> unat q - ?H" using gt by (intro dvd_imp_le) simp_all
    with m(2) gt show False by linarith
  qed
  then show ?thesis using q(2) by (simp add: turn_def)
qed

lemma map_nth_take_upt: "n \<le> length xs \<Longrightarrow> map (\<lambda>k. xs ! k) [0..<n] = take n xs"
  by (rule nth_equalityI) simp_all

text \<open>When nobody is in the middle of taking a request, what has been read is, counted with
  multiplicity, what was sent at the positions taken.\<close>

lemma got_all:
  assumes got: "got_ok s" and "unat (int_head s) \<le> length (iy_sent s)" and "reading s = {}"
  shows "mset (map snd (iy_got s)) = mset (take (unat (int_head s)) (iy_sent s))"
proof -
  let ?H = "unat (int_head s)"
  have g: "distinct (map fst (iy_got s))" "{p. unat p < ?H} \<subseteq> fst ` set (iy_got s)"
    using got assms(3) by (simp_all add: got_ok_def)
  have each: "snd e = iy_sent s ! unat (fst e)" "unat (fst e) < ?H" if "e \<in> set (iy_got s)" for e
    using got that unfolding got_ok_def by (cases e; auto)+
  have "map snd (iy_got s) = map (\<lambda>k. iy_sent s ! k) (map (unat \<circ> fst) (iy_got s))"
    using each(1) by simp
  moreover have "mset (map (unat \<circ> fst) (iy_got s)) = mset [0..<?H]"
  proof -
    have "inj_on (unat :: u64 \<Rightarrow> nat) A" for A by (rule inj_onI) (simp only: word_unat_eq_iff)
    then have "distinct (map unat (map fst (iy_got s)))" using g(1) by (simp only: distinct_map simp_thms)
    then have d: "distinct (map (unat \<circ> fst) (iy_got s))" by simp
    have "set (map (unat \<circ> fst) (iy_got s)) = {..<?H}"
    proof (intro equalityI subsetI)
      fix k assume k: "k \<in> {..<?H}"
      then have u: "unat (of_nat k :: u64) = k"
        using unat_lt_64 [of "int_head s"] by (simp add: unat_of_nat)
      then have "of_nat k \<in> fst ` set (iy_got s)" using g(2) k by auto
      with u show "k \<in> set (map (unat \<circ> fst) (iy_got s))" by force
    qed (use each(2) in auto)
    then show ?thesis using d by (intro set_eq_iff_mset_eq_distinct [THEN iffD1]) auto
  qed
  ultimately have "mset (map snd (iy_got s)) = image_mset (\<lambda>k. iy_sent s ! k) (mset [0..<?H])"
    by (metis mset_map)
  also have "\<dots> = mset (take ?H (iy_sent s))"
    using assms(2) by (metis map_nth_take_upt mset_map)
  finally show ?thesis .
qed

text \<open>
  Property C14. The lock-free queue never lets two threads touch the same slot: in every reachable
  state, for any number of senders and receivers in any interleaving, a thread that writes or
  reads a slot, from its successful compare-and-exchange until the store of the sequence number
  that hands the slot on, is the only one there.
\<close>

theorem lockfree_slots_exclusive:
  assumes "ring_ok h" and "2 \<le> unat (hn_req_cap h)"
    and "reach (int_init h) (int_step h) s" and "length (iy_sent s) < 2 ^ 63"
    and "owns (iy_pc s t) p" and "owns (iy_pc s t') p'" and "t \<noteq> t'"
  shows "int_slot h p \<noteq> int_slot h p'"
proof -
  have inv: "int_sys_inv h s" using lockfree.reach_inv [OF assms(3)] assms(1,2,4) by blast
  from owner_alone [OF assms(1,2) inv assms(6,7) owns_watched [OF assms(5)]] show ?thesis .
qed

text \<open>
  Property C3. Exactly once, unchanged, in the order of positions: in every reachable state each
  position has been read at most once, whoever read position \<open>p\<close> got the value and the identifier
  that the sender at position \<open>p\<close> stored, and at most the capacity is outstanding; when no
  receiver is between taking a position and reading it, what has been read is exactly, with
  multiplicity, the requests sent at the positions taken: none is lost, none is delivered twice.
\<close>

theorem lockfree_exactly_once:
  assumes "ring_ok h" and "2 \<le> unat (hn_req_cap h)"
    and "reach (int_init h) (int_step h) s" and "length (iy_sent s) < 2 ^ 63"
  shows "distinct (map fst (iy_got s)) \<and>
     (\<forall>(p, x) \<in> set (iy_got s). unat p < length (iy_sent s) \<and> x = iy_sent s ! unat p) \<and>
     unat (int_tail s) = length (iy_sent s) \<and> unat (int_head s) \<le> length (iy_sent s) \<and>
     length (iy_sent s) \<le> unat (int_head s) + unat (hn_req_cap h) \<and>
     ((\<forall>t p. iy_pc s t \<noteq> RRead p) \<longrightarrow>
        mset (map snd (iy_got s)) = mset (take (unat (int_head s)) (iy_sent s)))"
proof -
  have inv: "int_sys_inv h s" using lockfree.reach_inv [OF assms(3)] assms(1,2,4) by blast
  then have got: "got_ok s" and ht: "unat (int_head s) \<le> length (iy_sent s)"
    and tl: "unat (int_tail s) = length (iy_sent s)"
    by (auto simp: int_sys_inv_def)
  have "distinct (map fst (iy_got s))" using got by (simp add: got_ok_def)
  moreover have "unat p < length (iy_sent s) \<and> x = iy_sent s ! unat p" if "(p, x) \<in> set (iy_got s)" for p x
    using got ht that unfolding got_ok_def by fastforce
  moreover note bounded_claims [OF assms(1) inv]
  moreover have "mset (map snd (iy_got s)) = mset (take (unat (int_head s)) (iy_sent s))"
    if "\<forall>t p. iy_pc s t \<noteq> RRead p"
    using that by (intro got_all [OF got ht]) (simp add: reading_def)
  ultimately show ?thesis using ht tl by blast
qed

section \<open>Two executions\<close>

text \<open>A system given by its four parts, and the steps on it, for walking through executions.\<close>

definition sys :: "shm \<Rightarrow> (nat \<Rightarrow> int_pc) \<Rightarrow> payload list \<Rightarrow> (u64 \<times> payload) list \<Rightarrow> int_sys" where
  "sys w pc xs gs = \<lparr>iy_shm = w, iy_pc = pc, iy_sent = xs, iy_got = gs\<rparr>"

lemma sys_simps [simp]:
  "iy_shm (sys w pc xs gs) = w" "iy_pc (sys w pc xs gs) = pc" "iy_sent (sys w pc xs gs) = xs"
  "iy_got (sys w pc xs gs) = gs"
  "(sys w pc xs gs)\<lparr>iy_shm := w'\<rparr> = sys w' pc xs gs"
  "(sys w pc xs gs)\<lparr>iy_pc := pc'\<rparr> = sys w pc' xs gs"
  "(sys w pc xs gs)\<lparr>iy_sent := xs'\<rparr> = sys w pc xs' gs"
  "(sys w pc xs gs)\<lparr>iy_got := gs'\<rparr> = sys w pc xs gs'"
  "slot_at h (sys w pc xs gs) p = int_slots w ! int_slot h p"
  by (simp_all add: sys_def slot_at_def)

text \<open>Sending up to the successful compare-and-exchange, when the slot at the tail is free.\<close>

lemma send_claims:
  assumes "reach (int_init h) (int_step h) (sys w pc xs gs)" "pc t = IIdle"
    and "ri_sequence (int_slots w ! int_slot h (h_req_tail (hdr w))) = h_req_tail (hdr w)"
  shows "reach (int_init h) (int_step h)
     (sys (hdr_update (\<lambda>y. y\<lparr>h_req_tail := h_req_tail (hdr w) + 1\<rparr>) w)
        (pc(t := SWrite x (h_req_tail (hdr w)))) (xs @ [x]) gs)"
proof -
  let ?R = "reach (int_init h) (int_step h)" and ?p = "h_req_tail (hdr w)"
  have "?R (sys w (pc(t := SPos x ?p)) xs gs)"
    by (rule reach_step [OF assms(1)]) (use int_step.send_start [of "sys w pc xs gs" t h x] assms(2) in simp)
  then have "?R (sys w (pc(t := SCas x ?p)) xs gs)"
    by (rule reach_step)
      (use int_step.send_look [of "sys w (pc(t := SPos x ?p)) xs gs" t x ?p 0 h] assms(3) in simp)
  then show ?thesis
    by (rule reach_step)
      (use int_step.send_cas [of "sys w (pc(t := SCas x ?p)) xs gs" t x ?p h] in simp)
qed

lemma demo_system:
  obtains h w where "ring_ok h" "2 \<le> unat (hn_req_cap h)" "int_slot h 0 = 0" "int_slot h 1 = 1"
    "h_req_head (hdr w) = 0" "h_req_tail (hdr w) = 0"
    "int_slots w = [\<lparr>ri_sequence = 0, ri_value = 0, ri_resp_slot = 0, ri_resp_gen = 0\<rparr>,
       \<lparr>ri_sequence = 1, ri_value = 0, ri_resp_slot = 0, ri_resp_gen = 0\<rparr>]"
    "reach (int_init h) (int_step h) (sys w (\<lambda>_. IIdle) [] [])"
proof -
  obtain h w where d: "int_ok h w" "hn_req_cap h = 2" "h_req_head (hdr w) = 0" "h_req_tail (hdr w) = 0"
    "int_slots w = [\<lparr>ri_sequence = 0, ri_value = 0, ri_resp_slot = 0, ri_resp_gen = 0\<rparr>,
       \<lparr>ri_sequence = 1, ri_value = 0, ri_resp_slot = 0, ri_resp_gen = 0\<rparr>]"
    using demo_int by metis
  have ring: "ring_ok h" using d(1) by (simp add: int_ok_def int_queue_ok_def)
  have sl: "int_slot h 0 = 0" "int_slot h 1 = 1"
    using ring_idx_mod [OF ring] d(2) by (simp_all add: int_slot_ring [OF ring])
  have "int_init h (sys w (\<lambda>_. IIdle) [] [])"
    using d by (simp add: int_init_def upt_conv_Cons)
  then have "reach (int_init h) (int_step h) (sys w (\<lambda>_. IIdle) [] [])" by (rule reach_init)
  with that ring d sl show thesis by simp
qed

theorem lockfree_slots_exclusive_witness:
  "\<exists>h s. reach (int_init h) (int_step h) s \<and> owns (iy_pc s 0) 0 \<and> owns (iy_pc s 1) 1 \<and>
     int_slot h 0 \<noteq> int_slot h 1"
proof -
  obtain h w where d: "ring_ok h" "2 \<le> unat (hn_req_cap h)" "int_slot h 0 = 0" "int_slot h 1 = 1"
    "h_req_tail (hdr w) = 0"
    "int_slots w = [\<lparr>ri_sequence = 0, ri_value = 0, ri_resp_slot = 0, ri_resp_gen = 0\<rparr>,
       \<lparr>ri_sequence = 1, ri_value = 0, ri_resp_slot = 0, ri_resp_gen = 0\<rparr>]"
    "reach (int_init h) (int_step h) (sys w (\<lambda>_. IIdle) [] [])" using demo_system by metis
  let ?w1 = "hdr_update (\<lambda>y. y\<lparr>h_req_tail := 1\<rparr>) w"
  have r1: "reach (int_init h) (int_step h) (sys ?w1 ((\<lambda>_. IIdle)(0 := SWrite (5, 0, 1) 0)) [(5, 0, 1)] [])"
    using send_claims [OF d(7), of 0 "(5, 0, 1)"] d by simp
  let ?s = "sys (hdr_update (\<lambda>y. y\<lparr>h_req_tail := 2\<rparr>) ?w1)
      ((\<lambda>_. IIdle)(0 := SWrite (5, 0, 1) 0, 1 := SWrite (6, 1, 1) 1)) [(5, 0, 1), (6, 1, 1)] []"
  have r2: "reach (int_init h) (int_step h) ?s"
    using send_claims [OF r1, of 1 "(6, 1, 1)"] d by simp
  have o: "owns (iy_pc ?s 0) 0" "owns (iy_pc ?s 1) 1" by (simp_all add: owns_def)
  have "length (iy_sent ?s) < 2 ^ 63" by simp
  from lockfree_slots_exclusive [OF d(1,2) r2 this o] have "int_slot h 0 \<noteq> int_slot h 1" by simp
  with r2 o show ?thesis by blast
qed

theorem lockfree_exactly_once_witness:
  "\<exists>h s. reach (int_init h) (int_step h) s \<and> iy_got s = [(0, (5, 0, 1))] \<and>
     iy_sent s = [(5, 0, 1)] \<and> mset (map snd (iy_got s)) = mset (take (unat (int_head s)) (iy_sent s))"
proof -
  obtain h w where d: "ring_ok h" "2 \<le> unat (hn_req_cap h)" "int_slot h 0 = 0"
    "h_req_head (hdr w) = 0" "h_req_tail (hdr w) = 0"
    "int_slots w = [\<lparr>ri_sequence = 0, ri_value = 0, ri_resp_slot = 0, ri_resp_gen = 0\<rparr>,
       \<lparr>ri_sequence = 1, ri_value = 0, ri_resp_slot = 0, ri_resp_gen = 0\<rparr>]"
    "reach (int_init h) (int_step h) (sys w (\<lambda>_. IIdle) [] [])" using demo_system by metis
  let ?R = "reach (int_init h) (int_step h)" and ?x = "(5, 0, 1) :: payload"
  let ?s1 = "\<lparr>ri_sequence = 1, ri_value = 0, ri_resp_slot = 0, ri_resp_gen = 0\<rparr> :: ReqIntSlot"
  define w1 where "w1 = hdr_update (\<lambda>y. y\<lparr>h_req_tail := 1\<rparr>) w"
  define w2 where "w2 = w1\<lparr>int_slots := [\<lparr>ri_sequence = 0, ri_value = 5, ri_resp_slot = 0, ri_resp_gen = 1\<rparr>, ?s1]\<rparr>"
  define w3 where "w3 = w2\<lparr>int_slots := [\<lparr>ri_sequence = 1, ri_value = 5, ri_resp_slot = 0, ri_resp_gen = 1\<rparr>, ?s1]\<rparr>"
  define w4 where "w4 = hdr_update (\<lambda>y. y\<lparr>h_req_head := 1\<rparr>) w3"
  note ws = w1_def w2_def w3_def w4_def
  let ?pc = "\<lambda>pc. (\<lambda>_ :: nat. IIdle)(0 := pc)"
  have "?R (sys w1 (?pc (SWrite ?x 0)) [?x] [])"
    using send_claims [OF d(7), of 0 ?x] d by (simp add: w1_def)
  then have "?R (sys w2 (?pc (SPub ?x 0)) [?x] [])"
    by (rule reach_step) (use int_step.send_write [of "sys w1 (?pc (SWrite ?x 0)) [?x] []" 0 ?x 0 h w2] d
        in \<open>simp add: ws upd_int_def\<close>)
  then have "?R (sys w3 (?pc IIdle) [?x] [])"
    by (rule reach_step) (use int_step.send_publish [of "sys w2 (?pc (SPub ?x 0)) [?x] []" 0 ?x 0 h w3] d
        in \<open>simp add: ws upd_int_def\<close>)
  then have "?R (sys w3 (?pc (RPos 0)) [?x] [])"
    by (rule reach_step) (use int_step.recv_start [of "sys w3 (?pc IIdle) [?x] []" 0 h] d in \<open>simp add: ws\<close>)
  then have "?R (sys w3 (?pc (RCas 0)) [?x] [])"
    by (rule reach_step) (use int_step.recv_look [of "sys w3 (?pc (RPos 0)) [?x] []" 0 0 0 h] d in \<open>simp add: ws\<close>)
  then have "?R (sys w4 (?pc (RRead 0)) [?x] [])"
    by (rule reach_step) (use int_step.recv_cas [of "sys w3 (?pc (RCas 0)) [?x] []" 0 0 h] d in \<open>simp add: ws\<close>)
  then have r: "?R (sys w4 (?pc (RRel ?x 0)) [?x] [(0, ?x)])"
    by (rule reach_step) (use int_step.recv_read [of "sys w4 (?pc (RRead 0)) [?x] []" 0 0 ?x h] d
        in \<open>simp add: ws payload_of_def\<close>)
  let ?s = "sys w4 (?pc (RRel ?x 0)) [?x] [(0, ?x)]"
  have "length (iy_sent ?s) < 2 ^ 63" "\<forall>t p. iy_pc ?s t \<noteq> RRead p" by simp_all
  with lockfree_exactly_once [OF d(1,2) r] have
    "mset (map snd (iy_got ?s)) = mset (take (unat (int_head ?s)) (iy_sent ?s))" by blast
  with r show ?thesis by (intro exI [of _ h] exI [of _ ?s]) simp
qed

end
