(* ===== verification/RR_Threads.thy ===== *)
theory RR_Threads
  imports RR_Vyukov
begin

text \<open>
  The two views of concurrency agree. \<^verbatim>\<open>RR_Int\<close> and \<^verbatim>\<open>RR_Mutex\<close> run a call of the code under
  interference, an arbitrary change of the mapping before each access; the step relations of
  \<^verbatim>\<open>RR_Vyukov\<close> and \<^verbatim>\<open>RR_Mutex\<close> interleave the accesses of many threads. Here the interference is
  that of the other threads of such a system, and a call is shown to be a run of one thread of it:
  every access of the code is a step the relation has, so what holds in every reachable state
  holds of what the calls return.
\<close>

section \<open>Calls on the lock-free ring\<close>

text \<open>
  What the other threads do is described by a predicate \<open>J\<close> on the states, which says where
  they are as far as it matters: thread \<open>t\<close> keeps it with every step of its own, and before each access
  of the call the others can go, keeping it, to a state that shows the interference.
\<close>

definition stays :: "ReqRepHandle \<Rightarrow> nat \<Rightarrow> (int_sys \<Rightarrow> bool) \<Rightarrow> bool" where
  "stays h t J \<longleftrightarrow> (\<forall>s s'. reach (int_init h) (int_step h) s \<longrightarrow> J s \<longrightarrow> int_step h s s' \<longrightarrow>
     (\<forall>u. u \<noteq> t \<longrightarrow> iy_pc s' u = iy_pc s u) \<longrightarrow> J s')"

definition steps_env :: "ReqRepHandle \<Rightarrow> nat \<Rightarrow> (int_sys \<Rightarrow> bool) \<Rightarrow> os \<Rightarrow> bool" where
  "steps_env h t J os \<longleftrightarrow> stays h t J \<and> (\<forall>p s. reach (int_init h) (int_step h) s \<longrightarrow> J s \<longrightarrow>
     (\<exists>s'. (int_step h)\<^sup>*\<^sup>* s s' \<and> J s' \<and> iy_shm s' = os_run os p (iy_shm s) \<and> iy_pc s' t = iy_pc s t))"

lemma steps_env_sub [intro]: "steps_env h t J os \<Longrightarrow> steps_env h t J (sub os k)"
  by (simp add: steps_env_def)

lemma steps_env_stays: "steps_env h t J os \<Longrightarrow> stays h t J"
  by (simp add: steps_env_def)

lemma steps_env_quiet: "quiet os \<Longrightarrow> stays h t J \<Longrightarrow> steps_env h t J os"
  by (auto simp: steps_env_def)

text \<open>\<open>goes h t J w pc w' pc'\<close>: from every reachable state with mapping \<open>w\<close> and thread \<open>t\<close> at
  \<open>pc\<close> the system can go to one with mapping \<open>w'\<close> and \<open>t\<close> at \<open>pc'\<close>.\<close>

definition goes :: "ReqRepHandle \<Rightarrow> nat \<Rightarrow> (int_sys \<Rightarrow> bool) \<Rightarrow> shm \<Rightarrow> int_pc \<Rightarrow> shm \<Rightarrow> int_pc \<Rightarrow> bool" where
  "goes h t J w pc w' pc' \<longleftrightarrow> leads (int_init h) (int_step h) J
     (\<lambda>s. iy_shm s = w \<and> iy_pc s t = pc) (\<lambda>s. iy_shm s = w' \<and> iy_pc s t = pc')"

lemma goes_trans [trans]:
  "goes h t J w pc w1 pc1 \<Longrightarrow> goes h t J w1 pc1 w' pc' \<Longrightarrow> goes h t J w pc w' pc'"
  unfolding goes_def by (rule leads_trans)

lemma goes_env: "steps_env h t J os \<Longrightarrow> goes h t J w pc (os_run os p w) pc"
  unfolding goes_def leads_def steps_env_def by metis

lemma goes_step:
  assumes "stays h t J"
    and "\<And>s. iy_shm s = w \<Longrightarrow> iy_pc s t = pc \<Longrightarrow> \<exists>s'. int_step h s s' \<and> iy_shm s' = w' \<and>
      iy_pc s' t = pc' \<and> (\<forall>u. u \<noteq> t \<longrightarrow> iy_pc s' u = iy_pc s u)"
  shows "goes h t J w pc w' pc'"
  unfolding goes_def by (rule leads_step) (use assms in \<open>unfold stays_def, blast\<close>)

lemma goes_elsewhere:
  "stays h t J \<Longrightarrow> int_slots w' = int_slots w \<Longrightarrow> h_req_head (hdr w') = h_req_head (hdr w) \<Longrightarrow>
   h_req_tail (hdr w') = h_req_tail (hdr w) \<Longrightarrow> goes h t J w pc w' pc"
  by (erule goes_step) (use int_step.elsewhere in fastforce)

lemma goes_send:
  assumes st: "stays h t J"
  shows "d = sint (ri_sequence (int_slots w ! int_slot h p) - p) \<Longrightarrow>
     goes h t J w (SPos x p) w (if d = 0 then SCas x p else if d < 0 then IIdle else SReload x)"
  "goes h t J w (SReload x) w (SPos x (h_req_tail (hdr w)))"
  "h_req_tail (hdr w) = p \<Longrightarrow>
     goes h t J w (SCas x p) (hdr_update (\<lambda>y. y\<lparr>h_req_tail := p + 1\<rparr>) w) (SWrite x p)"
  "goes h t J w (SCas x p) w (SPos x (h_req_tail (hdr w)))"
  "upd_int (int_slot h p) (\<lambda>sl. sl\<lparr>ri_value := fst x, ri_resp_slot := fst (snd x),
      ri_resp_gen := snd (snd x)\<rparr>) w = Some w' \<Longrightarrow> goes h t J w (SWrite x p) w' (SPub x p)"
  "upd_int (int_slot h p) (\<lambda>sl. sl\<lparr>ri_sequence := p + 1\<rparr>) w = Some w' \<Longrightarrow> goes h t J w (SPub x p) w' IIdle"
proof -
  show "goes h t J w (SPos x p) w (if d = 0 then SCas x p else if d < 0 then IIdle else SReload x)"
    if "d = sint (ri_sequence (int_slots w ! int_slot h p) - p)"
    by (rule goes_step [OF st]) (use that int_step.send_look [of _ t x p d h] in \<open>fastforce simp: slot_at_def\<close>)
  show "goes h t J w (SReload x) w (SPos x (h_req_tail (hdr w)))"
    by (rule goes_step [OF st]) (use int_step.send_reload in fastforce)
  show "goes h t J w (SCas x p) (hdr_update (\<lambda>y. y\<lparr>h_req_tail := p + 1\<rparr>) w) (SWrite x p)"
    if "h_req_tail (hdr w) = p"
    by (rule goes_step [OF st]) (use that int_step.send_cas in fastforce)
  show "goes h t J w (SCas x p) w (SPos x (h_req_tail (hdr w)))"
    by (rule goes_step [OF st]) (use int_step.send_cas_fails in fastforce)
  show "goes h t J w (SWrite x p) w' (SPub x p)"
    if "upd_int (int_slot h p) (\<lambda>sl. sl\<lparr>ri_value := fst x, ri_resp_slot := fst (snd x),
      ri_resp_gen := snd (snd x)\<rparr>) w = Some w'"
    by (rule goes_step [OF st]) (use that int_step.send_write in fastforce)
  show "goes h t J w (SPub x p) w' IIdle"
    if "upd_int (int_slot h p) (\<lambda>sl. sl\<lparr>ri_sequence := p + 1\<rparr>) w = Some w'"
    by (rule goes_step [OF st]) (use that int_step.send_publish in fastforce)
qed

lemma goes_recv:
  assumes st: "stays h t J"
  shows "d = sint (ri_sequence (int_slots w ! int_slot h p) - (p + 1)) \<Longrightarrow>
     goes h t J w (RPos p) w (if d = 0 then RCas p else if d < 0 then IIdle else RReload)"
  "goes h t J w RReload w (RPos (h_req_head (hdr w)))"
  "h_req_head (hdr w) = p \<Longrightarrow>
     goes h t J w (RCas p) (hdr_update (\<lambda>y. y\<lparr>h_req_head := p + 1\<rparr>) w) (RRead p)"
  "goes h t J w (RCas p) w (RPos (h_req_head (hdr w)))"
  "goes h t J w (RRead p) w (RRel (payload_of (int_slots w ! int_slot h p)) p)"
  "upd_int (int_slot h p) (\<lambda>sl. sl\<lparr>ri_sequence := p + ucast (hn_req_cap h)\<rparr>) w = Some w' \<Longrightarrow>
     goes h t J w (RRel x p) w' IIdle"
proof -
  show "goes h t J w (RPos p) w (if d = 0 then RCas p else if d < 0 then IIdle else RReload)"
    if "d = sint (ri_sequence (int_slots w ! int_slot h p) - (p + 1))"
    by (rule goes_step [OF st]) (use that int_step.recv_look [of _ t p d h] in \<open>fastforce simp: slot_at_def\<close>)
  show "goes h t J w RReload w (RPos (h_req_head (hdr w)))"
    by (rule goes_step [OF st]) (use int_step.recv_reload in fastforce)
  show "goes h t J w (RCas p) (hdr_update (\<lambda>y. y\<lparr>h_req_head := p + 1\<rparr>) w) (RRead p)"
    if "h_req_head (hdr w) = p"
    by (rule goes_step [OF st]) (use that int_step.recv_cas in fastforce)
  show "goes h t J w (RCas p) w (RPos (h_req_head (hdr w)))"
    by (rule goes_step [OF st]) (use int_step.recv_cas_fails in fastforce)
  show "goes h t J w (RRead p) w (RRel (payload_of (int_slots w ! int_slot h p)) p)"
    by (rule goes_step [OF st]) (use int_step.recv_read in \<open>fastforce simp: slot_at_def\<close>)
  show "goes h t J w (RRel x p) w' IIdle"
    if "upd_int (int_slot h p) (\<lambda>sl. sl\<lparr>ri_sequence := p + ucast (hn_req_cap h)\<rparr>) w = Some w'"
    by (rule goes_step [OF st]) (use that int_step.recv_release in fastforce)
qed


lemma upd_resp_ring:
  assumes "upd_resp idx f w = Some w'"
  shows "int_slots w' = int_slots w" "hdr w' = hdr w"
  using assms by (auto simp: upd_resp_def bind_eq_Some_conv)

lemma release_goes:
  assumes e: "steps_env h t J os" and "reqrep_slot_release os idx w = Some w'"
  shows "goes h t J w pc w' pc"
proof -
  note st = steps_env_stays [OF e]
  obtain w1 w2 where u: "upd_resp idx (\<lambda>s. s\<lparr>rs_owner_pid := 0\<rparr>) (others os 0 w) = Some w1"
    "upd_resp idx (\<lambda>s. s\<lparr>rs_state := RESP_FREE\<rparr>) (others os 1 w1) = Some w2"
    "w' = reqrep_wake_slot_waiters (others os 2 w2)"
    using assms(2) by (auto simp: reqrep_slot_release_def bind_eq_Some_conv)
  have "goes h t J w pc (others os 0 w) pc" by (rule goes_env [OF e])
  also have "goes h t J (others os 0 w) pc w1 pc" by (rule goes_elsewhere [OF st]) (simp_all add: upd_resp_ring [OF u(1)])
  also have "goes h t J w1 pc (others os 1 w1) pc" by (rule goes_env [OF e])
  also have "goes h t J (others os 1 w1) pc w2 pc" by (rule goes_elsewhere [OF st]) (simp_all add: upd_resp_ring [OF u(2)])
  also have "goes h t J w2 pc (others os 2 w2) pc" by (rule goes_env [OF e])
  also have "goes h t J (others os 2 w2) pc w' pc"
    unfolding u(3) by (rule goes_elsewhere [OF st]) (simp_all add: wake_defs)
  finally show ?thesis .
qed

lemma int_send_loop_goes:
  assumes "steps_env h t J os"
    and "int_send_loop os fuel k h v rslot gen pos w = Some (r, oid, w')"
  shows "r = 1 \<and> oid = Some (REQREP_MAKE_ID rslot gen) \<and>
       (\<exists>w1 p. goes h t J w (SPos (v, rslot, gen) pos) w1 (SPub (v, rslot, gen) p) \<and>
               goes h t J w1 (SPub (v, rslot, gen) p) w' IIdle) \<or>
     r = 0 \<and> oid = None \<and> goes h t J w (SPos (v, rslot, gen) pos) w' IIdle"
  using assms(2)
proof (induction fuel arbitrary: k pos w)
  case (Suc fuel)
  let ?x = "(v, rslot, gen)" and ?i = "int_slot h pos"
  note st = steps_env_stays [OF assms(1)]
  define o' where "o' = sub os k"
  have e: "steps_env h t J o'" "steps_env h t J (sub o' 6)" using assms(1) by (auto simp: o'_def)
  define w1 where "w1 = others o' 0 w"
  define w2 where "w2 = others o' 1 w1"
  define d where "d = sint (ri_sequence (int_slots w1 ! ?i) - pos)"
  have i: "?i < length (int_slots w1)"
    using Suc.prems by (auto simp: int_send_loop.simps Let_def o'_def w1_def split: if_splits)
  have "goes h t J w (SPos ?x pos) w1 (SPos ?x pos)" unfolding w1_def by (rule goes_env [OF e(1)])
  also have "goes h t J w1 (SPos ?x pos) w1 (if d = 0 then SCas ?x pos else if d < 0 then IIdle else SReload ?x)"
    by (rule goes_send(1) [OF st]) (rule d_def)
  also have "goes h t J w1 (if d = 0 then SCas ?x pos else if d < 0 then IIdle else SReload ?x) w2
      (if d = 0 then SCas ?x pos else if d < 0 then IIdle else SReload ?x)"
    unfolding w2_def by (rule goes_env [OF e(1)])
  finally have look: "goes h t J w (SPos ?x pos) w2
      (if d = 0 then SCas ?x pos else if d < 0 then IIdle else SReload ?x)" .
  have again: ?case if "goes h t J w (SPos ?x pos) w2 (SPos ?x (h_req_tail (hdr w2)))"
    and "int_send_loop os fuel (Suc k) h v rslot gen (h_req_tail (hdr w2)) w2 = Some (r, oid, w')"
    using Suc.IH [OF that(2)] goes_trans [OF that(1)] by blast
  note unf = Suc.prems [unfolded int_send_loop.simps Let_def, folded o'_def, folded w1_def, folded w2_def d_def]
  consider (cas) "d = 0" "h_req_tail (hdr w2) = pos" "\<not> os_spurious o' []"
    | (fails) "d = 0" "\<not> (h_req_tail (hdr w2) = pos \<and> \<not> os_spurious o' [])"
    | (full) "d < 0" | (reload) "0 < d" by linarith
  then show ?case
  proof cases
    case cas
    define wc where "wc = hdr_update (\<lambda>y. y\<lparr>h_req_tail := pos + 1\<rparr>) w2"
    obtain wa wb where u: "upd_int ?i (\<lambda>s. s\<lparr>ri_value := v, ri_resp_slot := rslot, ri_resp_gen := gen\<rparr>)
        (others o' 2 wc) = Some wa"
      "upd_int ?i (\<lambda>s. s\<lparr>ri_sequence := pos + 1\<rparr>) (others o' 3 wa) = Some wb"
      "r = 1" "oid = Some (REQREP_MAKE_ID rslot gen)" "w' = reqrep_wake_consumers (others o' 5
         (hdr_update (\<lambda>x. x\<lparr>h_stat_requests := h_stat_requests x + 1\<rparr>) (others o' 4 wb)))"
      using unf i cas by (auto simp: bind_eq_Some_conv wc_def)
    let ?wd = "hdr_update (\<lambda>x. x\<lparr>h_stat_requests := h_stat_requests x + 1\<rparr>) (others o' 4 wb)"
    have "goes h t J w (SPos ?x pos) w2 (SCas ?x pos)" using look cas(1) by simp
    also have "goes h t J w2 (SCas ?x pos) wc (SWrite ?x pos)"
      unfolding wc_def by (rule goes_send(3) [OF st]) (rule cas(2))
    also have "goes h t J wc (SWrite ?x pos) (others o' 2 wc) (SWrite ?x pos)" by (rule goes_env [OF e(1)])
    also have "goes h t J (others o' 2 wc) (SWrite ?x pos) wa (SPub ?x pos)"
      by (rule goes_send(5) [OF st]) (use u(1) in simp)
    finally have claimed: "goes h t J w (SPos ?x pos) wa (SPub ?x pos)" .
    have "goes h t J wa (SPub ?x pos) (others o' 3 wa) (SPub ?x pos)" by (rule goes_env [OF e(1)])
    also have "goes h t J (others o' 3 wa) (SPub ?x pos) wb IIdle" by (rule goes_send(6) [OF st]) (rule u(2))
    also have "goes h t J wb IIdle (others o' 4 wb) IIdle" by (rule goes_env [OF e(1)])
    also have "goes h t J (others o' 4 wb) IIdle ?wd IIdle" by (rule goes_elsewhere [OF st]) simp_all
    also have "goes h t J ?wd IIdle (others o' 5 ?wd) IIdle" by (rule goes_env [OF e(1)])
    also have "goes h t J (others o' 5 ?wd) IIdle w' IIdle"
      unfolding u(5) by (rule goes_elsewhere [OF st]) (simp_all add: wake_defs)
    finally show ?thesis using claimed u(3,4) by blast
  next
    case fails
    have "goes h t J w (SPos ?x pos) w2 (SPos ?x (h_req_tail (hdr w2)))"
      using look goes_trans [OF _ goes_send(4) [OF st]] fails(1) by simp
    then show ?thesis by (rule again) (use unf i fails in \<open>simp split: if_splits\<close>)
  next
    case full
    let ?wd = "hdr_update (\<lambda>x. x\<lparr>h_stat_send_full := h_stat_send_full x + 1\<rparr>) w2"
    have u: "reqrep_slot_release (sub o' 6) rslot ?wd = Some w'" "r = 0" "oid = None"
      using unf i full by (auto simp: bind_eq_Some_conv)
    have "goes h t J w (SPos ?x pos) w2 IIdle" using look full by simp
    also have "goes h t J w2 IIdle ?wd IIdle" by (rule goes_elsewhere [OF st]) simp_all
    also have "goes h t J ?wd IIdle w' IIdle" by (rule release_goes [OF e(2) u(1)])
    finally show ?thesis using u(2,3) by blast
  next
    case reload
    have "goes h t J w (SPos ?x pos) w2 (SPos ?x (h_req_tail (hdr w2)))"
      using look goes_trans [OF _ goes_send(2) [OF st]] reload by simp
    then show ?thesis by (rule again) (use unf i reload in simp)
  qed
qed (simp add: int_send_loop.simps)

lemma int_recv_loop_goes:
  assumes "steps_env h t J os"
    and "int_recv_loop os fuel k h pos w = Some (r, out, w')"
  shows "r = 1 \<and> (\<exists>w1 x p. goes h t J w (RPos pos) w1 (RRel x p) \<and> goes h t J w1 (RRel x p) w' IIdle \<and>
       out = Some \<lparr>io_value = fst x, io_id = REQREP_MAKE_ID (fst (snd x)) (snd (snd x))\<rparr>) \<or>
     r = 0 \<and> out = None \<and> goes h t J w (RPos pos) w' IIdle"
  using assms(2)
proof (induction fuel arbitrary: k pos w)
  case (Suc fuel)
  let ?i = "int_slot h pos"
  note st = steps_env_stays [OF assms(1)]
  define o' where "o' = sub os k"
  have e: "steps_env h t J o'" using assms(1) by (auto simp: o'_def)
  define w1 where "w1 = others o' 0 w"
  define w2 where "w2 = others o' 1 w1"
  define d where "d = sint (ri_sequence (int_slots w1 ! ?i) - (pos + 1))"
  have i: "?i < length (int_slots w1)"
    using Suc.prems by (auto simp: int_recv_loop.simps Let_def o'_def w1_def split: if_splits)
  have "goes h t J w (RPos pos) w1 (RPos pos)" unfolding w1_def by (rule goes_env [OF e])
  also have "goes h t J w1 (RPos pos) w1 (if d = 0 then RCas pos else if d < 0 then IIdle else RReload)"
    by (rule goes_recv(1) [OF st]) (rule d_def)
  also have "goes h t J w1 (if d = 0 then RCas pos else if d < 0 then IIdle else RReload) w2
      (if d = 0 then RCas pos else if d < 0 then IIdle else RReload)"
    unfolding w2_def by (rule goes_env [OF e])
  finally have look: "goes h t J w (RPos pos) w2
      (if d = 0 then RCas pos else if d < 0 then IIdle else RReload)" .
  have again: ?case if "goes h t J w (RPos pos) w2 (RPos (h_req_head (hdr w2)))"
    and "int_recv_loop os fuel (Suc k) h (h_req_head (hdr w2)) w2 = Some (r, out, w')"
    using Suc.IH [OF that(2)] goes_trans [OF that(1)] by blast
  note unf = Suc.prems [unfolded int_recv_loop.simps Let_def, folded o'_def, folded w1_def, folded w2_def d_def]
  consider (cas) "d = 0" "h_req_head (hdr w2) = pos" "\<not> os_spurious o' []"
    | (fails) "d = 0" "\<not> (h_req_head (hdr w2) = pos \<and> \<not> os_spurious o' [])"
    | (none) "d < 0" | (reload) "0 < d" by linarith
  then show ?case
  proof cases
    case cas
    define wc where "wc = hdr_update (\<lambda>y. y\<lparr>h_req_head := pos + 1\<rparr>) w2"
    let ?wd = "others o' 2 wc"
    let ?x = "payload_of (int_slots ?wd ! ?i)"
    obtain wb where u: "upd_int ?i (\<lambda>s. s\<lparr>ri_sequence := pos + ucast (hn_req_cap h)\<rparr>) (others o' 3 ?wd) = Some wb"
      "r = 1" "out = Some \<lparr>io_value = fst ?x, io_id = REQREP_MAKE_ID (fst (snd ?x)) (snd (snd ?x))\<rparr>"
      "w' = reqrep_wake_producers (others o' 4 wb)"
      using unf i cas by (auto simp: bind_eq_Some_conv wc_def payload_of_def split: if_splits)
    have "goes h t J w (RPos pos) w2 (RCas pos)" using look cas(1) by simp
    also have "goes h t J w2 (RCas pos) wc (RRead pos)"
      unfolding wc_def by (rule goes_recv(3) [OF st]) (rule cas(2))
    also have "goes h t J wc (RRead pos) ?wd (RRead pos)" by (rule goes_env [OF e])
    also have "goes h t J ?wd (RRead pos) ?wd (RRel ?x pos)" by (rule goes_recv(5) [OF st])
    finally have read: "goes h t J w (RPos pos) ?wd (RRel ?x pos)" .
    have "goes h t J ?wd (RRel ?x pos) (others o' 3 ?wd) (RRel ?x pos)" by (rule goes_env [OF e])
    also have "goes h t J (others o' 3 ?wd) (RRel ?x pos) wb IIdle" by (rule goes_recv(6) [OF st]) (rule u(1))
    also have "goes h t J wb IIdle (others o' 4 wb) IIdle" by (rule goes_env [OF e])
    also have "goes h t J (others o' 4 wb) IIdle w' IIdle"
      unfolding u(4) by (rule goes_elsewhere [OF st]) (simp_all add: wake_defs)
    finally show ?thesis using read u(2,3) by blast
  next
    case fails
    have "goes h t J w (RPos pos) w2 (RPos (h_req_head (hdr w2)))"
      using look goes_trans [OF _ goes_recv(4) [OF st]] fails(1) by simp
    then show ?thesis by (rule again) (use unf i fails in \<open>simp split: if_splits\<close>)
  next
    case none
    have "goes h t J w (RPos pos) w2 IIdle" using look none by simp
    also have "goes h t J w2 IIdle w' IIdle"
      by (rule goes_elsewhere [OF st]) (use unf i none in auto)
    finally show ?thesis using unf i none by simp
  next
    case reload
    have "goes h t J w (RPos pos) w2 (RPos (h_req_head (hdr w2)))"
      using look goes_trans [OF _ goes_recv(2) [OF st]] reload by simp
    then show ?thesis by (rule again) (use unf i reload in simp)
  qed
qed (simp add: int_recv_loop.simps)

text \<open>The histories only grow, and they hold what the threads have in hand.\<close>

lemma histories_grow:
  "(int_step h)\<^sup>*\<^sup>* s s' \<Longrightarrow> set (iy_sent s) \<subseteq> set (iy_sent s') \<and> set (iy_got s) \<subseteq> set (iy_got s')"
proof (induction rule: rtranclp_induct)
  case (step s1 s2)
  from step(2) have "set (iy_sent s1) \<subseteq> set (iy_sent s2) \<and> set (iy_got s1) \<subseteq> set (iy_got s2)"
    by cases auto
  with step(3) show ?case by blast
qed simp

fun recorded :: "int_sys \<Rightarrow> int_pc \<Rightarrow> bool" where
  "recorded s (SWrite x p) \<longleftrightarrow> x \<in> set (iy_sent s)"
| "recorded s (SPub x p) \<longleftrightarrow> x \<in> set (iy_sent s)"
| "recorded s (RRel x p) \<longleftrightarrow> (p, x) \<in> set (iy_got s)"
| "recorded s _ \<longleftrightarrow> True"

lemma recorded_mono:
  "recorded s pc \<Longrightarrow> set (iy_sent s) \<subseteq> set (iy_sent s') \<Longrightarrow> set (iy_got s) \<subseteq> set (iy_got s') \<Longrightarrow> recorded s' pc"
  by (cases pc) auto

interpretation histories: invariant_system "int_init h" "int_step h" "\<lambda>s. \<forall>t. recorded s (iy_pc s t)"
proof
  show "int_init h s \<Longrightarrow> \<forall>t. recorded s (iy_pc s t)" for s by (simp add: int_init_def)
  fix s s' assume inv: "\<forall>t. recorded s (iy_pc s t)" and st: "int_step h s s'"
  have grow: "set (iy_sent s) \<subseteq> set (iy_sent s')" "set (iy_got s) \<subseteq> set (iy_got s')"
    using histories_grow [of h s s'] st by auto
  have "recorded s' (iy_pc s' t)" for t
  proof (cases "iy_pc s' t = iy_pc s t")
    case True
    then show ?thesis using inv recorded_mono grow by metis
  next
    case False
    have old: "recorded s (iy_pc s t)" using inv by blast
    from st False old show ?thesis by cases (auto split: if_splits)
  qed
  then show "\<forall>t. recorded s' (iy_pc s' t)" ..
qed

text \<open>
  Property C5. The calls of the code are runs of the threads. Let thread \<open>t\<close> of a reachable state
  be at the start of the loop of \<^verbatim>\<open>reqrep_int_try_send\<close> or \<^verbatim>\<open>reqrep_int_try_recv\<close>, and let the
  interference before each access of the call be anything the other threads can do there. If the
  call returns, the system can reach a state with the mapping the call leaves, thread \<open>t\<close> idle
  again, and, after a success, the request among those sent or the result among those received.
\<close>

theorem int_calls_are_runs:
  assumes "steps_env h t J os" and "reach (int_init h) (int_step h) s" and "J s"
  shows "(iy_pc s t = SPos (v, rslot, gen) pos \<and>
      int_send_loop os fuel k h v rslot gen pos (iy_shm s) = Some (r, oid, w') \<longrightarrow>
      (\<exists>s'. (int_step h)\<^sup>*\<^sup>* s s' \<and> J s' \<and> iy_shm s' = w' \<and> iy_pc s' t = IIdle \<and>
         (r = 1 \<and> oid = Some (REQREP_MAKE_ID rslot gen) \<and> (v, rslot, gen) \<in> set (iy_sent s') \<or>
          r = 0 \<and> oid = None))) \<and>
    (iy_pc s t = RPos pos \<and> int_recv_loop os fuel k h pos (iy_shm s) = Some (r, out, w') \<longrightarrow>
      (\<exists>s'. (int_step h)\<^sup>*\<^sup>* s s' \<and> J s' \<and> iy_shm s' = w' \<and> iy_pc s' t = IIdle \<and>
         (r = 1 \<and> (\<exists>p x. (p, x) \<in> set (iy_got s') \<and>
            out = Some \<lparr>io_value = fst x, io_id = REQREP_MAKE_ID (fst (snd x)) (snd (snd x))\<rparr>) \<or>
          r = 0 \<and> out = None)))"
proof -
  have two: "\<exists>s1 s'. (int_step h)\<^sup>*\<^sup>* s s' \<and> J s' \<and> iy_shm s' = w' \<and> iy_pc s' t = IIdle \<and>
      recorded s1 pc1 \<and> set (iy_sent s1) \<subseteq> set (iy_sent s') \<and> set (iy_got s1) \<subseteq> set (iy_got s')"
    if a: "goes h t J (iy_shm s) (iy_pc s t) w1 pc1" and b: "goes h t J w1 pc1 w' IIdle" for w1 pc1
  proof -
    obtain s1 where 1: "(int_step h)\<^sup>*\<^sup>* s s1" "reach (int_init h) (int_step h) s1" "J s1"
      "iy_shm s1 = w1 \<and> iy_pc s1 t = pc1"
      using leadsD [OF a [unfolded goes_def] assms(2,3)] by blast
    obtain s2 where 2: "(int_step h)\<^sup>*\<^sup>* s1 s2" "J s2" "iy_shm s2 = w' \<and> iy_pc s2 t = IIdle"
      by (rule leadsD [OF b [unfolded goes_def] 1(2-4)])
    have "recorded s1 pc1" using histories.reach_inv [OF 1(2)] 1(4) by metis
    with 2 rtranclp_trans [OF 1(1) 2(1)] histories_grow [OF 2(1)] show ?thesis by blast
  qed
  have one: "\<exists>s'. (int_step h)\<^sup>*\<^sup>* s s' \<and> J s' \<and> iy_shm s' = w' \<and> iy_pc s' t = IIdle"
    if "goes h t J (iy_shm s) (iy_pc s t) w' IIdle"
    using leadsD [OF that [unfolded goes_def] assms(2,3)] by blast
  show ?thesis
  proof (intro conjI impI; elim conjE)
    assume pc: "iy_pc s t = SPos (v, rslot, gen) pos"
      and run: "int_send_loop os fuel k h v rslot gen pos (iy_shm s) = Some (r, oid, w')"
    from int_send_loop_goes [OF assms(1) run] show "\<exists>s'. (int_step h)\<^sup>*\<^sup>* s s' \<and> J s' \<and> iy_shm s' = w' \<and>
        iy_pc s' t = IIdle \<and>
        (r = 1 \<and> oid = Some (REQREP_MAKE_ID rslot gen) \<and> (v, rslot, gen) \<in> set (iy_sent s') \<or>
         r = 0 \<and> oid = None)"
      using two [unfolded pc] one [unfolded pc] by (fastforce dest: subsetD)
  next
    assume pc: "iy_pc s t = RPos pos"
      and run: "int_recv_loop os fuel k h pos (iy_shm s) = Some (r, out, w')"
    from int_recv_loop_goes [OF assms(1) run] show "\<exists>s'. (int_step h)\<^sup>*\<^sup>* s s' \<and> J s' \<and> iy_shm s' = w' \<and>
        iy_pc s' t = IIdle \<and> (r = 1 \<and> (\<exists>p x. (p, x) \<in> set (iy_got s') \<and>
            out = Some \<lparr>io_value = fst x, io_id = REQREP_MAKE_ID (fst (snd x)) (snd (snd x))\<rparr>) \<or>
          r = 0 \<and> out = None)"
      using two [unfolded pc] one [unfolded pc] by (fastforce dest: subsetD)
  qed
qed

theorem int_calls_are_runs_witness:
  "\<exists>h s s'. reach (int_init h) (int_step h) s' \<and> iy_pc s 0 = SPos (5, 0, 1) 0 \<and>
     (int_step h)\<^sup>*\<^sup>* s s' \<and> iy_pc s' 0 = IIdle \<and> (5, 0, 1) \<in> set (iy_sent s')"
proof -
  obtain h w where d: "int_slot h 0 = 0" "h_req_tail (hdr w) = 0"
    "int_slots w = [\<lparr>ri_sequence = 0, ri_value = 0, ri_resp_slot = 0, ri_resp_gen = 0\<rparr>,
       \<lparr>ri_sequence = 1, ri_value = 0, ri_resp_slot = 0, ri_resp_gen = 0\<rparr>]"
    "reach (int_init h) (int_step h) (sys w (\<lambda>_. IIdle) [] [])" using demo_system by metis
  let ?s = "sys w ((\<lambda>_. IIdle)(0 := SPos (5, 0, 1) 0)) [] []"
  have r: "reach (int_init h) (int_step h) ?s"
    by (rule reach_step [OF d(4)])
      (use int_step.send_start [of "sys w (\<lambda>_. IIdle) [] []" 0 h "(5, 0, 1)"] d(2) in simp)
  have e: "steps_env h 0 (\<lambda>_. True) quiet_os" by (rule steps_env_quiet) (simp_all add: stays_def)
  obtain w' where run: "int_send_loop quiet_os (Suc 0) 0 h 5 0 1 0 (iy_shm ?s) =
      Some (1, Some (REQREP_MAKE_ID 0 1), w')"
    using d by (simp add: int_send_loop.simps Let_def upd_int_def)
  from int_calls_are_runs [OF e r TrueI] run obtain s' where s': "(int_step h)\<^sup>*\<^sup>* ?s s'"
    "iy_pc s' 0 = IIdle" "(5, 0, 1) \<in> set (iy_sent s')"
    by fastforce
  then show ?thesis using reach_steps [OF r s'(1)] by (intro exI [of _ h] exI [of _ ?s] exI [of _ s']) simp
qed

section \<open>Calls on the mutex\<close>

text \<open>The state of the lock system shows the mutex word of the mapping, and thread \<open>t\<close>, which runs
  the call, is alive.\<close>

definition lock_at :: "(nat \<Rightarrow> u32) \<Rightarrow> nat \<Rightarrow> shm \<Rightarrow> lock_pc \<Rightarrow> lock_sys \<Rightarrow> bool" where
  "lock_at pid_of t w pc s \<longleftrightarrow>
     ls_mutex s = h_mutex (hdr w) \<and> ls_pc s t = pc \<and> pid_of t \<notin> ls_dead s"

definition lock_goes ::
  "(nat \<Rightarrow> u32) \<Rightarrow> nat \<Rightarrow> (lock_sys \<Rightarrow> bool) \<Rightarrow> shm \<Rightarrow> lock_pc \<Rightarrow> shm \<Rightarrow> lock_pc \<Rightarrow> bool" where
  "lock_goes pid_of t J w pc w' pc' \<longleftrightarrow>
     leads lock_init (lock_step pid_of) J (lock_at pid_of t w pc) (lock_at pid_of t w' pc')"

text \<open>As for the ring, \<open>J\<close> says where the other threads are. Thread \<open>t\<close> keeps it with its own steps,
  it allows for the death of every process whose existence the kernel denies, which is never the
  caller, and before each access the others can go, keeping it, to a state that shows the
  interference.\<close>

definition lock_stays :: "(nat \<Rightarrow> u32) \<Rightarrow> nat \<Rightarrow> (lock_sys \<Rightarrow> bool) \<Rightarrow> bool" where
  "lock_stays pid_of t J \<longleftrightarrow> (\<forall>s s'. reach lock_init (lock_step pid_of) s \<longrightarrow> J s \<longrightarrow> lock_step pid_of s s' \<longrightarrow>
     ls_dead s' = ls_dead s \<longrightarrow> (\<forall>u. u \<noteq> t \<longrightarrow> ls_pc s' u = ls_pc s u) \<longrightarrow> J s')"

definition lock_env :: "(nat \<Rightarrow> u32) \<Rightarrow> nat \<Rightarrow> (lock_sys \<Rightarrow> bool) \<Rightarrow> os \<Rightarrow> bool" where
  "lock_env pid_of t J os \<longleftrightarrow> os_pid os = pid_of t \<and> lock_stays pid_of t J \<and>
     (\<forall>p pid. os_kill os p pid = Some ESRCH \<longrightarrow> pid \<noteq> pid_of t \<and>
        (\<forall>s. J s \<longrightarrow> J (s\<lparr>ls_dead := insert pid (ls_dead s)\<rparr>))) \<and>
     (\<forall>p w pc. lock_goes pid_of t J w pc (os_run os p w) pc)"

lemma lock_env_sub [intro]: "lock_env pid_of t J os \<Longrightarrow> lock_env pid_of t J (sub os k)"
  by (simp add: lock_env_def)

lemma lock_env_stays: "lock_env pid_of t J os \<Longrightarrow> lock_stays pid_of t J"
  by (simp add: lock_env_def)

lemma lock_goes_trans [trans]:
  "lock_goes pid_of t J w pc w1 pc1 \<Longrightarrow> lock_goes pid_of t J w1 pc1 w' pc' \<Longrightarrow> lock_goes pid_of t J w pc w' pc'"
  unfolding lock_goes_def by (rule leads_trans)

lemma lock_goes_env: "lock_env pid_of t J os \<Longrightarrow> lock_goes pid_of t J w pc (os_run os p w) pc"
  by (simp add: lock_env_def)

lemma lock_goes_same: "h_mutex (hdr w') = h_mutex (hdr w) \<Longrightarrow> lock_goes pid_of t J w pc w' pc"
  unfolding lock_goes_def by (rule leads_refl) (simp add: lock_at_def)

lemma lock_goes_step:
  assumes "lock_stays pid_of t J"
    and "\<And>s. lock_at pid_of t w pc s \<Longrightarrow> \<exists>s'. lock_step pid_of s s' \<and> lock_at pid_of t w' pc' s' \<and>
      ls_dead s' = ls_dead s \<and> (\<forall>u. u \<noteq> t \<longrightarrow> ls_pc s' u = ls_pc s u)"
  shows "lock_goes pid_of t J w pc w' pc'"
  unfolding lock_goes_def by (rule leads_step) (use assms in \<open>unfold lock_stays_def, blast\<close>)

lemma lock_goes_acquire:
  "lock_stays pid_of t J \<Longrightarrow> h_mutex (hdr w) = 0 \<Longrightarrow> lock_goes pid_of t J w PTry
     (hdr_update (\<lambda>h. h\<lparr>h_mutex := REQREP_MUTEX_VAL (pid_of t)\<rparr>) w) PCrit"
  by (erule lock_goes_step) (use lock_step.acquire in \<open>fastforce simp: lock_at_def\<close>)

lemma lock_goes_timeout: "lock_stays pid_of t J \<Longrightarrow> lock_goes pid_of t J w PTry w (PVal (h_mutex (hdr w)))"
  by (erule lock_goes_step) (use lock_step.timeout in \<open>fastforce simp: lock_at_def\<close>)

lemma lock_goes_retry: "lock_stays pid_of t J \<Longrightarrow> lock_goes pid_of t J w (PVal v) w PTry"
  by (erule lock_goes_step) (use lock_step.retry in \<open>fastforce simp: lock_at_def\<close>)

lemma lock_goes_unlock: "lock_stays pid_of t J \<Longrightarrow> lock_goes pid_of t J w PCrit (hdr_update (\<lambda>h. h\<lparr>h_mutex := 0\<rparr>) w) PIdle"
  by (erule lock_goes_step) (use lock_step.unlock in \<open>fastforce simp: lock_at_def\<close>)

lemma lock_goes_found_dead:
  assumes st: "lock_stays pid_of t J" and "v \<ge> REQREP_MUTEX_WRITER_BIT" "v AND REQREP_MUTEX_PID_MASK \<noteq> pid_of t"
    and "\<And>s. J s \<Longrightarrow> J (s\<lparr>ls_dead := insert (v AND REQREP_MUTEX_PID_MASK) (ls_dead s)\<rparr>)"
  shows "lock_goes pid_of t J w (PVal v) w (PDead_holder v)"
proof -
  let ?P = "\<lambda>s. lock_at pid_of t w (PVal v) s \<and> v AND REQREP_MUTEX_PID_MASK \<in> ls_dead s"
  have "leads lock_init (lock_step pid_of) J (lock_at pid_of t w (PVal v)) ?P"
    by (rule leads_step) (use lock_step.die [of pid_of _ "v AND REQREP_MUTEX_PID_MASK"] assms(3,4)
      in \<open>fastforce simp: lock_at_def\<close>)
  moreover have "leads lock_init (lock_step pid_of) J ?P (lock_at pid_of t w (PDead_holder v))"
  proof (rule leads_step)
    fix s assume s: "reach lock_init (lock_step pid_of) s" "J s" "?P s"
    let ?s = "s\<lparr>ls_pc := (ls_pc s)(t := PDead_holder v)\<rparr>"
    have "lock_step pid_of s ?s" by (rule lock_step.found_dead) (use s(3) assms(2) in \<open>auto simp: lock_at_def\<close>)
    moreover from this have "J ?s" using st s(1,2) unfolding lock_stays_def by simp
    ultimately show "\<exists>s'. lock_step pid_of s s' \<and> J s' \<and> lock_at pid_of t w (PDead_holder v) s'"
      using s(3) by (intro exI [of _ ?s]) (simp add: lock_at_def)
  qed
  ultimately show ?thesis unfolding lock_goes_def by (rule leads_trans)
qed

lemma lock_goes_recover:
  "lock_stays pid_of t J \<Longrightarrow> lock_goes pid_of t J w (PDead_holder v)
     (if h_mutex (hdr w) = v then hdr_update (\<lambda>h. h\<lparr>h_mutex := 0\<rparr>) w else w) PTry"
  by (erule lock_goes_step) (use lock_step.recover in \<open>fastforce simp: lock_at_def\<close>)

lemma recover_stale_goes:
  assumes e: "lock_env pid_of t J os"
  shows "lock_goes pid_of t J w (PDead_holder v) (reqrep_recover_stale_mutex os v w) PTry"
proof -
  note st = lock_env_stays [OF e]
  let ?w0 = "others os 0 w"
  let ?w1 = "if h_mutex (hdr ?w0) = v then hdr_update (\<lambda>h. h\<lparr>h_mutex := 0\<rparr>) ?w0 else ?w0"
  have "lock_goes pid_of t J w (PDead_holder v) ?w0 (PDead_holder v)" by (rule lock_goes_env [OF e])
  also have "lock_goes pid_of t J ?w0 (PDead_holder v) ?w1 PTry" by (rule lock_goes_recover [OF st])
  also have "lock_goes pid_of t J ?w1 PTry (reqrep_recover_stale_mutex os v w) PTry"
  proof (cases "h_mutex (hdr ?w0) = v")
    case True
    let ?w2 = "others os 1 ?w1"
    let ?w3 = "hdr_update (\<lambda>h. h\<lparr>h_stat_recoveries := h_stat_recoveries h + 1\<rparr>) ?w2"
    have "lock_goes pid_of t J ?w1 PTry ?w2 PTry" by (rule lock_goes_env [OF e])
    also have "lock_goes pid_of t J ?w2 PTry ?w3 PTry" by (rule lock_goes_same) simp
    also have "lock_goes pid_of t J ?w3 PTry (others os 2 ?w3) PTry" by (rule lock_goes_env [OF e])
    also have "lock_goes pid_of t J (others os 2 ?w3) PTry (reqrep_recover_stale_mutex os v w) PTry"
      using True by (intro lock_goes_same) (simp add: reqrep_recover_stale_mutex_def Let_def)
    finally show ?thesis .
  next
    case False
    then show ?thesis by (intro lock_goes_same) (simp add: reqrep_recover_stale_mutex_def Let_def)
  qed
  finally show ?thesis .
qed

lemma not_alive_dead:
  assumes "lock_env pid_of t J os" "\<not> reqrep_pid_alive os pid"
  shows "pid \<noteq> pid_of t" "J s \<Longrightarrow> J (s\<lparr>ls_dead := insert pid (ls_dead s)\<rparr>)"
  using assms unfolding lock_env_def reqrep_pid_alive_def by (auto split: if_splits)

lemma lock_loop_goes:
  assumes e: "lock_env pid_of t J os"
    and "lock_loop os fuel k spin w = Some w'"
  shows "lock_goes pid_of t J w PTry w' PCrit"
  using assms(2)
proof (induction fuel arbitrary: k spin w)
  case (Suc fuel)
  note st = lock_env_stays [OF e]
  define o' where "o' = sub os k"
  have o: "lock_env pid_of t J o'" "lock_env pid_of t J (sub o' 7)" "lock_env pid_of t J (sub o' 6)" using e by (auto simp: o'_def)
  define w0 where "w0 = others o' 0 w"
  define w2 where "w2 = others o' 2
    (hdr_update (\<lambda>h. h\<lparr>h_mutex_waiters := h_mutex_waiters h + 1\<rparr>) (others o' 1 w0))"
  define cur where "cur = h_mutex (hdr w2)"
  define w3 where "w3 = (if cur \<noteq> 0 then others o' 3 w2 else w2)"
  define rc where "rc = (if cur \<noteq> 0 then futex_wait o' (h_mutex (hdr w3)) cur else None)"
  define w4 where "w4 = hdr_update (\<lambda>h. h\<lparr>h_mutex_waiters := h_mutex_waiters h - 1\<rparr>) (others o' 4 w3)"
  define w5 where "w5 = others o' 5 w4"
  define val where "val = h_mutex (hdr w5)"
  define dead where "dead \<longleftrightarrow> val \<ge> REQREP_MUTEX_WRITER_BIT \<and>
    \<not> reqrep_pid_alive (sub o' 6) (val AND REQREP_MUTEX_PID_MASK)"
  define w6 where "w6 = (if dead then reqrep_recover_stale_mutex (sub o' 7) val w5 else w5)"
  note unf = Suc.prems [unfolded lock_loop.simps Let_def, folded o'_def, folded w0_def, folded w2_def,
    folded cur_def, folded w3_def, folded rc_def w4_def, folded w5_def, folded val_def, folded dead_def,
    folded w6_def]
  have start: "lock_goes pid_of t J w PTry w0 PTry" unfolding w0_def by (rule lock_goes_env [OF o(1)])
  have again: ?case if "lock_goes pid_of t J w0 PTry w1 PTry" "lock_loop os fuel k' sp w1 = Some w'" for w1 k' sp
    using lock_goes_trans [OF start lock_goes_trans [OF that(1) Suc.IH [OF that(2)]]] .
  have waited: "lock_goes pid_of t J w0 PTry w4 PTry"
  proof -
    let ?up = "hdr_update (\<lambda>h. h\<lparr>h_mutex_waiters := h_mutex_waiters h + 1\<rparr>) (others o' 1 w0)"
    have "lock_goes pid_of t J w0 PTry (others o' 1 w0) PTry" by (rule lock_goes_env [OF o(1)])
    also have "lock_goes pid_of t J (others o' 1 w0) PTry ?up PTry" by (rule lock_goes_same) simp
    also have "lock_goes pid_of t J ?up PTry w2 PTry" unfolding w2_def by (rule lock_goes_env [OF o(1)])
    also have "lock_goes pid_of t J w2 PTry w3 PTry"
      unfolding w3_def using lock_goes_env [OF o(1)] lock_goes_same by simp
    also have "lock_goes pid_of t J w3 PTry (others o' 4 w3) PTry" by (rule lock_goes_env [OF o(1)])
    also have "lock_goes pid_of t J (others o' 4 w3) PTry w4 PTry" unfolding w4_def by (rule lock_goes_same) simp
    finally show ?thesis .
  qed
  have "lock_goes pid_of t J w0 PTry w6 PTry"
  proof -
    have "lock_goes pid_of t J w4 PTry w5 PTry" unfolding w5_def by (rule lock_goes_env [OF o(1)])
    also have "lock_goes pid_of t J w5 PTry w5 (PVal val)" unfolding val_def by (rule lock_goes_timeout [OF st])
    also have "lock_goes pid_of t J w5 (PVal val) w6 PTry"
    proof (cases dead)
      case True
      then have "lock_goes pid_of t J w5 (PVal val) w5 (PDead_holder val)"
        using not_alive_dead [OF o(3)] unfolding dead_def by (intro lock_goes_found_dead [OF st]) blast+
      also have "lock_goes pid_of t J w5 (PDead_holder val) w6 PTry"
        using recover_stale_goes [OF o(2)] True by (simp add: w6_def)
      finally show ?thesis .
    next
      case False
      then show ?thesis using lock_goes_retry [OF st] by (simp add: w6_def)
    qed
    finally show ?thesis using waited lock_goes_trans by blast
  qed
  note recovered = this
  show ?case
  proof (cases "h_mutex (hdr w0) = 0 \<and> \<not> os_spurious o' []")
    case True
    have "os_pid os = pid_of t" using e by (simp add: lock_env_def)
    then have "lock_goes pid_of t J w0 PTry w' PCrit" using unf True lock_goes_acquire [OF st, of w0] by simp
    then show ?thesis using lock_goes_trans [OF start] by blast
  next
    case False
    show ?thesis
    proof (cases "spin < REQREP_SPIN_LIMIT")
      case True
      have "lock_loop os fuel (Suc k) (Suc spin) w0 = Some w'" using unf False True by (simp split: if_splits)
      then show ?thesis by (rule again [rotated]) (rule lock_goes_same [OF refl])
    next
      case spun: False
      show ?thesis
      proof (cases "rc = Some ETIMEDOUT")
        case True
        have "lock_loop os fuel (Suc k) 1 w6 = Some w'" using unf False spun True by (simp split: if_splits)
        then show ?thesis by (rule again [rotated]) (rule recovered)
      next
        case other: False
        have "lock_loop os fuel (Suc k) 1 w4 = Some w'" using unf False spun other by (simp split: if_splits)
        then show ?thesis by (rule again [rotated]) (rule waited)
      qed
    qed
  qed
qed simp

lemma unlock_goes:
  assumes e: "lock_env pid_of t J os"
  shows "lock_goes pid_of t J w PCrit (reqrep_mutex_unlock os w) PIdle"
proof -
  note st = lock_env_stays [OF e]
  let ?w1 = "hdr_update (\<lambda>h. h\<lparr>h_mutex := 0\<rparr>) (others os 0 w)"
  have "lock_goes pid_of t J w PCrit (others os 0 w) PCrit" by (rule lock_goes_env [OF e])
  also have "lock_goes pid_of t J (others os 0 w) PCrit ?w1 PIdle" by (rule lock_goes_unlock [OF st])
  also have "lock_goes pid_of t J ?w1 PIdle (others os 1 ?w1) PIdle" by (rule lock_goes_env [OF e])
  also have "lock_goes pid_of t J (others os 1 ?w1) PIdle (reqrep_mutex_unlock os w) PIdle"
    by (rule lock_goes_same) (simp add: reqrep_mutex_unlock_def Let_def)
  finally show ?thesis .
qed

text \<open>
  Property C4. The function \<^verbatim>\<open>reqrep_mutex_lock\<close> gives what its callers rely on. Whatever the other
  threads do between its accesses, whether it spins, waits, or recovers the mutex of a dead
  holder, when it returns the system can be in a state with the mapping it leaves in which the
  caller is inside, its pid is in the mutex word, and no other live thread is inside. The
  following \<^verbatim>\<open>reqrep_mutex_unlock\<close> takes the caller out again.
\<close>

theorem lock_call_excludes:
  assumes "lock_pids pid_of" and "lock_env pid_of t J os"
    and "reach lock_init (lock_step pid_of) s" and "J s" and "lock_at pid_of t w PTry s"
    and "reqrep_mutex_lock os w = Some w'"
  shows "\<exists>s'. (lock_step pid_of)\<^sup>*\<^sup>* s s' \<and> J s' \<and> lock_at pid_of t w' PCrit s' \<and>
     h_mutex (hdr w') = REQREP_MUTEX_VAL (pid_of t) \<and>
     (\<forall>t'. ls_pc s' t' = PCrit \<and> pid_of t' \<notin> ls_dead s' \<longrightarrow> t' = t) \<and>
     (\<exists>s''. (lock_step pid_of)\<^sup>*\<^sup>* s' s'' \<and> J s'' \<and> lock_at pid_of t (reqrep_mutex_unlock os w') PIdle s'')"
proof -
  have lk: "lock_goes pid_of t J w PTry w' PCrit"
    using assms(6) unfolding reqrep_mutex_lock_def by (rule lock_loop_goes [OF assms(2)])
  obtain s' where s': "(lock_step pid_of)\<^sup>*\<^sup>* s s'" "reach lock_init (lock_step pid_of) s'" "J s'"
    "lock_at pid_of t w' PCrit s'"
    by (rule leadsD [OF lk [unfolded lock_goes_def] assms(3-5)])
  obtain s'' where s'': "(lock_step pid_of)\<^sup>*\<^sup>* s' s''" "J s''"
    "lock_at pid_of t (reqrep_mutex_unlock os w') PIdle s''"
    by (rule leadsD [OF unlock_goes [OF assms(2), unfolded lock_goes_def] s'(2-4)])
  have "lock_inv pid_of s'" using mutex.reach_inv [OF s'(2)] assms(1) by blast
  with s' s'' show ?thesis unfolding lock_inv_def lock_at_def by (intro exI [of _ s']) auto
qed

text \<open>Thread 0 (process 7) calls \<^verbatim>\<open>reqrep_mutex_lock\<close> while thread 1 (process 8) is inside; thread 1
  leaves before the third look at the word.\<close>

definition leaving :: os where
  "leaving = quiet_os\<lparr>os_fuel := \<lambda>_. 5, os_run := \<lambda>p w.
     if p = [2, 0] \<and> h_mutex (hdr w) = REQREP_MUTEX_VAL 8 then hdr_update (\<lambda>h. h\<lparr>h_mutex := 0\<rparr>) w else w\<rparr>"

lemma leaving_env:
  "lock_env (\<lambda>t. if t = 0 then 7 else 8) 0
     (\<lambda>s. ls_mutex s = REQREP_MUTEX_VAL 8 \<longrightarrow> ls_pc s 1 = PCrit \<and> 8 \<notin> ls_dead s) leaving"
proof -
  let ?p = "\<lambda>t :: nat. if t = 0 then 7 else 8 :: u32"
  let ?J = "\<lambda>s. ls_mutex s = REQREP_MUTEX_VAL 8 \<longrightarrow> ls_pc s 1 = PCrit \<and> 8 \<notin> ls_dead s"
  have ne: "REQREP_MUTEX_VAL 7 \<noteq> REQREP_MUTEX_VAL 8" by (simp add: REQREP_MUTEX_VAL_def reqrep_consts)
  have st: "lock_stays ?p 0 ?J"
    unfolding lock_stays_def
  proof (intro allI impI)
    fix s s' assume a: "lock_step ?p s s'" "?J s" "ls_dead s' = ls_dead s"
      "\<forall>u. u \<noteq> 0 \<longrightarrow> ls_pc s' u = ls_pc s u" "ls_mutex s' = REQREP_MUTEX_VAL 8"
    from a(1) have "ls_mutex s = REQREP_MUTEX_VAL 8"
      by cases (use a(4,5) ne in \<open>auto split: if_splits\<close>)
    with a show "ls_pc s' 1 = PCrit \<and> 8 \<notin> ls_dead s'" by simp
  qed
  have leave: "lock_goes ?p 0 ?J w pc (hdr_update (\<lambda>h. h\<lparr>h_mutex := 0\<rparr>) w) pc"
    if m: "h_mutex (hdr w) = REQREP_MUTEX_VAL 8" for w pc
    unfolding lock_goes_def
  proof (rule leads_step)
    fix s assume "?J s" "lock_at ?p 0 w pc s"
    with m show "\<exists>s'. lock_step ?p s s' \<and> ?J s' \<and> lock_at ?p 0 (hdr_update (\<lambda>h. h\<lparr>h_mutex := 0\<rparr>) w) pc s'"
      using lock_step.unlock [of ?p 1 s] by (auto simp: lock_at_def)
  qed
  show ?thesis
    unfolding lock_env_def
    using st leave lock_goes_same [OF refl] by (auto simp: leaving_def quiet_os_def)
qed

theorem lock_call_excludes_witness:
  "\<exists>w w' s s'. h_mutex (hdr w) = REQREP_MUTEX_VAL 8 \<and> ls_pc s 1 = PCrit \<and>
     reqrep_mutex_lock leaving w = Some w' \<and>
     (lock_step (\<lambda>t. if t = 0 then 7 else 8))\<^sup>*\<^sup>* s s' \<and> ls_pc s' 0 = PCrit \<and>
     h_mutex (hdr w') = REQREP_MUTEX_VAL 7"
proof -
  let ?p = "\<lambda>t :: nat. if t = 0 then 7 else 8 :: u32"
  let ?R = "reach lock_init (lock_step ?p)"
  let ?st = "\<lambda>m a b. \<lparr>ls_mutex = m, ls_dead = {}, ls_pc = (\<lambda>_. PIdle)(0 := a, Suc 0 := b)\<rparr>"
  obtain h w0 where "slots_ok h w0" using demo_slots by metis
  define w where "w = hdr_update (\<lambda>h. h\<lparr>h_mutex := REQREP_MUTEX_VAL 8\<rparr>) w0"
  have "?R (?st 0 PIdle PIdle)" by (rule reach_init) (simp add: lock_init_def)
  then have "?R (?st 0 PIdle PTry)"
    by (rule reach_step) (use lock_step.enter [of ?p 1 "?st 0 PIdle PIdle"] in simp)
  then have "?R (?st (REQREP_MUTEX_VAL 8) PIdle PCrit)"
    by (rule reach_step) (use lock_step.acquire [of ?p 1 "?st 0 PIdle PTry"] in simp)
  then have r: "?R (?st (REQREP_MUTEX_VAL 8) PTry PCrit)"
    by (rule reach_step) (use lock_step.enter [of ?p 0 "?st (REQREP_MUTEX_VAL 8) PIdle PCrit"]
      in \<open>simp add: fun_upd_twist\<close>)
  have ne: "REQREP_MUTEX_VAL 8 \<noteq> 0" by simp
  obtain w' where l: "reqrep_mutex_lock leaving w = Some w'"
    using ne by (simp add: reqrep_mutex_lock_def leaving_def quiet_os_def w_def Let_def eval_nat_numeral reqrep_consts)
  have p: "lock_pids ?p" by (simp add: lock_pids_def)
  let ?s = "?st (REQREP_MUTEX_VAL 8) PTry PCrit"
  have a: "lock_at ?p 0 w PTry ?s" by (simp add: lock_at_def w_def)
  from lock_call_excludes [OF p leaving_env r _ a l] obtain s' where "(lock_step ?p)\<^sup>*\<^sup>* ?s s'"
    "lock_at ?p 0 w' PCrit s'" "h_mutex (hdr w') = REQREP_MUTEX_VAL 7" by auto
  then show ?thesis
    using l by (intro exI [of _ w] exI [of _ w'] exI [of _ ?s] exI [of _ s']) (simp add: w_def lock_at_def)
qed

end
