(* ===== verification/RR_Event.thy ===== *)
theory RR_Event
  imports RR_Lifecycle "HOL-Library.Multiset"
begin

text \<open>
  Event-loop integration and \<^verbatim>\<open>msync\<close> (\<^verbatim>\<open>gen/reqrep.h\<close>, lines 1143 to 1205). These functions touch
  the handle and the kernel, never the mapping: each returns the new handle and the log of its
  system calls, and takes the kernel's answer (a descriptor, a return code) as an argument.
\<close>

section \<open>The functions\<close>

definition reqrep_sync :: "int \<Rightarrow> ReqRepHandle \<Rightarrow> int \<times> sysev list" where
  "reqrep_sync rc h = (rc, [Msync (hn_mmap_size h)])"

definition opened :: "int \<Rightarrow> sysev list" where
  "opened fd = (if fd \<ge> 0 then [EventfdCreate fd] else [])"

definition reqrep_eventfd_create :: "int \<Rightarrow> ReqRepHandle \<Rightarrow> int \<times> ReqRepHandle \<times> sysev list" where
  "reqrep_eventfd_create fd h =
     (if hn_notify_fd h \<ge> 0 then (hn_notify_fd h, h, [])
      else let h' = h\<lparr>hn_notify_fd := fd\<rparr> in (hn_notify_fd h', h', opened fd))"

definition reqrep_eventfd_set :: "ReqRepHandle \<Rightarrow> int \<Rightarrow> ReqRepHandle \<times> sysev list" where
  "reqrep_eventfd_set h fd =
     (h\<lparr>hn_notify_fd := fd\<rparr>,
      if hn_notify_fd h \<ge> 0 \<and> hn_notify_fd h \<noteq> fd then [CloseF (hn_notify_fd h)] else [])"

definition reqrep_notify :: "ReqRepHandle \<Rightarrow> sysev list" where
  "reqrep_notify h = (if hn_notify_fd h \<ge> 0 then [WriteFd (hn_notify_fd h) 1] else [])"

definition reqrep_eventfd_consume :: "ReqRepHandle \<Rightarrow> sysev list" where
  "reqrep_eventfd_consume h = (if hn_notify_fd h \<ge> 0 then [ReadFd (hn_notify_fd h)] else [])"

definition reqrep_reply_eventfd_create :: "int \<Rightarrow> ReqRepHandle \<Rightarrow> int \<times> ReqRepHandle \<times> sysev list" where
  "reqrep_reply_eventfd_create fd h =
     (if hn_reply_fd h \<ge> 0 then (hn_reply_fd h, h, [])
      else let h' = h\<lparr>hn_reply_fd := fd\<rparr> in (hn_reply_fd h', h', opened fd))"

definition reqrep_reply_eventfd_set :: "ReqRepHandle \<Rightarrow> int \<Rightarrow> ReqRepHandle \<times> sysev list" where
  "reqrep_reply_eventfd_set h fd =
     (h\<lparr>hn_reply_fd := fd\<rparr>,
      if hn_reply_fd h \<ge> 0 \<and> hn_reply_fd h \<noteq> fd then [CloseF (hn_reply_fd h)] else [])"

definition reqrep_reply_notify :: "ReqRepHandle \<Rightarrow> sysev list" where
  "reqrep_reply_notify h = (if hn_reply_fd h \<ge> 0 then [WriteFd (hn_reply_fd h) 1] else [])"

definition reqrep_reply_eventfd_consume :: "ReqRepHandle \<Rightarrow> sysev list" where
  "reqrep_reply_eventfd_consume h = (if hn_reply_fd h \<ge> 0 then [ReadFd (hn_reply_fd h)] else [])"

section \<open>Sequences of calls\<close>

text \<open>A call with the kernel's answer; \<open>Set\<close> calls are made with a descriptor the caller opened
  and hands over.\<close>

datatype ev_op =
    Create int | Set int | Notify | Consume
  | Reply_create int | Reply_set int | Reply_notify | Reply_consume | Sync int

fun ev_step :: "ev_op \<Rightarrow> ReqRepHandle \<Rightarrow> ReqRepHandle \<times> sysev list" where
  "ev_step (Create fd) h = snd (reqrep_eventfd_create fd h)"
| "ev_step (Set fd) h = reqrep_eventfd_set h fd"
| "ev_step Notify h = (h, reqrep_notify h)"
| "ev_step Consume h = (h, reqrep_eventfd_consume h)"
| "ev_step (Reply_create fd) h = snd (reqrep_reply_eventfd_create fd h)"
| "ev_step (Reply_set fd) h = reqrep_reply_eventfd_set h fd"
| "ev_step Reply_notify h = (h, reqrep_reply_notify h)"
| "ev_step Reply_consume h = (h, reqrep_reply_eventfd_consume h)"
| "ev_step (Sync rc) h = (h, snd (reqrep_sync rc h))"

text \<open>The descriptors a call hands over: one the handle does not have in that place already.\<close>

fun handed :: "ev_op \<Rightarrow> ReqRepHandle \<Rightarrow> int list" where
  "handed (Set fd) h = (if fd \<ge> 0 \<and> hn_notify_fd h \<noteq> fd then [fd] else [])"
| "handed (Reply_set fd) h = (if fd \<ge> 0 \<and> hn_reply_fd h \<noteq> fd then [fd] else [])"
| "handed _ h = []"

text \<open>Running a sequence of calls against the set of descriptors held: handing over a descriptor
  that is held already adds nothing to the set. The result is \<^term>\<open>None\<close> when a call
  closes, reads or writes a descriptor that is not held.\<close>

fun ev_run :: "ev_op list \<Rightarrow> ReqRepHandle \<Rightarrow> held \<Rightarrow> (ReqRepHandle \<times> held) option" where
  "ev_run [] h s = Some (h, s)"
| "ev_run (op # ops) h s = (case ev_step op h of (h', evs) \<Rightarrow>
     (case hold_all evs (s\<lparr>fds := List.union (handed op h) (fds s)\<rparr>) of None \<Rightarrow> None
      | Some s' \<Rightarrow> ev_run ops h' s'))"

text \<open>What the caller has to keep to: a descriptor handed over for one place of the handle is not
  one the handle has in another. A descriptor the kernel returns is fresh by itself.\<close>

fun fresh_op :: "ev_op \<Rightarrow> ReqRepHandle \<Rightarrow> bool" where
  "fresh_op (Create fd) h \<longleftrightarrow>
     hn_notify_fd h < 0 \<and> 0 \<le> fd \<longrightarrow> fd \<noteq> hn_reply_fd h \<and> fd \<noteq> hn_backing_fd h"
| "fresh_op (Set fd) h \<longleftrightarrow> (0 \<le> fd \<longrightarrow> fd \<noteq> hn_reply_fd h \<and> fd \<noteq> hn_backing_fd h)"
| "fresh_op (Reply_create fd) h \<longleftrightarrow>
     hn_reply_fd h < 0 \<and> 0 \<le> fd \<longrightarrow> fd \<noteq> hn_notify_fd h \<and> fd \<noteq> hn_backing_fd h"
| "fresh_op (Reply_set fd) h \<longleftrightarrow> (0 \<le> fd \<longrightarrow> fd \<noteq> hn_notify_fd h \<and> fd \<noteq> hn_backing_fd h)"
| "fresh_op _ h \<longleftrightarrow> True"

fun fresh_run :: "ev_op list \<Rightarrow> ReqRepHandle \<Rightarrow> bool" where
  "fresh_run [] h \<longleftrightarrow> True"
| "fresh_run (op # ops) h \<longleftrightarrow> fresh_op op h \<and> fresh_run ops (fst (ev_step op h))"

lemmas event_defs = reqrep_eventfd_create_def reqrep_eventfd_set_def reqrep_notify_def
  reqrep_eventfd_consume_def reqrep_reply_eventfd_create_def reqrep_reply_eventfd_set_def
  reqrep_reply_notify_def reqrep_reply_eventfd_consume_def reqrep_sync_def opened_def Let_def

text \<open>What a handle holds: its descriptors, which differ, and its mapping.\<close>

definition place :: "int \<Rightarrow> int multiset" where
  "place fd = (if fd \<ge> 0 then {#fd#} else {#})"

definition holds :: "ReqRepHandle \<Rightarrow> held \<Rightarrow> bool" where
  "holds h s \<longleftrightarrow> distinct (fds s) \<and>
     mset (fds s) = place (hn_notify_fd h) + place (hn_reply_fd h) + place (hn_backing_fd h) \<and>
     maps s = [hn_mmap_size h] \<and> locks s = []"

lemma in_fds: "mset (fds s) = add_mset fd M \<Longrightarrow> fd \<in> set (fds s)"
  by (metis set_mset_mset union_single_eq_member add_mset_add_single union_commute)

lemma set_fds: "mset (fds s) = M \<Longrightarrow> set (fds s) = set_mset M"
  by (metis set_mset_mset)

lemma place_neg [simp]: "fd < 0 \<Longrightarrow> place fd = {#}"
  and place_nonneg [simp]: "0 \<le> fd \<Longrightarrow> place fd = {#fd#}"
  by (simp_all add: place_def)

lemma in_place [simp]: "x \<in># place fd \<longleftrightarrow> 0 \<le> fd \<and> x = fd"
  by (simp add: place_def)

lemma hold_close:
  assumes "mset (fds s) = add_mset fd M" "distinct (fds s)"
  obtains s' where "hold (CloseF fd) s = Some s'" "mset (fds s') = M" "distinct (fds s')"
    "maps s' = maps s" "locks s' = locks s"
  using in_fds [OF assms(1)] assms by simp

text \<open>Acquiring a descriptor for an empty place.\<close>

lemma take_place:
  assumes "mset (fds s) = M" "distinct (fds s)" "0 \<le> fd" "fd \<notin># M"
  shows "mset (List.insert fd (fds s)) = place fd + M" "distinct (List.insert fd (fds s))"
  using assms set_fds [OF assms(1)] by simp_all

text \<open>Replacing the descriptor in a place: the old one, if any, is closed.\<close>

lemma replace_place:
  assumes "mset (fds s) = place old + M" "distinct (fds s)" "0 \<le> fd \<longrightarrow> fd \<notin># M"
  shows "\<exists>s'. hold_all (if old \<ge> 0 \<and> old \<noteq> fd then [CloseF old] else [])
       (s\<lparr>fds := List.union (if fd \<ge> 0 \<and> old \<noteq> fd then [fd] else []) (fds s)\<rparr>) = Some s' \<and>
     mset (fds s') = place fd + M \<and> distinct (fds s') \<and> maps s' = maps s \<and> locks s' = locks s"
proof -
  let ?s = "s\<lparr>fds := List.union (if fd \<ge> 0 \<and> old \<noteq> fd then [fd] else []) (fds s)\<rparr>"
  have new: "distinct (fds ?s)" "old \<noteq> fd \<Longrightarrow> mset (fds ?s) = place fd + place old + M"
    using assms set_fds [OF assms(1)] by (auto simp: List.union_def place_def)
  show ?thesis
  proof (cases "old \<ge> 0 \<and> old \<noteq> fd")
    case True
    then have "mset (fds ?s) = add_mset old (place fd + M)" using new(2) by simp
    then obtain s' where "hold (CloseF old) ?s = Some s'" "mset (fds s') = place fd + M"
      "distinct (fds s')" "maps s' = maps ?s" "locks s' = locks ?s" using new(1) by (rule hold_close)
    with True show ?thesis by (auto simp del: hold.simps)
  next
    case False
    then show ?thesis using new assms(1,2) by (cases "old = fd") (auto simp: List.union_def)
  qed
qed

lemma use_place:
  assumes "mset (fds s) = place fd + M"
  shows "hold_all (if fd \<ge> 0 then [WriteFd fd v] else []) s = Some s"
    "hold_all (if fd \<ge> 0 then [ReadFd fd] else []) s = Some s"
  using in_fds [of s fd M] assms by auto

lemma ev_step_holds:
  assumes "holds h s" and "ev_step op h = (h', evs)" and "fresh_op op h"
  shows "\<exists>s'. hold_all evs (s\<lparr>fds := List.union (handed op h) (fds s)\<rparr>) = Some s' \<and> holds h' s'"
proof -
  let ?N = "place (hn_reply_fd h) + place (hn_backing_fd h)"
  let ?R = "place (hn_notify_fd h) + place (hn_backing_fd h)"
  have m: "mset (fds s) = place (hn_notify_fd h) + ?N" "mset (fds s) = place (hn_reply_fd h) + ?R"
    and d: "distinct (fds s)" and r: "maps s = [hn_mmap_size h]" "locks s = []"
    using assms(1) by (simp_all add: holds_def ac_simps)
  show ?thesis
  proof (cases op)
    case (Set fd)
    then have "0 \<le> fd \<longrightarrow> fd \<notin># ?N" using assms(3) by auto
    from replace_place [OF m(1) d this] obtain s' where
      "hold_all evs (s\<lparr>fds := List.union (handed op h) (fds s)\<rparr>) = Some s'"
      "mset (fds s') = place fd + ?N" "distinct (fds s')" "maps s' = maps s" "locks s' = locks s"
      using assms(2) unfolding Set by (auto simp: reqrep_eventfd_set_def)
    moreover have "h' = h\<lparr>hn_notify_fd := fd\<rparr>" using assms(2) Set by (simp add: reqrep_eventfd_set_def)
    ultimately show ?thesis using r by (auto simp: holds_def ac_simps)
  next
    case (Reply_set fd)
    then have "0 \<le> fd \<longrightarrow> fd \<notin># ?R" using assms(3) by auto
    from replace_place [OF m(2) d this] obtain s' where
      "hold_all evs (s\<lparr>fds := List.union (handed op h) (fds s)\<rparr>) = Some s'"
      "mset (fds s') = place fd + ?R" "distinct (fds s')" "maps s' = maps s" "locks s' = locks s"
      using assms(2) unfolding Reply_set by (auto simp: reqrep_reply_eventfd_set_def)
    moreover have "h' = h\<lparr>hn_reply_fd := fd\<rparr>" using assms(2) Reply_set by (simp add: reqrep_reply_eventfd_set_def)
    ultimately show ?thesis using r by (auto simp: holds_def ac_simps)
  next
    case (Create fd)
    show ?thesis
    proof (cases "hn_notify_fd h < 0 \<and> 0 \<le> fd")
      case True
      then have "fd \<notin># ?N" "mset (fds s) = ?N" using Create assms(3) m(1) by auto
      then have "mset (List.insert fd (fds s)) = place fd + ?N" "distinct (List.insert fd (fds s))"
        using True d by (metis take_place)+
      moreover have "h' = h\<lparr>hn_notify_fd := fd\<rparr>" "evs = [EventfdCreate fd]"
        using True Create assms(2) by (simp_all add: reqrep_eventfd_create_def opened_def Let_def)
      ultimately have "holds h' (s\<lparr>fds := List.insert fd (fds s)\<rparr>)"
        using r by (auto simp: holds_def ac_simps)
      moreover have "hold_all evs (s\<lparr>fds := List.union (handed op h) (fds s)\<rparr>) =
          Some (s\<lparr>fds := List.insert fd (fds s)\<rparr>)"
        using True Create assms(2) by (auto simp: reqrep_eventfd_create_def opened_def List.union_def Let_def)
      ultimately show ?thesis by blast
    next
      case False
      then have "evs = []" "holds h' s"
        using Create assms(1,2) by (auto simp: reqrep_eventfd_create_def opened_def Let_def holds_def split: if_splits)
      then show ?thesis using Create by (simp add: List.union_def)
    qed
  next
    case (Reply_create fd)
    show ?thesis
    proof (cases "hn_reply_fd h < 0 \<and> 0 \<le> fd")
      case True
      then have "fd \<notin># ?R" "mset (fds s) = ?R" using Reply_create assms(3) m(2) by auto
      then have "mset (List.insert fd (fds s)) = place fd + ?R" "distinct (List.insert fd (fds s))"
        using True d by (metis take_place)+
      moreover have "h' = h\<lparr>hn_reply_fd := fd\<rparr>" "evs = [EventfdCreate fd]"
        using True Reply_create assms(2) by (simp_all add: reqrep_reply_eventfd_create_def opened_def Let_def)
      ultimately have "holds h' (s\<lparr>fds := List.insert fd (fds s)\<rparr>)"
        using r by (auto simp: holds_def ac_simps)
      moreover have "hold_all evs (s\<lparr>fds := List.union (handed op h) (fds s)\<rparr>) =
          Some (s\<lparr>fds := List.insert fd (fds s)\<rparr>)"
        using True Reply_create assms(2) by (auto simp: reqrep_reply_eventfd_create_def opened_def List.union_def Let_def)
      ultimately show ?thesis by blast
    next
      case False
      then have "evs = []" "holds h' s"
        using Reply_create assms(1,2) by (auto simp: reqrep_reply_eventfd_create_def opened_def Let_def holds_def split: if_splits)
      then show ?thesis using Reply_create by (simp add: List.union_def)
    qed
  qed (use assms use_place [OF m(1)] use_place [OF m(2)] in
      \<open>auto simp: reqrep_notify_def reqrep_eventfd_consume_def reqrep_reply_notify_def
         reqrep_reply_eventfd_consume_def reqrep_sync_def List.union_def\<close>)
qed

lemma ev_run_holds:
  "holds h s \<Longrightarrow> fresh_run ops h \<Longrightarrow> \<exists>h' s'. ev_run ops h s = Some (h', s') \<and> holds h' s'"
proof (induction ops arbitrary: h s)
  case (Cons op ops)
  obtain h1 evs where e: "ev_step op h = (h1, evs)" by (cases "ev_step op h")
  from ev_step_holds [OF Cons.prems(1) e] Cons.prems(2) obtain s1 where
    "hold_all evs (s\<lparr>fds := List.union (handed op h) (fds s)\<rparr>) = Some s1" "holds h1 s1" by auto
  with Cons.IH [of h1 s1] Cons.prems(2) e show ?case by simp
qed simp

lemma hold_all_append: "hold_all (xs @ ys) s = (case hold_all xs s of None \<Rightarrow> None | Some s' \<Rightarrow> hold_all ys s')"
  by (induction xs arbitrary: s) (auto split: option.splits)

lemma close_place:
  assumes "mset (fds s) = place fd + M" "distinct (fds s)"
  obtains s' where "hold_all (if fd \<ge> 0 then [CloseF fd] else []) s = Some s'"
    "mset (fds s') = M" "distinct (fds s')" "maps s' = maps s" "locks s' = locks s"
proof (cases "fd \<ge> 0")
  case True
  then have "mset (fds s) = add_mset fd M" using assms by simp
  then obtain s' where "hold (CloseF fd) s = Some s'" "mset (fds s') = M" "distinct (fds s')"
    "maps s' = maps s" "locks s' = locks s"
    using assms(2) by (rule hold_close)
  with True that show ?thesis by (simp del: hold.simps)
next
  case False
  with assms that [of s] show ?thesis by simp
qed

lemma destroy_holds:
  assumes "holds h s"
  shows "hold_all (reqrep_destroy (Some h)) s = Some nothing_held"
proof -
  have "mset (fds s) = place (hn_notify_fd h) + (place (hn_reply_fd h) + (place (hn_backing_fd h) + {#}))"
    "distinct (fds s)"
    using assms by (simp_all add: holds_def ac_simps)
  then obtain s1 where s1: "hold_all (if hn_notify_fd h \<ge> 0 then [CloseF (hn_notify_fd h)] else []) s = Some s1"
    "mset (fds s1) = place (hn_reply_fd h) + (place (hn_backing_fd h) + {#})" "distinct (fds s1)"
    "maps s1 = maps s" "locks s1 = locks s"
    by (rule close_place)
  from s1(2,3) obtain s2 where s2: "hold_all (if hn_reply_fd h \<ge> 0 then [CloseF (hn_reply_fd h)] else []) s1 = Some s2"
    "mset (fds s2) = place (hn_backing_fd h) + {#}" "distinct (fds s2)"
    "maps s2 = maps s1" "locks s2 = locks s1"
    by (rule close_place)
  from s2(2,3) obtain s3 where s3: "hold_all (if hn_backing_fd h \<ge> 0 then [CloseF (hn_backing_fd h)] else []) s2 = Some s3"
    "mset (fds s3) = {#}" "distinct (fds s3)" "maps s3 = maps s2" "locks s3 = locks s2"
    by (rule close_place)
  have "maps s3 = [hn_mmap_size h]" "locks s3 = []"
    using assms s1(4,5) s2(4,5) s3(4,5) by (simp_all add: holds_def)
  with s3(2) have "hold_all [Munmap (hn_mmap_size h)] s3 = Some nothing_held" by simp
  with s1(1) s2(1) s3(1) show ?thesis
    by (simp add: reqrep_destroy_def hold_all_append del: hold_all.simps)
qed

text \<open>
  Property C27. Event descriptors are never leaked, closed twice or used without being held,
  provided that no descriptor is handed over for one place of the handle while the handle has it
  in another: for any such sequence of the event calls, with any answers of the kernel, every
  write, read and close goes to a descriptor held at that moment, the handle holds exactly its
  descriptors, which differ, in between, and destroying it at the end gives everything back.
\<close>

theorem event_descriptors_owned:
  assumes "holds h s" "fresh_run ops h"
  shows "\<exists>h' s'. ev_run ops h s = Some (h', s') \<and> holds h' s' \<and>
     hold_all (reqrep_destroy (Some h')) s' = Some nothing_held"
  using ev_run_holds [OF assms] destroy_holds by blast

lemma demo_handle:
  obtains h where "hn_notify_fd h = -1" "hn_reply_fd h = -1" "hn_backing_fd h = -1" "hn_mmap_size h = 384"
    "holds h \<lparr>fds = [], maps = [384], locks = []\<rparr>"
proof -
  obtain h where h: "reqrep_setup_handle (granting 0 no_file)
      (fresh_int 2 1 \<lparr>il_req_slots_off = 256, il_resp_off = 320, il_resp_stride = 64, il_total_size = 384\<rparr>)
      384 None (-1) = Some h"
    by (simp add: reqrep_setup_handle_def granting_def)
  have f: "hn_notify_fd h = -1" "hn_reply_fd h = -1" "hn_backing_fd h = -1" "hn_mmap_size h = 384"
    using h by (auto simp: reqrep_setup_handle_def split: if_splits)
  then have "holds h \<lparr>fds = [], maps = [384], locks = []\<rparr>" by (simp add: holds_def)
  with f that show thesis by blast
qed

theorem event_descriptors_owned_witness:
  "\<exists>h h' s'. ev_run [Create 5, Notify, Set 6, Reply_create (-1), Reply_create 5, Reply_notify, Consume] h
       \<lparr>fds = [], maps = [384], locks = []\<rparr> = Some (h', s') \<and>
     hold_all (reqrep_destroy (Some h')) s' = Some nothing_held"
proof -
  obtain h where h: "hn_notify_fd h = -1" "hn_reply_fd h = -1" "hn_backing_fd h = -1"
    "holds h \<lparr>fds = [], maps = [384], locks = []\<rparr>"
    using demo_handle by metis
  have "fresh_run [Create 5, Notify, Set 6, Reply_create (-1), Reply_create 5, Reply_notify, Consume] h"
    using h(1-3) by (simp add: event_defs)
  from event_descriptors_owned [OF h(4) this] show ?thesis by blast
qed

text \<open>
  Property C40. The condition on the caller is needed, because the functions compare a new
  descriptor with the old one of the same place only. A descriptor handed over for both places
  is closed twice when the handle is destroyed; and when the notification descriptor is then
  replaced, the shared descriptor is closed, and the next reply notification writes to a
  descriptor that is no longer held.
\<close>

theorem shared_descriptor_closed_twice:
  assumes "holds h s" "0 \<le> fd" "fd \<notin> set (fds s)" "fd' \<noteq> fd"
  shows "(\<exists>h' s'. ev_run [Set fd, Reply_set fd] h s = Some (h', s') \<and>
            hold_all (reqrep_destroy (Some h')) s' = None) \<and>
         ev_run [Set fd, Reply_set fd, Set fd'] h s \<noteq> None \<and>
         ev_run [Set fd, Reply_set fd, Set fd', Reply_notify] h s = None"
proof -
  let ?h1 = "h\<lparr>hn_notify_fd := fd\<rparr>" and ?h2 = "h\<lparr>hn_notify_fd := fd, hn_reply_fd := fd\<rparr>"
  have places: "set (fds s) = set_mset (place (hn_notify_fd h) + place (hn_reply_fd h) + place (hn_backing_fd h))"
    using assms(1) by (intro set_fds) (simp add: holds_def)
  then have new: "fd \<noteq> hn_notify_fd h" "fd \<noteq> hn_reply_fd h" "fd \<noteq> hn_backing_fd h"
    using assms(2,3) by auto
  obtain evs1 where e1: "ev_step (Set fd) h = (?h1, evs1)" by (simp add: reqrep_eventfd_set_def)
  from ev_step_holds [OF assms(1) e1] new obtain s1 where
    s1: "hold_all evs1 (s\<lparr>fds := List.union (handed (Set fd) h) (fds s)\<rparr>) = Some s1" "holds ?h1 s1"
    by auto
  have m1: "mset (fds s1) = place (hn_reply_fd h) + (place fd + place (hn_backing_fd h))" "distinct (fds s1)"
    using s1(2) by (simp_all add: holds_def ac_simps)
  then have "fd \<in> set (fds s1)" using set_fds [OF m1(1)] assms(2) by simp
  then have same: "s1\<lparr>fds := List.union (handed (Reply_set fd) ?h1) (fds s1)\<rparr> = s1"
    by (simp add: List.union_def List.insert_def)
  obtain s2 where s2: "hold_all (if hn_reply_fd h \<ge> 0 then [CloseF (hn_reply_fd h)] else []) s1 = Some s2"
    "mset (fds s2) = place fd + place (hn_backing_fd h)" "distinct (fds s2)"
    using m1 by (rule close_place)
  have e2: "ev_step (Reply_set fd) ?h1 = (?h2, if hn_reply_fd h \<ge> 0 then [CloseF (hn_reply_fd h)] else [])"
    using new(2) by (simp add: reqrep_reply_eventfd_set_def)
  have run: "ev_run (Set fd # Reply_set fd # ops) h s = ev_run ops ?h2 s2" for ops
    by (simp only: ev_run.simps e1 s1(1) prod.case option.case e2 same s2(1))
  have out: "hold (CloseF fd) t = Some t' \<Longrightarrow> distinct (fds t) \<Longrightarrow> fd \<notin> set (fds t')" for t t'
    by (auto split: if_splits)
  obtain t where t: "hold (CloseF fd) s2 = Some t"
    using s2(2,3) assms(2) hold_close [of s2 fd "place (hn_backing_fd h)"] by (metis place_nonneg add_mset_add_single union_commute)
  have "hold_all (reqrep_destroy (Some ?h2)) s2 = None"
    using t out [OF t s2(3)] assms(2) by (simp add: reqrep_destroy_def del: hold.simps) simp
  moreover
  let ?s3 = "s2\<lparr>fds := List.union (handed (Set fd') ?h2) (fds s2)\<rparr>"
  have "distinct (fds ?s3)" "fd \<in> set (fds ?s3)"
    using s2(2,3) set_fds [OF s2(2)] assms(2) by simp_all
  then obtain u where u: "hold (CloseF fd) ?s3 = Some u" "fd \<notin> set (fds u)"
    using out by (metis hold.simps(7))
  have "ev_step (Set fd') ?h2 = (?h2\<lparr>hn_notify_fd := fd'\<rparr>, [CloseF fd])"
    using assms(2,4) by (simp add: reqrep_eventfd_set_def)
  then have close: "ev_run (Set fd' # ops) ?h2 s2 = ev_run ops (?h2\<lparr>hn_notify_fd := fd'\<rparr>) u" for ops
    using u(1) by (simp del: hold.simps handed.simps)
  have "ev_run [Reply_notify] (?h2\<lparr>hn_notify_fd := fd'\<rparr>) u = None"
    using u(2) assms(2) by (simp add: reqrep_reply_notify_def List.union_def)
  ultimately show ?thesis unfolding run close by simp
qed

theorem shared_descriptor_closed_twice_witness:
  "\<exists>h. hn_notify_fd h = -1 \<and> hn_reply_fd h = -1 \<and>
     ev_run [Set 5, Reply_set 5, Set 6, Reply_notify] h \<lparr>fds = [], maps = [384], locks = []\<rparr> = None \<and>
     (\<exists>h' s'. ev_run [Set 5, Reply_set 5] h \<lparr>fds = [], maps = [384], locks = []\<rparr> = Some (h', s') \<and>
        hold_all (reqrep_destroy (Some h')) s' = None)"
proof -
  obtain h where h: "hn_notify_fd h = -1" "hn_reply_fd h = -1"
    "holds h \<lparr>fds = [], maps = [384], locks = []\<rparr>"
    using demo_handle by metis
  from shared_descriptor_closed_twice [OF h(3), of 5 6] h(1,2) show ?thesis by auto
qed

text \<open>
  Property C38. A whole session leaks nothing: whichever of the six functions made the handle, and
  whatever calls on its event descriptors follow (with the condition above on the descriptors
  handed over), the handle starts with exactly the resources its creation left held, every
  descriptor is used only while it is held, and destroying the handle gives back every
  descriptor, file lock and mapping.
\<close>

theorem session_releases_all:
  assumes "made c" "c = (Inr (h, w), evs)" "fresh_run ops h"
  shows "\<exists>s h' s'. hold_all evs nothing_held = Some s \<and> ev_run ops h s = Some (h', s') \<and>
     hold_all (reqrep_destroy (Some h')) s' = Some nothing_held"
proof -
  have s: "hold_all evs nothing_held = Some (owned (fst c))"
    using made_clean [OF assms(1,2)] assms(2) by (simp add: clean_def)
  have "holds h (owned (fst c))"
    using made_no_events [OF assms(1,2)] assms(2) by (simp add: holds_def owned_def)
  from ev_run_holds [OF this assms(3)] s destroy_holds show ?thesis by blast
qed

theorem session_releases_all_witness:
  "\<exists>h w evs s h' s'. reqrep_create (granting 0 no_file) (Some ''/q'') 3 1 16 0 = (Inr (h, w), evs) \<and>
     hold_all evs nothing_held = Some s \<and>
     ev_run [Create 5, Reply_create 6, Notify, Set 7, Reply_notify] h s = Some (h', s') \<and>
     hold_all (reqrep_destroy (Some h')) s' = Some nothing_held"
proof -
  obtain h w evs where c: "reqrep_create (granting 0 no_file) (Some ''/q'') 3 1 16 0 =
      (Inr (h, w), evs)"
    using demo_create by blast
  have "hn_notify_fd h = -1 \<and> hn_reply_fd h = -1"
    using made_no_events [OF made.intros(1) c] .
  moreover have "hn_backing_fd h = -1"
    using c by (auto simp: reqrep_create_def create_in_file_def with_locked_file_def finish_handle_def
        granting_def reqrep_setup_handle_def Let_def split: if_splits option.splits)
  ultimately have "fresh_run [Create 5, Reply_create 6, Notify, Set 7, Reply_notify] h"
    by (simp add: event_defs)
  from session_releases_all [OF made.intros(1) c this] c show ?thesis by blast
qed

end
