(* ===== verification/Spec2Isabelle.thy ===== *)
theory Spec2Isabelle
  imports RR_Transport RR_Threads RR_Event
begin

text \<open>
  \<^bold>\<open>The program.\<close> \<^verbatim>\<open>gen/reqrep.h\<close> is a request/response channel in shared memory for any number of
  processes on one Linux machine. A mapping (anonymous, a file, or a memfd) holds a 256-byte
  header, a ring of request slots, in string mode a circular byte arena for the requests, and a
  table of response slots. A client takes a response slot, puts a request with the identifier
  (slot, generation) into the ring, and later fetches the reply from its slot; a server takes
  requests out of the ring and writes replies into the slots their identifiers name. String
  mode guards ring and arena by a futex mutex that recovers from a dead holder; integer mode
  uses a lock-free ring of sequence numbers. Response slots are lock-free in both modes and are
  reclaimed from dead owners. \<^verbatim>\<open>gen/gen_layout.c\<close> prints the layout, from which the constants
  of the Go side, \<^verbatim>\<open>reqrep_layout_gen.go\<close>, are generated.

  \<^bold>\<open>Theories and code.\<close> Line numbers are those of \<^verbatim>\<open>gen/reqrep.h\<close>; definitions carry the names of
  the C functions, and helper definitions name the lines they translate.

  \<^item> \<^verbatim>\<open>RR_Prelude\<close>: word types, facts on masks, alignment and ring indices, \<^verbatim>\<open>memcpy\<close> on lists.
  \<^item> \<^verbatim>\<open>RR_Layout\<close>: constants and structures (35 to 167) as records and as ABI field lists;
    \<^verbatim>\<open>gen_layout.c\<close> and \<^verbatim>\<open>reqrep_layout_gen.go\<close>.
  \<^item> \<^verbatim>\<open>RR_Util\<close>: identifiers, power-of-two rounding, mutex word, the rounding of doubles and the
    deadlines (54 to 56, 173 to 179, 210 to 212, 290 to 311).
  \<^item> \<^verbatim>\<open>RR_Shm\<close>: the mapping as a record \<^verbatim>\<open>shm\<close> (header, request slots of either mode, arena, response
    slots, log of wake-up calls), the environment \<^verbatim>\<open>os\<close> of a call, the wake-ups and the copy
    buffer (191 to 204, 214 to 217, 269 to 288).
  \<^item> \<^verbatim>\<open>RR_Lifecycle\<close>: layout computation, header initialisation and validation, and every function
    that creates, opens or destroys a mapping, in both modes (374 to 717, 1212 to 1342).
  \<^item> \<^verbatim>\<open>RR_Fifo\<close>: the locale \<^verbatim>\<open>bounded_fifo\<close>, the contract both request queues implement.
  \<^item> \<^verbatim>\<open>RR_Arena\<close>: the circular arena over natural numbers and its invariant.
  \<^item> \<^verbatim>\<open>RR_Queue\<close>: the string request queue (720 to 769, 835 to 869, 1101 to 1109).
  \<^item> \<^verbatim>\<open>RR_Slots\<close>: the response slots (317 to 366, 924 to 978, 1033 to 1049, 1087 to 1098).
  \<^item> \<^verbatim>\<open>RR_System\<close>: reachability and the locale \<^verbatim>\<open>invariant_system\<close> for interleaved executions.
  \<^item> \<^verbatim>\<open>RR_Mutex\<close>: the mutex as functions and as a system of interleaved processes (219 to 267).
  \<^item> \<^verbatim>\<open>RR_Transport\<close>: the operations applications call in string mode, immediate, waiting and
    combined, and clearing (774 to 832, 872 to 917, 982 to 1029, 1053 to 1084, 1111 to 1141); the
    locale \<^verbatim>\<open>waiting_call\<close> holds what the waiting operations of both modes share.
  \<^item> \<^verbatim>\<open>RR_Int\<close>: integer mode, every operation (1346 to 1615).
  \<^item> \<^verbatim>\<open>RR_Vyukov\<close>: the lock-free ring under concurrency (1346 to 1444) as a step relation.
  \<^item> \<^verbatim>\<open>RR_Threads\<close>: the functions of \<^verbatim>\<open>RR_Mutex\<close> and \<^verbatim>\<open>RR_Int\<close> as runs of one thread of the step relations.
  \<^item> \<^verbatim>\<open>RR_Event\<close>: event descriptors and \<^verbatim>\<open>msync\<close> (1143 to 1205).

  \<^bold>\<open>State and failure.\<close> A C object is a record or list; an access outside it gives \<^term>\<open>None\<close>, so that
  a theorem with \<^term>\<open>Some\<close> states memory safety. Return codes are the integers of the code, output
  parameters are results. Machine integers are words of their width; the timeouts are C doubles,
  modelled as the reals they stand for, with every conversion and operation on them rounded to 53
  bits by \<^verbatim>\<open>rnd64\<close>; seconds and nanoseconds are integers, which a property keeps inside 64 bits. A function on the mapping
  takes and returns it; \<^verbatim>\<open>ReqRepHandle\<close> is the private handle with its copy buffer. Creating and
  opening return the handle and the content of the mapping, or the error that the code reports,
  with the log of system calls, from which \<^verbatim>\<open>hold_all\<close> computes what is left held; descriptors
  form a set there, as in the descriptor table of a process, so a second \<^verbatim>\<open>close\<close> of one fails.

  \<^bold>\<open>Concurrency, two views.\<close> In the first, a function is run by one caller and before each of its
  atomic accesses the parameter \<^verbatim>\<open>os_run\<close> of the environment changes the mapping in any way (the
  other processes). Theorems about safety take any interference that keeps the geometry of the
  mapping; theorems about the result of a call take a \<^verbatim>\<open>quiet\<close> environment, in which nobody
  interferes; three theorems choose an interference that makes the code fail (a reply that
  reaches the wrong client, a lost wake-up, a clear under a send). In the second, the mutex and the lock-free ring are step
  relations of any number of threads over the same state, one atomic access per step, with death
  and interference, and the theorems are invariants of all reachable states: mutual exclusion for
  the mutex, exclusive slots and exactly-once delivery in order for the ring. \<^verbatim>\<open>RR_Threads\<close> joins the two: a
  call of \<^verbatim>\<open>reqrep_mutex_lock\<close> or of the loops of the ring, under interference that the other threads
  can perform, is a run of one thread of the relation. The kernel's and
  allocator's answers (\<^verbatim>\<open>kern\<close>, \<^verbatim>\<open>os_futex\<close>, \<^verbatim>\<open>os_kill\<close>, \<^verbatim>\<open>os_clock\<close>, \<^verbatim>\<open>os_realloc\<close>) are arbitrary unless a
  theorem names the answer it needs.

  \<^bold>\<open>What is shown.\<close> The queues refine a bounded first-in first-out buffer, byte for byte and within
  bounds; the branches of every operation, refusals included; the life of a response slot
  (acquire, reply, fetch, cancel, recovery) and what stale identifiers do; whole requests from
  client to server and back; the waiting operations return when their waits time out, restore the
  waiter counts and leave no slot behind; creating, opening and destroying, with any use of the
  event descriptors in between, give back every resource, with two exceptions that are proved (no
  memory for the handle of an integer mapping; one descriptor handed over for both events); validated and computed layouts describe disjoint regions; a
  created mapping satisfies the invariants the operations start from (this theory).

  \<^bold>\<open>Bounds and fuel.\<close> A loop that may wait for ever is followed for \<^verbatim>\<open>os_fuel\<close> rounds and is \<^term>\<open>None\<close>
  after that; the termination theorems show how much is enough, and those that suppose a quiet
  environment need one round only where the code needs one. The loops over the slots and the growth
  of the copy buffer are total functions. The theorems on created mappings take at most \<open>2 ^ 31\<close>
  response slots, since the code returns slot numbers as 32-bit signed integers. The theorems on the
  lock-free ring hold for the first \<open>2 ^ 63\<close> requests, after which positions would come round.

  \<^bold>\<open>Not modelled.\<close> The Go implementation (\<^verbatim>\<open>reqrep.go\<close> and its parts) is a second implementation of
  the same layout; only its layout constants are compared here. Tests, the Perl programs under
  \<^verbatim>\<open>testdata\<close> and the documents are not code of the library. \<^verbatim>\<open>reqrep_spin_pause\<close> (181 to 189) has no effect on the
  state. The texts of error messages are the constructors of an error type. The wake-up functions (269 to 288) are
  one step: no other process acts between their look at the waiter count, their increment of the futex
  word and their system call. Infinite and undefined timeouts (infinity and NaN) are not considered.
  Atomic accesses are sequentially consistent: reorderings that the acquire and release orders of the code would allow are
  not considered. A process identifier is not reused by the kernel while a word names it.
\<close>

section \<open>From creation to the operations\<close>

lemma created_str:
  assumes "reqrep_create k path c0 n d hint = (Inr (h, w), evs) \<and> (path = None \<or> k_fstat k = Some 0) \<or>
           reqrep_create_memfd k c0 n d hint = (Inr (h, w), evs)"
  obtains hint' l sz p fd where "reqrep_next_pow2 c0 \<noteq> 0" "n \<noteq> 0"
    "reqrep_compute_layout (reqrep_next_pow2 c0) n d hint' = Some l"
    "w = fresh_str (reqrep_next_pow2 c0) n d l"
    "reqrep_setup_handle k w sz p fd = Some h"
  using assms
  by (auto simp: reqrep_create_def reqrep_create_memfd_def create_in_file_def with_locked_file_def
      finish_handle_def Let_def split: if_splits option.splits)

lemma created_int:
  assumes "reqrep_create_int k path c0 n = (Inr (h, w), evs) \<and> (path = None \<or> k_fstat k = Some 0) \<or>
           reqrep_create_int_memfd k c0 n = (Inr (h, w), evs)"
  obtains l sz p fd where "reqrep_next_pow2 c0 \<noteq> 0" "n \<noteq> 0"
    "reqrep_int_compute_layout (reqrep_next_pow2 c0) n = Some l"
    "w = fresh_int (reqrep_next_pow2 c0) n l"
    "reqrep_setup_handle k w sz p fd = Some h"
  using assms
  by (auto simp: reqrep_create_int_def reqrep_create_int_memfd_def create_in_file_def
      with_locked_file_def finish_handle_def Let_def split: if_splits option.splits)

lemma int_layout_stride: "reqrep_int_compute_layout c n = Some l \<Longrightarrow> il_resp_stride l = 64"
  by (auto simp: reqrep_int_compute_layout_def Let_def reqrep_consts split: if_splits)

text \<open>
  Property C21. What creating delivers is what the operations start from. A string-mode mapping
  created new (in memory, in an empty file or in a memfd), whose response slots were not
  truncated away, satisfies the invariants of the queue, of the slots and of the copy buffer
  under which every other string-mode property holds, with an empty queue and every response
  slot free; the request capacity is the power of two computed for it.
\<close>

theorem created_str_ready:
  assumes "reqrep_create k path c0 n d hint = (Inr (h, w), evs) \<and> (path = None \<or> k_fstat k = Some 0) \<or>
           reqrep_create_memfd k c0 n d hint = (Inr (h, w), evs)"
    and "unat d \<le> 4294967200" and "unat n \<le> 2 ^ 31"
  shows "str_ok h w \<and> copy_buf_ok h \<and> queue_abs h w = [] \<and>
         (\<forall>s \<in> set (resp_area w). rs_state s = RESP_FREE) \<and>
         hn_req_cap h = reqrep_next_pow2 c0 \<and> hn_resp_slots h = n \<and> 4096 \<le> unat (hn_req_arena_cap h)"
proof -
  obtain hint' l sz p fd where l: "reqrep_next_pow2 c0 \<noteq> 0" "n \<noteq> 0"
    "reqrep_compute_layout (reqrep_next_pow2 c0) n d hint' = Some l"
    "w = fresh_str (reqrep_next_pow2 c0) n d l" "reqrep_setup_handle k w sz p fd = Some h"
    by (rule created_str [OF assms(1)])
  obtain j where j: "j \<le> 31" "unat (reqrep_next_pow2 c0) = 2 ^ j"
    using next_pow2_pow2 [OF refl l(1)] by metis
  have st: "32 + unat d \<le> unat (sl_resp_stride l)"
    using compute_layout_facts(8) [OF l(3)] round_up_64_mod(1) [of d] assms(2) by simp
  have h: "hn_req_cap h = reqrep_next_pow2 c0" "hn_resp_slots h = n"
    "hn_req_arena_cap h = sl_req_arena_cap l"
    using l(4,5) by (auto simp: reqrep_setup_handle_def fresh_str_hdr split: if_splits)
  note q = created_queue [OF j(2,1) l(5) [unfolded l(4)], folded l(4)]
  have "slots_ok h w" using created_slots [OF l(5) [unfolded l(4)] l(2) st] l(4) by simp
  moreover have "h_mutex (hdr w) = 0" "h_resp_hint (hdr w) = 0"
    by (simp_all add: l(4) fresh_str_hdr zero_header_def)
  moreover have "\<forall>s \<in> set (resp_area w). rs_state s = RESP_FREE"
    by (simp add: l(4) fresh_str_simps zero_resp_slot_def reqrep_consts)
  moreover have "4096 \<le> unat (hn_req_arena_cap h)"
    using compute_layout_facts(4) [OF l(3)] h(3) by simp
  ultimately show ?thesis
    using q h l(2) assms(3) by (simp add: str_ok_def word_neq_0_conv)
qed

theorem created_str_ready_witness:
  "\<exists>h w evs. reqrep_create (granting 0 no_file) (Some ''/q'') 3 1 16 0 = (Inr (h, w), evs) \<and>
     str_ok h w \<and> queue_abs h w = []"
proof -
  obtain h w evs where c: "reqrep_create (granting 0 no_file) (Some ''/q'') 3 1 16 0 =
      (Inr (h, w), evs)"
    using demo_create by blast
  have f: "k_fstat (granting 0 no_file) = Some 0" by (simp add: granting_def)
  from created_str_ready [of _ "Some ''/q''"] c f have "str_ok h w \<and> queue_abs h w = []"
    by fastforce
  with c show ?thesis by blast
qed

text \<open>
  Property C22. The same for integer mode: a mapping created new satisfies the invariant of the
  lock-free ring and of the response slots, with an empty queue and every response slot free,
  and the ring starts the concurrent model in its initial state: slot i carries the sequence
  number i and both cursors are 0.
\<close>

theorem created_int_ready:
  assumes "reqrep_create_int k path c0 n = (Inr (h, w), evs) \<and> (path = None \<or> k_fstat k = Some 0) \<or>
           reqrep_create_int_memfd k c0 n = (Inr (h, w), evs)"
    and "unat n \<le> 2 ^ 31"
  shows "int_ok h w \<and> int_abs h w = [] \<and> (\<forall>s \<in> set (resp_area w). rs_state s = RESP_FREE) \<and>
         hn_req_cap h = reqrep_next_pow2 c0 \<and> hn_resp_slots h = n \<and>
         h_req_head (hdr w) = 0 \<and> h_req_tail (hdr w) = 0 \<and>
         map ri_sequence (int_slots w) = map of_nat [0..<unat (hn_req_cap h)]"
proof -
  obtain l sz p fd where l: "reqrep_next_pow2 c0 \<noteq> 0" "n \<noteq> 0"
    "reqrep_int_compute_layout (reqrep_next_pow2 c0) n = Some l"
    "w = fresh_int (reqrep_next_pow2 c0) n l" "reqrep_setup_handle k w sz p fd = Some h"
    by (rule created_int [OF assms(1)])
  obtain j where j: "1 \<le> j" "j \<le> 31" "unat (reqrep_next_pow2 c0) = 2 ^ j"
    using next_pow2_pow2 [OF refl l(1)] by metis
  have "40 \<le> unat (il_resp_stride l)" using int_layout_stride [OF l(3)] by simp
  note q = created_int_queue [OF j(3,1,2) l(2) assms(2) this l(5) [unfolded l(4)], folded l(4)]
  have "\<forall>s \<in> set (resp_area w). rs_state s = RESP_FREE"
    by (simp add: l(4) fresh_int_simps zero_resp_slot_def reqrep_consts)
  moreover have "h_req_head (hdr w) = 0" "h_req_tail (hdr w) = 0"
    by (simp_all add: l(4) fresh_int_simps zero_header_def)
  moreover have "map ri_sequence (int_slots w) = map of_nat [0..<unat (hn_req_cap h)]"
    by (simp add: l(4) q(3) [unfolded l(4)] fresh_int_simps)
  ultimately show ?thesis using q by simp
qed

theorem created_int_ready_witness:
  "\<exists>h w evs. reqrep_create_int (granting 0 no_file) None 3 1 = (Inr (h, w), evs) \<and>
     int_ok h w \<and> hn_req_cap h = 4"
proof -
  have np: "reqrep_next_pow2 3 = 4" by (simp add: reqrep_next_pow2_def)
  have "\<exists>h w evs. reqrep_create_int (granting 0 no_file) None 3 1 = (Inr (h, w), evs)"
    by (simp add: reqrep_create_int_def finish_handle_def granting_def reqrep_setup_handle_def np
        reqrep_int_compute_layout_def Let_def reqrep_consts)
  then obtain h w evs where c: "reqrep_create_int (granting 0 no_file) None 3 1 = (Inr (h, w), evs)"
    by blast
  then have "int_ok h w \<and> hn_req_cap h = reqrep_next_pow2 3"
    using created_int_ready [of _ None 3 1] by fastforce
  with c np show ?thesis by auto
qed

section \<open>A header that validation should refuse\<close>

text \<open>\<^verbatim>\<open>reqrep_validate_header\<close> asks for room for the header of a response slot, not for the
  \<^verbatim>\<open>resp_data_max\<close> bytes behind it. A file whose header promises 100 bytes in slots of 64 is
  opened, and a reply of 40 bytes to an identifier in order overruns its slot.\<close>

lemma open_accepts_short_stride:
  assumes "length str = 40"
  shows "\<exists>k h w evs. reqrep_open k (Some ''/q'') REQREP_MODE_STR = (Inr (h, w), evs) \<and>
     resp_area w = [(zero_resp_slot (h_resp_stride (hdr w)))\<lparr>rs_state := RESP_ACQUIRED\<rparr>] \<and>
     (40 :: u32) \<le> hn_resp_data_max h \<and>
     reqrep_reply quiet_os h (REQREP_MAKE_ID 0 0) str 40 False w = None"
proof -
  define l where "l = \<lparr>sl_req_slots_off = 256, sl_req_arena_off = 304, sl_req_arena_cap = 4096,
     sl_resp_off = 4416, sl_resp_stride = 64, sl_total_size = 4480\<rparr>"
  define w where "w = (fresh_str 2 1 100 l)\<lparr>resp_area := [(zero_resp_slot 64)\<lparr>rs_state := RESP_ACQUIRED\<rparr>]\<rparr>"
  let ?k = "granting 4480 w"
  have hdr: "hdr w = hdr (fresh_str 2 1 100 l)" by (simp add: w_def)
  have v: "reqrep_validate_header (hdr w) 4480 REQREP_MODE_STR"
    unfolding hdr fresh_str_hdr by (simp add: reqrep_validate_header_def zero_header_def l_def reqrep_consts)
  obtain h where h: "reqrep_setup_handle ?k w 4480 (Some ''/q'') (-1) = Some h" "hn_resp_slots h = 1"
    "hn_resp_data_max h = 100"
    unfolding reqrep_setup_handle_def hdr fresh_str_hdr by (simp add: granting_def)
  have "\<exists>evs. reqrep_open ?k (Some ''/q'') REQREP_MODE_STR = (Inr (h, w), evs)"
    using v h(1) by (simp add: reqrep_open_def with_locked_file_def finish_handle_def granting_def Let_def
        reqrep_consts)
  moreover have "h_resp_stride (hdr w) = 64" unfolding hdr fresh_str_hdr by (simp add: l_def)
  moreover have area: "resp_area w = [(zero_resp_slot 64)\<lparr>rs_state := RESP_ACQUIRED\<rparr>]" by (simp add: w_def)
  moreover have "reqrep_reply quiet_os h (REQREP_MAKE_ID 0 0) str 40 False w = None"
    using h(2,3) by (simp add: reqrep_reply_def reqrep_resp_slot_def area memcpy_def zero_resp_slot_def Let_def)
  ultimately show ?thesis using h(3)
    by (intro exI [of _ ?k] exI [of _ h] exI [of _ w]) simp
qed

end
